(* ===== verification/Razor_Prelude.thy ===== *)
theory Razor_Prelude
  imports Main "HOL-Library.Word" "HOL-Library.Monad_Syntax"
begin

text \<open>
  Shared vocabulary of the development: the machine types of the Go sources, the error values
  the cache returns, the byte-order codecs of the package \<^verbatim>\<open>encoding/binary\<close>, and the
  list lemmas that several components use. A computation that may panic, read out of range or
  not return has an \<open>option\<close> type (\<open>None\<close>: it does not return normally); a Go
  \<^verbatim>\<open>(value, error)\<close> pair is a sum \<open>go_err + 'a\<close> (\<open>Inl\<close>: the error).
\<close>

unbundle bit_operations_syntax

section \<open>Machine types and errors\<close>

type_synonym u8 = "8 word"
type_synonym u16 = "16 word"
type_synonym u32 = "32 word"
type_synonym u64 = "64 word"
type_synonym bytes = "u8 list"

datatype go_err =
    ErrInvalidated | ErrCacheClosed | ErrIndexFull | ErrNotResident | ErrWriteInProgress
  | ErrReadFromDisk | ErrOverloaded | ErrContext | ErrEOF | ErrUnexpectedEOF
  | ErrIO nat | Err string

type_synonym 'a result = "go_err + 'a"

text \<open>Go's \<^verbatim>\<open>int64\<close> (and \<^verbatim>\<open>int\<close>, on the 64-bit platforms the program is built for) is the type \<open>int\<close> with
  \<open>i64\<close> written where a result may wrap; its division truncates toward zero.\<close>

definition i64 :: "int \<Rightarrow> int" where "i64 x = (x + 2 ^ 63) mod 2 ^ 64 - 2 ^ 63"

definition go_div :: "int \<Rightarrow> int \<Rightarrow> int" where "go_div a b = sgn a * sgn b * (\<bar>a\<bar> div \<bar>b\<bar>)"

definition go_mod :: "int \<Rightarrow> int \<Rightarrow> int" where "go_mod a b = a - b * go_div a b"

lemma i64_id [simp]: "- (2 ^ 63) \<le> x \<Longrightarrow> x < 2 ^ 63 \<Longrightarrow> i64 x = x"
  by (simp add: i64_def)

lemma go_div_nonneg [simp]: "0 \<le> a \<Longrightarrow> 0 < b \<Longrightarrow> go_div a b = a div b"
  by (cases "a = 0") (simp_all add: go_div_def)

lemma go_mod_nonneg [simp]: "0 \<le> a \<Longrightarrow> 0 < b \<Longrightarrow> go_mod a b = a mod b"
  by (simp add: go_mod_def minus_mult_div_eq_mod)

named_theorems codec_simps \<open>byte-order encoders followed by their decoders\<close>

section \<open>Fixed-width integers as bytes\<close>

primrec le_enc :: "nat \<Rightarrow> nat \<Rightarrow> bytes" where
  "le_enc 0 n = []"
| "le_enc (Suc k) n = of_nat n # le_enc k (n div 256)"

primrec le_dec :: "bytes \<Rightarrow> nat" where
  "le_dec [] = 0"
| "le_dec (b # bs) = unat b + 256 * le_dec bs"

definition be_enc :: "nat \<Rightarrow> nat \<Rightarrow> bytes" where
  "be_enc k n = rev (le_enc k n)"

definition be_dec :: "bytes \<Rightarrow> nat" where
  "be_dec bs = le_dec (rev bs)"

lemma length_le_enc [simp]: "length (le_enc k n) = k"
  by (induction k arbitrary: n) simp_all

lemma length_be_enc [simp]: "length (be_enc k n) = k"
  by (simp add: be_enc_def)

lemma unat_byte_of_nat: "unat (of_nat n :: u8) = n mod 256"
  by (simp add: unat_of_nat)

lemma le_dec_le_enc: "le_dec (le_enc k n) = n mod 256 ^ k"
proof (induction k arbitrary: n)
  case 0
  then show ?case by simp
next
  case (Suc k)
  have "le_dec (le_enc (Suc k) n) = n mod 256 + 256 * (n div 256 mod 256 ^ k)"
    by (simp add: Suc.IH unat_byte_of_nat)
  also have "\<dots> = n mod (256 * 256 ^ k)"
    by (simp add: mod_mult2_eq)
  finally show ?case by simp
qed

lemma be_dec_be_enc: "be_dec (be_enc k n) = n mod 256 ^ k"
  by (simp add: be_dec_def be_enc_def le_dec_le_enc)

lemma le_dec_less: "le_dec bs < 256 ^ length bs"
proof (induction bs)
  case Nil
  then show ?case by simp
next
  case (Cons b bs)
  have "unat b < 256" using unsigned_less [of b, where ?'a = nat] by simp
  with Cons show ?case by simp
qed

lemma be_dec_less: "be_dec bs < 256 ^ length bs"
  using le_dec_less [of "rev bs"] by (simp add: be_dec_def)

lemma le_enc_le_dec: "le_enc (length bs) (le_dec bs) = bs"
proof (induction bs)
  case Nil
  then show ?case by simp
next
  case (Cons b bs)
  have b: "unat b < 256" using unsigned_less [of b, where ?'a = nat] by simp
  have "(of_nat (unat b + 256 * le_dec bs) :: u8) = b"
  proof -
    have "(of_nat (256 * le_dec bs) :: u8) = of_nat 256 * of_nat (le_dec bs)"
      by simp
    also have "(of_nat 256 :: u8) = 0" by simp
    finally show ?thesis by simp
  qed
  moreover have "(unat b + 256 * le_dec bs) div 256 = le_dec bs"
    using b by simp
  ultimately show ?case by (simp add: Cons.IH)
qed

lemma be_enc_be_dec: "be_enc (length bs) (be_dec bs) = bs"
  using le_enc_le_dec [of "rev bs"] by (simp add: be_enc_def be_dec_def)

text \<open>\<^verbatim>\<open>PutUint16/32/64\<close> and \<^verbatim>\<open>Uint16/32/64\<close> of \<^verbatim>\<open>encoding/binary\<close>.\<close>

definition put_be16 :: "u16 \<Rightarrow> bytes" where "put_be16 w = be_enc 2 (unat w)"
definition put_be32 :: "u32 \<Rightarrow> bytes" where "put_be32 w = be_enc 4 (unat w)"
definition put_be64 :: "u64 \<Rightarrow> bytes" where "put_be64 w = be_enc 8 (unat w)"
definition put_le16 :: "u16 \<Rightarrow> bytes" where "put_le16 w = le_enc 2 (unat w)"

definition get_be16 :: "bytes \<Rightarrow> u16" where "get_be16 bs = of_nat (be_dec bs)"
definition get_be32 :: "bytes \<Rightarrow> u32" where "get_be32 bs = of_nat (be_dec bs)"
definition get_be64 :: "bytes \<Rightarrow> u64" where "get_be64 bs = of_nat (be_dec bs)"
definition get_le16 :: "bytes \<Rightarrow> u16" where "get_le16 bs = of_nat (le_dec bs)"

lemma length_put [simp]:
  "length (put_be16 a) = 2" "length (put_be32 b) = 4" "length (put_be64 c) = 8"
  "length (put_le16 a) = 2"
  by (simp_all add: put_be16_def put_be32_def put_be64_def put_le16_def)

lemma get_put [simp, codec_simps]:
  "get_be16 (put_be16 a) = a" "get_be32 (put_be32 b) = b" "get_be64 (put_be64 c) = c"
  "get_le16 (put_le16 a) = a"
  using unsigned_less [of a, where ?'a = nat] unsigned_less [of b, where ?'a = nat] unsigned_less [of c, where ?'a = nat]
  by (simp_all add: get_be16_def put_be16_def get_be32_def put_be32_def get_be64_def
        put_be64_def get_le16_def put_le16_def be_dec_be_enc le_dec_le_enc)

text \<open>Reading a field of \<open>k\<close> bytes from the front of a \<^verbatim>\<open>bytes.Reader\<close>.\<close>

definition read_n :: "nat \<Rightarrow> bytes \<Rightarrow> (bytes \<times> bytes) option" where
  "read_n k bs = (if length bs < k then None else Some (take k bs, drop k bs))"

lemma read_n_append [simp, codec_simps]:
  "length xs = k \<Longrightarrow> read_n k (xs @ ys) = Some (xs, ys)"
  by (simp add: read_n_def)

lemma read_n_Some: "read_n k bs = Some (xs, ys) \<longleftrightarrow> bs = xs @ ys \<and> length xs = k"
  by (auto simp: read_n_def split: if_splits)

end
