(* ===== verification/Dir_Entry.thy ===== *)
theory Dir_Entry
  imports Razor_Prelude
begin

text \<open>
  The directory entry \<^verbatim>\<open>Dir\<close> of \<^verbatim>\<open>cache/dir.go\<close>: five 16-bit words that
  pack a 40-bit offset, an approximate size (2 + 6 bits), a 12-bit tag, four flag bits and a
  16-bit chain link. One definition per accessor; the lemmas give the get/set laws that the
  directory manager uses instead of the bit patterns.
\<close>

section \<open>Constants (\<^verbatim>\<open>cache/const.go\<close>)\<close>

definition SectorSize :: nat where "SectorSize = 512"
definition DirDataSizeLv0 :: nat where "DirDataSizeLv0 = 512"
definition DirDataSizeLv1 :: nat where "DirDataSizeLv1 = 4096"
definition DirDataSizeLv2 :: nat where "DirDataSizeLv2 = 32768"
definition DirDataSizeLv3 :: nat where "DirDataSizeLv3 = 262144"
definition DirMaxDataSize :: nat where "DirMaxDataSize = 16 * 1024 * 1024"
definition DirDepth :: nat where "DirDepth = 4"
definition MaxBucketsPerSegment :: nat where "MaxBucketsPerSegment = 16384"
definition TargetFragmentSize :: nat where "TargetFragmentSize = 1 * 1024 * 1024"

lemmas dir_consts = SectorSize_def DirDataSizeLv0_def DirDataSizeLv1_def DirDataSizeLv2_def
  DirDataSizeLv3_def DirMaxDataSize_def DirDepth_def MaxBucketsPerSegment_def

section \<open>The packed entry\<close>

record Dir =
  raw0 :: u16
  raw1 :: u16
  raw2 :: u16
  raw3 :: u16
  raw4 :: u16

definition dir_zero :: Dir where
  "dir_zero = \<lparr>raw0 = 0, raw1 = 0, raw2 = 0, raw3 = 0, raw4 = 0\<rparr>"

definition dir_clear :: "Dir \<Rightarrow> Dir" where
  "dir_clear d = d\<lparr>raw0 := 0, raw1 := 0, raw2 := 0, raw3 := 0, raw4 := 0\<rparr>"

definition dir_MarshalBinary :: "Dir \<Rightarrow> bytes" where
  "dir_MarshalBinary d =
     put_be16 (raw0 d) @ put_be16 (raw1 d) @ put_be16 (raw2 d) @ put_be16 (raw3 d) @ put_be16 (raw4 d)"

definition dir_UnmarshalBinary :: "bytes \<Rightarrow> Dir result" where
  "dir_UnmarshalBinary data =
     (case (do {
        (a, r) \<leftarrow> read_n 2 data;
        (b, r) \<leftarrow> read_n 2 r;
        (c, r) \<leftarrow> read_n 2 r;
        (d, r) \<leftarrow> read_n 2 r;
        (e, r) \<leftarrow> read_n 2 r;
        Some \<lparr>raw0 = get_be16 a, raw1 = get_be16 b, raw2 = get_be16 c, raw3 = get_be16 d, raw4 = get_be16 e\<rparr>
      }) of None \<Rightarrow> Inl ErrUnexpectedEOF | Some d \<Rightarrow> Inr d)"

definition dir_offset :: "Dir \<Rightarrow> u64" where
  "dir_offset d =
     ucast (raw0 d) OR push_bit 16 (ucast (raw1 d AND 0xff)) OR push_bit 24 (ucast (raw4 d))"

definition dir_setOffset :: "u64 \<Rightarrow> Dir \<Rightarrow> Dir" where
  "dir_setOffset off d = d\<lparr>raw0 := ucast off,
     raw1 := ucast ((drop_bit 16 off AND 0xff) OR (ucast (raw1 d) AND 0xff00)),
     raw4 := ucast (drop_bit 24 off)\<rparr>"

definition dir_bigInternal :: "Dir \<Rightarrow> u8" where
  "dir_bigInternal d = ucast (drop_bit 8 (raw1 d) AND 0x3)"

definition dir_setBigInternal :: "u8 \<Rightarrow> Dir \<Rightarrow> Dir" where
  "dir_setBigInternal big d = d\<lparr>raw1 := (raw1 d AND 0xfcff) OR push_bit 8 (ucast big)\<rparr>"

definition dir_sizeInternal :: "Dir \<Rightarrow> u8" where
  "dir_sizeInternal d = ucast (drop_bit 10 (raw1 d) AND 0x3f)"

definition dir_setSizeInternal :: "u8 \<Rightarrow> Dir \<Rightarrow> Dir" where
  "dir_setSizeInternal sz d = d\<lparr>raw1 := (raw1 d AND 0x83ff) OR push_bit 10 (ucast sz)\<rparr>"

text \<open>\<open>None\<close>: the explicit panic on a size above 16 MiB. A size of 0 wraps in \<open>sz - 1\<close>.\<close>

definition dir_setApproxSize :: "u64 \<Rightarrow> Dir \<Rightarrow> Dir option" where
  "dir_setApproxSize sz d =
     (if of_nat DirMaxDataSize < sz then None
      else if sz \<le> of_nat DirDataSizeLv0 then
        Some (dir_setSizeInternal (ucast ((sz - 1) div of_nat DirDataSizeLv0)) (dir_setBigInternal 0 d))
      else if sz \<le> of_nat DirDataSizeLv1 then
        Some (dir_setSizeInternal (ucast ((sz - 1) div of_nat DirDataSizeLv1)) (dir_setBigInternal 1 d))
      else if sz \<le> of_nat DirDataSizeLv2 then
        Some (dir_setSizeInternal (ucast ((sz - 1) div of_nat DirDataSizeLv2)) (dir_setBigInternal 2 d))
      else
        Some (dir_setSizeInternal (ucast ((sz - 1) div of_nat DirDataSizeLv3)) (dir_setBigInternal 3 d)))"

definition dir_approxSize :: "Dir \<Rightarrow> u64" where
  "dir_approxSize d =
     (let big = dir_bigInternal d; sz = dir_sizeInternal d
      in push_bit (unat (big * 3)) (of_nat SectorSize) * ucast (sz + 1))"

definition dir_prev :: "Dir \<Rightarrow> u16" where
  "dir_prev d = raw2 d"

definition dir_setPrev :: "u16 \<Rightarrow> Dir \<Rightarrow> Dir" where
  "dir_setPrev p d = d\<lparr>raw2 := p\<rparr>"

definition dir_tag :: "Dir \<Rightarrow> u16" where
  "dir_tag d = raw2 d AND 0xfff"

definition dir_setTag :: "u16 \<Rightarrow> Dir \<Rightarrow> Dir" where
  "dir_setTag t d = d\<lparr>raw2 := (raw2 d AND 0xf000) OR (t AND 0xfff)\<rparr>"

definition dir_phase :: "Dir \<Rightarrow> bool" where
  "dir_phase d \<longleftrightarrow> drop_bit 12 (raw2 d) AND 1 = 1"

definition dir_setPhase :: "bool \<Rightarrow> Dir \<Rightarrow> Dir" where
  "dir_setPhase ph d =
     (if ph then d\<lparr>raw2 := raw2 d OR push_bit 12 1\<rparr> else d\<lparr>raw2 := raw2 d AND NOT (push_bit 12 1)\<rparr>)"

definition dir_head :: "Dir \<Rightarrow> bool" where
  "dir_head d \<longleftrightarrow> drop_bit 13 (raw2 d) AND 1 = 1"

text \<open>The \<^verbatim>\<open>false\<close> branches of \<^verbatim>\<open>setHead\<close> and \<^verbatim>\<open>setPinned\<close> mask with
  the bit itself, not with its complement.\<close>

definition dir_setHead :: "bool \<Rightarrow> Dir \<Rightarrow> Dir" where
  "dir_setHead h d =
     (if h then d\<lparr>raw2 := raw2 d OR push_bit 13 1\<rparr> else d\<lparr>raw2 := raw2 d AND push_bit 13 1\<rparr>)"

definition dir_pinned :: "Dir \<Rightarrow> bool" where
  "dir_pinned d \<longleftrightarrow> drop_bit 14 (raw2 d) AND 1 = 1"

definition dir_setPinned :: "bool \<Rightarrow> Dir \<Rightarrow> Dir" where
  "dir_setPinned h d =
     (if h then d\<lparr>raw2 := raw2 d OR push_bit 14 1\<rparr> else d\<lparr>raw2 := raw2 d AND push_bit 14 1\<rparr>)"

definition dir_token :: "Dir \<Rightarrow> bool" where
  "dir_token d \<longleftrightarrow> drop_bit 15 (raw2 d) AND 1 = 1"

definition dir_setToken :: "bool \<Rightarrow> Dir \<Rightarrow> Dir" where
  "dir_setToken t d =
     (if t then d\<lparr>raw2 := raw2 d OR push_bit 15 1\<rparr> else d\<lparr>raw2 := raw2 d AND NOT (push_bit 15 1)\<rparr>)"

definition dir_next :: "Dir \<Rightarrow> u16" where
  "dir_next d = raw3 d"

definition dir_setNext :: "u16 \<Rightarrow> Dir \<Rightarrow> Dir" where
  "dir_setNext n d = d\<lparr>raw3 := n\<rparr>"

section \<open>Bit-level lemmas\<close>

lemma bit_masks [bit_simps]:
  "bit (255 :: int) n \<longleftrightarrow> n < 8"
  "bit (65280 :: int) n \<longleftrightarrow> 8 \<le> n \<and> n < 16"
  "bit (3 :: int) n \<longleftrightarrow> n < 2"
  "bit (63 :: int) n \<longleftrightarrow> n < 6"
  "bit (64767 :: int) n \<longleftrightarrow> n < 8 \<or> 10 \<le> n \<and> n < 16"
  "bit (33791 :: int) n \<longleftrightarrow> n < 10 \<or> n = 15"
  "bit (4095 :: int) n \<longleftrightarrow> n < 12"
  "bit (61440 :: int) n \<longleftrightarrow> 12 \<le> n \<and> n < 16"
proof -
  have m: "bit (mask k :: int) n \<longleftrightarrow> n < k" for k by (simp add: bit_mask_iff)
  have s: "bit (push_bit j (mask k) :: int) n \<longleftrightarrow> j \<le> n \<and> n < j + k" for j k
    by (auto simp: bit_push_bit_iff bit_mask_iff)
  have e: "(255 :: int) = mask 8" "(65280 :: int) = push_bit 8 (mask 8)" "(3 :: int) = mask 2"
    "(63 :: int) = mask 6" "(64767 :: int) = mask 8 OR push_bit 10 (mask 6)"
    "(33791 :: int) = mask 10 OR push_bit 15 (mask 1)" "(4095 :: int) = mask 12"
    "(61440 :: int) = push_bit 12 (mask 4)"
    by (simp_all add: mask_eq_exp_minus_1)
  show "bit (255 :: int) n \<longleftrightarrow> n < 8" unfolding e(1) by (rule m)
  show "bit (65280 :: int) n \<longleftrightarrow> 8 \<le> n \<and> n < 16" unfolding e(2) s by simp
  show "bit (3 :: int) n \<longleftrightarrow> n < 2" unfolding e(3) by (rule m)
  show "bit (63 :: int) n \<longleftrightarrow> n < 6" unfolding e(4) by (rule m)
  show "bit (64767 :: int) n \<longleftrightarrow> n < 8 \<or> 10 \<le> n \<and> n < 16"
    unfolding e(5) bit_or_iff m s by simp
  show "bit (33791 :: int) n \<longleftrightarrow> n < 10 \<or> n = 15"
    unfolding e(6) bit_or_iff m s by auto
  show "bit (4095 :: int) n \<longleftrightarrow> n < 12" unfolding e(7) by (rule m)
  show "bit (61440 :: int) n \<longleftrightarrow> 12 \<le> n \<and> n < 16" unfolding e(8) s by simp
qed

lemma offset_setOffset [simp]: "dir_offset (dir_setOffset off d) = take_bit 40 off"
proof (rule bit_word_eqI)
  fix n
  assume "n < LENGTH(64)"
  then show "bit (dir_offset (dir_setOffset off d)) n = bit (take_bit 40 off) n"
    by (cases "24 \<le> n"; cases "n < 16")
       (auto simp: dir_offset_def dir_setOffset_def bit_simps)
qed

lemma bit_flags [bit_simps]:
  "bit (4096 :: int) n \<longleftrightarrow> n = 12" "bit (8192 :: int) n \<longleftrightarrow> n = 13"
  "bit (16384 :: int) n \<longleftrightarrow> n = 14" "bit (32768 :: int) n \<longleftrightarrow> n = 15"
proof -
  have e: "(4096 :: int) = push_bit 12 1" "(8192 :: int) = push_bit 13 1"
    "(16384 :: int) = push_bit 14 1" "(32768 :: int) = push_bit 15 1"
    by simp_all
  have b: "bit (push_bit k 1 :: int) n \<longleftrightarrow> n = k" for k
    by (simp only: bit_push_bit_iff_int bit_1_iff) auto
  show "bit (4096 :: int) n \<longleftrightarrow> n = 12" "bit (8192 :: int) n \<longleftrightarrow> n = 13"
    "bit (16384 :: int) n \<longleftrightarrow> n = 14" "bit (32768 :: int) n \<longleftrightarrow> n = 15"
    unfolding e by (rule b)+
qed

lemma and_1_eq_1: "(w :: u16) AND 1 = 1 \<longleftrightarrow> bit w 0"
  by (simp add: and_one_eq odd_iff_mod_2_eq_one bit_0)

lemma flag_bits:
  "dir_phase d \<longleftrightarrow> bit (raw2 d) 12" "dir_head d \<longleftrightarrow> bit (raw2 d) 13"
  "dir_pinned d \<longleftrightarrow> bit (raw2 d) 14" "dir_token d \<longleftrightarrow> bit (raw2 d) 15"
  by (simp_all add: dir_phase_def dir_head_def dir_pinned_def dir_token_def and_1_eq_1 bit_simps)

text \<open>Every accessor as a predicate on bit positions.\<close>

lemma field_bits:
  "bit (dir_tag d) n \<longleftrightarrow> n < 12 \<and> bit (raw2 d) n"
  "bit (dir_bigInternal d) n \<longleftrightarrow> n < 2 \<and> bit (raw1 d) (8 + n)"
  "bit (dir_sizeInternal d) n \<longleftrightarrow> n < 6 \<and> bit (raw1 d) (10 + n)"
  "bit (raw2 (dir_setTag t d)) n \<longleftrightarrow> n < 12 \<and> bit t n \<or> 12 \<le> n \<and> bit (raw2 d) n"
  "bit (raw2 (dir_setPhase b d)) n \<longleftrightarrow> (if n = 12 then b else bit (raw2 d) n)"
  "bit (raw2 (dir_setToken b d)) n \<longleftrightarrow> (if n = 15 then b else bit (raw2 d) n)"
  "bit (raw2 (dir_setHead True d)) n \<longleftrightarrow> n = 13 \<or> bit (raw2 d) n"
  "bit (raw2 (dir_setHead False d)) n \<longleftrightarrow> n = 13 \<and> bit (raw2 d) n"
  "bit (raw2 (dir_setPinned True d)) n \<longleftrightarrow> n = 14 \<or> bit (raw2 d) n"
  "bit (raw2 (dir_setPinned False d)) n \<longleftrightarrow> n = 14 \<and> bit (raw2 d) n"
  "bit (raw1 (dir_setBigInternal big d)) n \<longleftrightarrow>
     n < 16 \<and> (bit (raw1 d) n \<and> (n < 8 \<or> 10 \<le> n) \<or> 8 \<le> n \<and> bit big (n - 8))"
  "bit (raw1 (dir_setSizeInternal s d)) n \<longleftrightarrow>
     n < 16 \<and> (bit (raw1 d) n \<and> (n < 10 \<or> n = 15) \<or> 10 \<le> n \<and> bit s (n - 10))"
  by (auto simp: dir_tag_def dir_bigInternal_def dir_sizeInternal_def dir_setTag_def
        dir_setPhase_def dir_setToken_def dir_setHead_def dir_setPinned_def
        dir_setBigInternal_def dir_setSizeInternal_def bit_simps dest: bit_imp_le_length)

lemma phase_setPhase [simp]: "dir_phase (dir_setPhase b d) = b"
  by (simp add: flag_bits field_bits)

lemma tag_setTag [simp]: "dir_tag (dir_setTag t d) = t AND 0xfff"
  by (rule bit_word_eqI) (auto simp: field_bits bit_simps)

lemma tag_setPhase [simp]: "dir_tag (dir_setPhase b d) = dir_tag d"
  by (rule bit_word_eqI) (auto simp: field_bits)

lemma big_after_sizes:
  assumes "b \<in> {0, 1, 2, 3}"
  shows "dir_bigInternal (dir_setSizeInternal s (dir_setBigInternal b d)) = b"
proof -
  have b: "bit b n \<Longrightarrow> n < 2" for n
    using assms by (auto simp: bit_simps bit_1_iff)
  show ?thesis
    by (rule bit_word_eqI) (auto simp: field_bits dest: b)
qed

lemma size_after_sizes:
  assumes "\<not> bit (raw1 d) 15" and "b \<in> {0, 1, 2, 3}"
  shows "dir_sizeInternal (dir_setSizeInternal s (dir_setBigInternal b d)) = s AND 0x3f"
proof -
  have b: "bit b n \<Longrightarrow> n < 2" for n
    using assms(2) by (auto simp: bit_simps bit_1_iff)
  have i: "10 + n = 15 \<longleftrightarrow> n = 5" for n :: nat by auto
  show ?thesis
    using assms(1)
    by (intro bit_word_eqI) (auto simp: field_bits bit_simps i dest: b)
qed

section \<open>Get and set laws\<close>

lemma zero_fields [simp]:
  "dir_offset dir_zero = 0" "dir_next dir_zero = 0" "dir_prev dir_zero = 0" "raw1 dir_zero = 0"
  by (simp_all add: dir_zero_def dir_offset_def dir_next_def dir_prev_def)

lemma clear_eq_zero [simp]: "dir_clear d = dir_zero"
  by (cases d) (simp add: dir_clear_def dir_zero_def)

lemma link_laws [simp]:
  "dir_next (dir_setNext n d) = n" "dir_prev (dir_setPrev p d) = p"
  "dir_next (dir_setPrev p d) = dir_next d" "dir_prev (dir_setNext n d) = dir_prev d"
  "dir_offset (dir_setNext n d) = dir_offset d" "dir_offset (dir_setPrev p d) = dir_offset d"
  "dir_tag (dir_setNext n d) = dir_tag d" "dir_phase (dir_setNext n d) = dir_phase d"
  "dir_approxSize (dir_setNext n d) = dir_approxSize d"
  "dir_approxSize (dir_setPrev n d) = dir_approxSize d"
  by (simp_all add: dir_setNext_def dir_setPrev_def dir_next_def dir_prev_def dir_offset_def
        dir_tag_def dir_phase_def dir_approxSize_def dir_bigInternal_def dir_sizeInternal_def)

lemma setApproxSize_Some_cases:
  assumes "dir_setApproxSize sz d = Some d'"
  obtains b s where "b \<in> {0, 1, 2, 3}" "d' = dir_setSizeInternal s (dir_setBigInternal b d)"
  using assms by (auto simp: dir_setApproxSize_def split: if_splits)

lemma size_setters_offset:
  assumes "b \<in> {0, 1, 2, 3}"
  shows "dir_offset (dir_setSizeInternal s (dir_setBigInternal b d)) = dir_offset d"
proof -
  have "raw1 (dir_setSizeInternal s (dir_setBigInternal b d)) AND 0xff = raw1 d AND 0xff"
    by (rule bit_word_eqI) (auto simp: field_bits bit_simps)
  then show ?thesis
    by (simp add: dir_offset_def dir_setSizeInternal_def dir_setBigInternal_def)
qed

lemma setApproxSize_frame:
  assumes "dir_setApproxSize sz d = Some d'"
  shows "dir_offset d' = dir_offset d" "raw2 d' = raw2 d" "raw3 d' = raw3 d"
proof -
  obtain b s where b: "b \<in> {0, 1, 2, 3}" and d': "d' = dir_setSizeInternal s (dir_setBigInternal b d)"
    using assms by (rule setApproxSize_Some_cases)
  show "dir_offset d' = dir_offset d" unfolding d' by (rule size_setters_offset [OF b])
  show "raw2 d' = raw2 d" "raw3 d' = raw3 d"
    by (simp_all add: d' dir_setSizeInternal_def dir_setBigInternal_def)
qed

lemma flag_setters_frame [simp]:
  "raw3 (dir_setPhase a d) = raw3 d" "raw3 (dir_setHead b d) = raw3 d" "raw3 (dir_setTag t d) = raw3 d"
  "dir_offset (dir_setPhase a d) = dir_offset d" "dir_offset (dir_setHead b d) = dir_offset d"
  "dir_offset (dir_setTag t d) = dir_offset d"
  "dir_approxSize (dir_setPhase a d) = dir_approxSize d"
  "dir_approxSize (dir_setHead b d) = dir_approxSize d"
  "dir_approxSize (dir_setTag t d) = dir_approxSize d"
  by (simp_all add: dir_setPhase_def dir_setHead_def dir_setTag_def dir_offset_def
        dir_approxSize_def dir_bigInternal_def dir_sizeInternal_def)

section \<open>Properties\<close>

text \<open>The 40-bit offset survives packing: whatever the entry held before,
  \<^verbatim>\<open>setOffset\<close> followed by \<^verbatim>\<open>offset\<close> returns the value, for every offset
  below 2^40 (1 TiB), and exactly its low 40 bits beyond.\<close>

theorem dir_offset_roundtrip:
  "dir_offset (dir_setOffset off d) = take_bit 40 off \<and>
   (unat off < 2 ^ 40 \<longrightarrow> dir_offset (dir_setOffset off d) = off)"
proof -
  have "unat off < 2 ^ 40 \<Longrightarrow> take_bit 40 off = off"
    by (rule word_unat_eq_iff [THEN iffD2]) (simp add: unsigned_take_bit_eq take_bit_nat_eq_self)
  then show ?thesis by simp
qed

theorem dir_offset_roundtrip_witness:
  "unat (0x123456789a :: u64) < 2 ^ 40 \<and>
   dir_offset (dir_setOffset 0x123456789a dir_zero) = 0x123456789a"
  using dir_offset_roundtrip [of "0x123456789a" dir_zero] by simp

lemma approxSize_of:
  assumes "b \<in> {0, 1, 2, 3}" and "\<not> bit (raw1 d) 15"
  shows "dir_approxSize (dir_setSizeInternal s (dir_setBigInternal b d)) =
    push_bit (unat (b * 3)) 512 * ucast ((s AND 0x3f) + 1)"
  using assms by (simp add: dir_approxSize_def big_after_sizes size_after_sizes Let_def SectorSize_def)

lemma unat_quotient:
  assumes "0 < unat (sz :: u64)" and "0 < L" and "L < 2 ^ 64"
  shows "unat ((sz - 1) div of_nat L) = (unat sz - 1) div L"
proof -
  have "1 \<le> sz" using assms(1) by (simp add: word_le_nat_alt)
  then have "unat (sz - 1) = unat sz - 1" by (simp add: unat_sub)
  moreover have "unat (of_nat L :: u64) = L" using assms(3) by (simp add: unat_of_nat)
  ultimately show ?thesis by (simp add: unat_div)
qed

lemma setApproxSize_value:
  assumes s: "0 < unat sz" "unat sz \<le> DirMaxDataSize" and d: "\<not> bit (raw1 d) 15"
  shows "\<exists>d'. dir_setApproxSize sz d = Some d' \<and>
    unat (dir_approxSize d') =
      (if unat sz \<le> 512 then 512 else if unat sz \<le> 4096 then 4096 else if unat sz \<le> 32768 then 32768
       else 262144 * ((unat sz - 1) div 262144 + 1))"
proof -
  have q: "unat ((sz - 1) div of_nat L) = (unat sz - 1) div L" if "0 < L" "L < 2 ^ 64" for L
    using s(1) that by (rule unat_quotient)
  have z: "ucast ((sz - 1) div of_nat L) = (0 :: u8)" if "0 < L" "L < 2 ^ 64" "unat sz \<le> L" for L
  proof -
    have "unat ((sz - 1) div of_nat L) = 0" using s(1) that by (simp add: q)
    then show ?thesis by (simp add: unat_eq_zero)
  qed
  have c: "of_nat DirMaxDataSize < sz \<longleftrightarrow> False" "sz \<le> of_nat DirDataSizeLv0 \<longleftrightarrow> unat sz \<le> 512"
    "sz \<le> of_nat DirDataSizeLv1 \<longleftrightarrow> unat sz \<le> 4096" "sz \<le> of_nat DirDataSizeLv2 \<longleftrightarrow> unat sz \<le> 32768"
    using s(2) by (simp_all add: dir_consts word_le_nat_alt word_less_nat_alt)
  consider "unat sz \<le> 512" | "512 < unat sz" "unat sz \<le> 4096" | "4096 < unat sz" "unat sz \<le> 32768"
    | "32768 < unat sz" by linarith
  then show ?thesis
  proof cases
    case 1
    with d z [of 512] show ?thesis
      by (simp add: dir_setApproxSize_def c approxSize_of) (simp add: dir_consts)
  next
    case 2
    with d z [of 4096] show ?thesis
      by (simp add: dir_setApproxSize_def c approxSize_of) (simp add: dir_consts)
  next
    case 3
    with d z [of 32768] show ?thesis
      by (simp add: dir_setApproxSize_def c approxSize_of) (simp add: dir_consts)
  next
    case 4
    let ?s = "ucast ((sz - 1) div of_nat DirDataSizeLv3) :: u8"
    have m: "(unat sz - 1) div 262144 < 64" using s(2) by (simp add: dir_consts)
    have "unat ?s = (unat sz - 1) div 262144"
      using m q [of 262144] by (simp add: unsigned_ucast_eq take_bit_eq_mod dir_consts)
    moreover have "?s AND 0x3f = take_bit 6 ?s"
      by (simp add: take_bit_eq_mask mask_eq_exp_minus_1)
    ultimately have "unat (?s AND 0x3f) = (unat sz - 1) div 262144"
      using m by (simp add: take_bit_eq_mod unat_mod)
    with m have "unat (ucast ((?s AND 0x3f) + 1) :: u64) = (unat sz - 1) div 262144 + 1"
      by (simp add: unsigned_ucast_eq take_bit_eq_mod unat_word_ariths)
    with m have "unat (262144 * ucast ((?s AND 0x3f) + 1) :: u64) = 262144 * ((unat sz - 1) div 262144 + 1)"
      by (simp add: unat_word_ariths)
    with 4 d show ?thesis
      by (simp add: dir_setApproxSize_def c approxSize_of)
  qed
qed

lemma approxSize_bounds:
  assumes "\<not> bit (raw1 d) 15" "0 < unat sz" "unat sz \<le> DirMaxDataSize"
  shows "\<exists>d'. dir_setApproxSize sz d = Some d' \<and> unat sz \<le> unat (dir_approxSize d') \<and>
    unat (dir_approxSize d') < unat sz + DirDataSizeLv3"
proof -
  obtain d' where d': "dir_setApproxSize sz d = Some d'" and v: "unat (dir_approxSize d') =
      (if unat sz \<le> 512 then 512 else if unat sz \<le> 4096 then 4096 else if unat sz \<le> 32768 then 32768
       else 262144 * ((unat sz - 1) div 262144 + 1))"
    using setApproxSize_value assms by blast
  have r: "262144 * ((unat sz - 1) div 262144) + (unat sz - 1) mod 262144 = unat sz - 1"
    "(unat sz - 1) mod 262144 < 262144"
    by simp_all
  have "unat sz \<le> 262144 * ((unat sz - 1) div 262144 + 1)"
    using assms(2) r unfolding distrib_left by linarith
  moreover have "262144 * ((unat sz - 1) div 262144 + 1) < unat sz + 262144"
    using assms(2) r unfolding distrib_left by linarith
  ultimately show ?thesis
    using d' v assms(2) by (auto simp: DirDataSizeLv3_def)
qed

text \<open>The recorded size is never below the real one: for every size the cache writes
  (1 byte to 16 MiB), \<^verbatim>\<open>setApproxSize\<close> on an entry whose size field is clear does not
  panic and \<^verbatim>\<open>approxSize\<close> then covers the record, exceeding it by less than 256 KiB.
  Above 16 MiB it panics.\<close>

theorem dir_approxSize_covers:
  assumes "\<not> bit (raw1 d) 15"
  shows "(0 < unat sz \<and> unat sz \<le> DirMaxDataSize \<longrightarrow>
     (\<exists>d'. dir_setApproxSize sz d = Some d' \<and> unat sz \<le> unat (dir_approxSize d') \<and>
        unat (dir_approxSize d') < unat sz + DirDataSizeLv3)) \<and>
    (DirMaxDataSize < unat sz \<longrightarrow> dir_setApproxSize sz d = None)"
  using approxSize_bounds [OF assms] by (auto simp: dir_setApproxSize_def word_less_nat_alt dir_consts)

theorem dir_approxSize_covers_witness:
  "\<not> bit (raw1 dir_zero) 15 \<and>
   (\<exists>d'. dir_setApproxSize 1000000 dir_zero = Some d' \<and> 1000000 \<le> unat (dir_approxSize d') \<and>
        unat (dir_approxSize d') < 1000000 + DirDataSizeLv3)"
  using dir_approxSize_covers [of dir_zero 1000000] by (simp add: DirMaxDataSize_def)

text \<open>An entry is restored exactly from its ten serialized bytes, and decoding a shorter
  buffer is an error.\<close>

theorem dir_marshal_roundtrip:
  "dir_UnmarshalBinary (dir_MarshalBinary d @ rest) = Inr d \<and>
   length (dir_MarshalBinary d) = 10 \<and>
   (length data < 10 \<longrightarrow> dir_UnmarshalBinary data = Inl ErrUnexpectedEOF)"
proof (intro conjI impI)
  show "dir_UnmarshalBinary (dir_MarshalBinary d @ rest) = Inr d"
    by (simp add: dir_UnmarshalBinary_def dir_MarshalBinary_def)
  show "length (dir_MarshalBinary d) = 10"
    by (simp add: dir_MarshalBinary_def)
  assume "length data < 10"
  then show "dir_UnmarshalBinary data = Inl ErrUnexpectedEOF"
    by (auto simp: dir_UnmarshalBinary_def read_n_def)
qed

theorem dir_marshal_roundtrip_witness:
  "dir_UnmarshalBinary [1, 2, 3] = Inl ErrUnexpectedEOF \<and>
   dir_UnmarshalBinary (dir_MarshalBinary dir_zero @ [7]) = Inr dir_zero"
  using dir_marshal_roundtrip [of dir_zero "[7]" "[1, 2, 3]"] by simp


end
