(* ===== verification/Dir_Segment.thy ===== *)
theory Dir_Segment
  imports Dir_Entry
begin

text \<open>
  One segment of the directory of \<^verbatim>\<open>cache/dir_manager.go\<close>: a slice of entries grouped in
  buckets of four, the head of its free chain and the identities of its slots. Bucket \<open>b\<close> starts
  at slot \<open>4 * b\<close> and continues through the \<^verbatim>\<open>next\<close> links; the slots that are
  not bucket heads and hold no entry are threaded on a doubly linked free chain that starts at
  \<^verbatim>\<open>DirFreeStart\<close>. A panic of the code, an index out of range included, is \<open>None\<close>.
\<close>

type_synonym ident = bytes

record Segment =
  sg_dirs :: "Dir list"
  sg_free :: u16
  sg_ids :: "ident list"

definition zero_ident :: ident where "zero_ident = replicate 16 0"

definition idx :: "'a list \<Rightarrow> nat \<Rightarrow> 'a option" where
  "idx xs i = (if i < length xs then Some (xs ! i) else None)"

definition modify :: "'a list \<Rightarrow> nat \<Rightarrow> ('a \<Rightarrow> 'a) \<Rightarrow> 'a list option" where
  "modify xs i f = (if i < length xs then Some (xs[i := f (xs ! i)]) else None)"

definition sg_buckets :: "Segment \<Rightarrow> nat" where
  "sg_buckets sg = length (sg_dirs sg) div DirDepth"

section \<open>linkEmptyDirs\<close>

definition link_next_bucket :: "nat \<Rightarrow> nat \<Rightarrow> Dir list \<Rightarrow> Dir list" where
  "link_next_bucket buckets bucket dirs =
     (let dirs = fold (\<lambda>depth ds. let off = bucket * DirDepth + depth
                        in ds[off := dir_setNext (of_nat (off + 1)) (ds ! off)]) [1..<DirDepth - 1] dirs
      in if bucket \<noteq> buckets - 1
         then let off = bucket * DirDepth + DirDepth - 1 in dirs[off := dir_setNext (of_nat (off + 2)) (dirs ! off)]
         else dirs)"

definition link_prev_bucket :: "nat \<Rightarrow> Dir list \<Rightarrow> Dir list" where
  "link_prev_bucket bucket dirs =
     (let dirs = fold (\<lambda>depth ds. let off = bucket * DirDepth + depth
                        in ds[off := dir_setPrev (of_nat (off - 1)) (ds ! off)]) (rev [2..<DirDepth]) dirs
      in if bucket \<noteq> 0
         then let off = bucket * DirDepth + 1 in
           if off \<noteq> 1 then dirs[off := dir_setPrev (of_nat (off - 2)) (dirs ! off)] else dirs
         else dirs)"

definition linkEmptyDirs :: "Dir list \<Rightarrow> Dir list result" where
  "linkEmptyDirs dirs =
     (if length dirs mod DirDepth \<noteq> 0 then Inl (Err ''dirs length should be multiple of DirDepth'')
      else let buckets = length dirs div DirDepth;
               dirs = fold (link_next_bucket buckets) [0..<buckets] dirs;
               dirs = fold link_prev_bucket [0..<buckets] dirs
           in Inr dirs)"

section \<open>The free chain\<close>

definition freeChainDelete :: "Dir list \<Rightarrow> nat \<Rightarrow> (Dir list \<times> bool \<times> u16) option" where
  "freeChainDelete dirs dirOffset = do {
     d \<leftarrow> idx dirs dirOffset;
     if dir_offset d \<noteq> 0 then None
     else do {
       let prev = dir_prev d;
       (dirs, isFirst, freeListHead) \<leftarrow>
         (if prev = 0 then Some (dirs, True, dir_next d)
          else do { dirs \<leftarrow> modify dirs (unat prev) (dir_setNext (dir_next d)); Some (dirs, False, 0) });
       d \<leftarrow> idx dirs dirOffset;
       dirs \<leftarrow> (if dir_next d \<noteq> 0 then modify dirs (unat (dir_next d)) (dir_setPrev prev) else Some dirs);
       Some (dirs, isFirst, freeListHead)
     }
   }"

definition dm_freeChainDelete :: "Segment \<Rightarrow> nat \<Rightarrow> Segment option" where
  "dm_freeChainDelete sg dirOffset = do {
     (dirs, isFirst, nxt) \<leftarrow> freeChainDelete (sg_dirs sg) dirOffset;
     Some (sg\<lparr>sg_dirs := dirs, sg_free := (if isFirst then nxt else sg_free sg)\<rparr>)
   }"

definition dm_freeChainSet :: "Segment \<Rightarrow> nat \<Rightarrow> Segment option" where
  "dm_freeChainSet sg dirOffset = do {
     d \<leftarrow> idx (sg_dirs sg) dirOffset;
     if dir_offset d \<noteq> 0 then None
     else do {
       let index = sg_free sg;
       dirs \<leftarrow> modify (sg_dirs sg) (unat index) (dir_setPrev (of_nat dirOffset));
       dirs \<leftarrow> modify dirs dirOffset (dir_setNext index);
       Some (sg\<lparr>sg_dirs := dirs, sg_free := of_nat dirOffset\<rparr>)
     }
   }"

text \<open>The slots the rebuild visits: every slot but the bucket heads, in order.\<close>

definition slot_order :: "nat \<Rightarrow> nat list" where
  "slot_order buckets = concat (map (\<lambda>b. map (\<lambda>j. b * DirDepth + j) [1..<DirDepth]) [0..<buckets])"

record rebuild =
  rb_dirs :: "Dir list"
  rb_free :: u16
  rb_prev :: nat
  rb_counter :: nat

definition rebuild_step :: "nat \<Rightarrow> rebuild \<Rightarrow> rebuild" where
  "rebuild_step i r =
     (if dir_offset (rb_dirs r ! i) = 0 then
        let free = (if rb_free r = 0 then of_nat i else rb_free r);
            dirs = (rb_dirs r)[i := dir_setPrev (of_nat (rb_prev r)) (dir_clear (rb_dirs r ! i))];
            dirs = (if rb_prev r \<noteq> 0
                    then dirs[rb_prev r := dir_setNext (of_nat i) (dirs ! rb_prev r)] else dirs)
        in \<lparr>rb_dirs = dirs, rb_free = free, rb_prev = i, rb_counter = rb_counter r + 1\<rparr>
      else r)"

definition freeChainRebuild :: "Segment \<Rightarrow> Segment \<times> nat" where
  "freeChainRebuild sg =
     (let r = fold rebuild_step (slot_order (sg_buckets sg))
                \<lparr>rb_dirs = sg_dirs sg, rb_free = 0, rb_prev = 0, rb_counter = 0\<rparr>
      in (sg\<lparr>sg_dirs := rb_dirs r, sg_free := rb_free r\<rparr>, rb_counter r))"

section \<open>Purging\<close>

function purgeBucket :: "Dir list \<Rightarrow> nat \<Rightarrow> nat \<Rightarrow> nat \<Rightarrow> (Dir list \<times> nat) option" where
  "purgeBucket dirs index c counter =
     (if index \<noteq> 0 \<or> c = 0 then
        if index < length dirs then
          purgeBucket (dirs[index := dir_clear (dirs ! index)]) (unat (dir_next (dirs ! index))) (c + 1) (counter + 1)
        else None
      else Some (dirs, counter))"
  by pat_completeness auto

lemma filter_update_length:
  assumes "i < length xs"
  shows "length (filter P (xs[i := y])) + (if P (xs ! i) then 1 else 0) =
    length (filter P xs) + (if P y then 1 else 0)"
proof -
  let ?a = "take i xs" and ?b = "drop (Suc i) xs"
  have "length (filter P xs) = length (filter P (?a @ xs ! i # ?b))"
    using id_take_nth_drop [OF assms] by simp
  moreover have "xs[i := y] = ?a @ y # ?b" using assms by (rule upd_conv_take_nth_drop)
  ultimately show ?thesis by simp
qed

termination purgeBucket
proof (relation "measure (\<lambda>(dirs, index, c, counter).
    (if index \<noteq> 0 \<or> c = (0::nat) then 1 else 0) + length (filter (\<lambda>d. dir_next d \<noteq> 0) dirs))", goal_cases)
  case 1
  show ?case by simp
next
  case (2 dirs index c counter)
  then show ?case
    using filter_update_length [of index dirs "\<lambda>d. dir_next d \<noteq> 0" dir_zero]
    by (auto simp: unat_eq_zero split: if_splits)
qed

declare purgeBucket.simps [simp del]

primrec purgeBuckets :: "nat list \<Rightarrow> Dir list \<Rightarrow> nat \<Rightarrow> (Dir list \<times> nat) option" where
  "purgeBuckets [] dirs counter = Some (dirs, counter)"
| "purgeBuckets (i # is) dirs counter = do {
     (dirs, counter) \<leftarrow> purgeBucket dirs (i * DirDepth) 0 counter;
     purgeBuckets is dirs counter
   }"

definition purge_then_rebuild :: "nat list \<Rightarrow> Segment \<Rightarrow> (Segment \<times> nat) option" where
  "purge_then_rebuild is sg = do {
     (dirs, counter) \<leftarrow> purgeBuckets is (sg_dirs sg) 0;
     Some (fst (freeChainRebuild (sg\<lparr>sg_dirs := dirs\<rparr>)), counter)
   }"

text \<open>\<open>randomIndex\<close> is the value \<^verbatim>\<open>rand.Intn\<close> returned.\<close>

definition purgeRandom10 :: "nat \<Rightarrow> nat \<Rightarrow> Segment \<Rightarrow> (Segment \<times> nat) option" where
  "purgeRandom10 randomIndex whileListBucketId sg =
     purge_then_rebuild
       (filter (\<lambda>i. \<not> (sg_buckets sg > 10 \<and> i mod 10 \<noteq> randomIndex) \<and> i \<noteq> whileListBucketId) [0..<sg_buckets sg]) sg"

definition purgeRandom33 :: "nat \<Rightarrow> nat \<Rightarrow> Segment \<Rightarrow> (Segment \<times> nat) option" where
  "purgeRandom33 randomIndex whileListBucketId sg =
     purge_then_rebuild
       (filter (\<lambda>i. \<not> (sg_buckets sg > 3 \<and> i mod 3 \<noteq> randomIndex) \<and> i \<noteq> whileListBucketId) [0..<sg_buckets sg]) sg"

definition purgeRandom100 :: "nat \<Rightarrow> Segment \<Rightarrow> (Segment \<times> nat) option" where
  "purgeRandom100 whileListBucketId sg =
     purge_then_rebuild (filter (\<lambda>i. i \<noteq> whileListBucketId) [0..<sg_buckets sg]) sg"

section \<open>Allocating a slot\<close>

text \<open>The pop at the end of \<^verbatim>\<open>freeChainPop\<close>.\<close>

definition pop_first :: "Segment \<Rightarrow> (Segment \<times> nat) option" where
  "pop_first sg = do {
     let freeDirOffset = unat (sg_free sg);
     sg \<leftarrow> dm_freeChainDelete sg freeDirOffset;
     Some (sg, freeDirOffset)
   }"

function freeChainPop :: "(nat \<Rightarrow> nat) \<Rightarrow> nat \<Rightarrow> nat \<Rightarrow> Segment \<Rightarrow> (Segment \<times> nat) option" where
  "freeChainPop rnd whileListBucketId loop sg =
     (let loop = loop + 1 in
      do {
        sg \<leftarrow> (if loop > 49 then map_option fst (purgeRandom100 whileListBucketId sg) else Some sg);
        if loop > 50 then None
        else if sg_free sg = 0 then
          (let (sg, foundFreeDir) = freeChainRebuild sg in
           if foundFreeDir = 0 then do {
             (sg, _) \<leftarrow> purgeRandom10 (rnd loop) whileListBucketId sg;
             freeChainPop rnd whileListBucketId loop sg
           }
           else pop_first sg)
        else pop_first sg
      })"
  by pat_completeness auto

termination
  by (relation "measure (\<lambda>(rnd, w, loop, sg). 51 - loop)") auto

declare freeChainPop.simps [simp del]

definition getFreeDir :: "(nat \<Rightarrow> nat) \<Rightarrow> nat \<Rightarrow> Segment \<Rightarrow> (Segment \<times> bool \<times> nat) option" where
  "getFreeDir rnd bucketId sg = do {
     let index = bucketId * DirDepth;
     d \<leftarrow> idx (sg_dirs sg) index;
     if dir_offset d = 0 then Some (sg, True, index)
     else (case find (\<lambda>i. dir_offset (sg_dirs sg ! (index + i)) = 0) [1..<DirDepth] of
       Some i \<Rightarrow> do { sg \<leftarrow> dm_freeChainDelete sg (index + i); Some (sg, True, index + i) }
     | None \<Rightarrow> do { (sg, f) \<leftarrow> freeChainPop rnd bucketId 0 sg; Some (sg, False, f) })
   }"

section \<open>Probe, insert, delete\<close>

function probe_loop :: "u16 \<Rightarrow> Dir list \<Rightarrow> nat \<Rightarrow> nat \<Rightarrow> nat \<Rightarrow> bool \<times> nat \<times> nat \<times> Dir" where
  "probe_loop key dirs index prevIndex counter =
     (if index \<noteq> 0 \<or> counter = 0 then
        if counter + 1 > length dirs \<or> index \<ge> length dirs then (False, 0, 0, dir_zero)
        else if dir_offset (dirs ! index) = 0 then (False, index, prevIndex, dir_zero)
        else if dir_tag (dirs ! index) = key then (True, index, prevIndex, dirs ! index)
        else probe_loop key dirs (unat (dir_next (dirs ! index))) index (counter + 1)
      else (False, index, prevIndex, dir_zero))"
  by pat_completeness auto

termination
  by (relation "measure (\<lambda>(key, dirs, index, prevIndex, counter). length dirs + 1 - counter)") auto

declare probe_loop.simps [simp del]

definition dirProbe :: "u16 \<Rightarrow> nat \<Rightarrow> Dir list \<Rightarrow> bool \<times> nat \<times> nat \<times> Dir" where
  "dirProbe key bucketId dirs = probe_loop key dirs (bucketId * DirDepth) 0 0"

text \<open>The walk to the end of a bucket's chain; \<open>None\<close> when it leaves the segment or never ends.\<close>

partial_function (option) lastDirOfBucket :: "Dir list \<Rightarrow> nat \<Rightarrow> nat option" where
  "lastDirOfBucket dirs i =
     (if i < length dirs then
        if dir_next (dirs ! i) \<noteq> 0 then lastDirOfBucket dirs (unat (dir_next (dirs ! i))) else Some i
      else None)"

definition dirInsert :: "(nat \<Rightarrow> nat) \<Rightarrow> u16 \<Rightarrow> nat \<Rightarrow> Dir \<Rightarrow> Segment \<Rightarrow> (Segment \<times> nat) option" where
  "dirInsert rnd key bucketId dir sg =
     (let (hit, dirOffset, _, _) = dirProbe key bucketId (sg_dirs sg) in
      if hit then
        let nxt = dir_next (sg_dirs sg ! dirOffset) in
        Some (sg\<lparr>sg_dirs := (sg_dirs sg)[dirOffset := dir_setNext nxt dir]\<rparr>, dirOffset)
      else do {
        (sg, _, freeDirOffset) \<leftarrow> getFreeDir rnd bucketId sg;
        dirs \<leftarrow> modify (sg_dirs sg) freeDirOffset (\<lambda>_. dir);
        dirs \<leftarrow> (if freeDirOffset \<noteq> bucketId * DirDepth then do {
                   l \<leftarrow> lastDirOfBucket dirs (bucketId * DirDepth);
                   modify dirs l (dir_setNext (of_nat freeDirOffset))
                 } else Some dirs);
        Some (sg\<lparr>sg_dirs := dirs\<rparr>, freeDirOffset)
      })"

definition dirDelete :: "u16 \<Rightarrow> nat \<Rightarrow> Segment \<Rightarrow> (Segment \<times> nat) option" where
  "dirDelete key bucketId sg =
     (let dirs = sg_dirs sg; (hit, dirOffset, prevDirOffset, _) = dirProbe key bucketId dirs in
      if \<not> hit then Some (sg, dirOffset)
      else
        let ids = (sg_ids sg)[dirOffset := zero_ident] in
        if dirOffset = bucketId * DirDepth then
          let nxt = unat (dir_next (dirs ! dirOffset)) in
          if nxt \<noteq> 0 then do {
            d \<leftarrow> idx dirs nxt;
            let dirs = dirs[dirOffset := d];
            let ids = ids[dirOffset := ids ! nxt];
            let ids = ids[nxt := zero_ident];
            let dirs = dirs[nxt := dir_clear (dirs ! nxt)];
            sg \<leftarrow> dm_freeChainSet (sg\<lparr>sg_dirs := dirs, sg_ids := ids\<rparr>) nxt;
            Some (sg, dirOffset)
          }
          else Some (sg\<lparr>sg_dirs := dirs[dirOffset := dir_clear (dirs ! dirOffset)], sg_ids := ids\<rparr>, dirOffset)
        else do {
          let nxt = dir_next (dirs ! dirOffset);
          dirs \<leftarrow> modify dirs prevDirOffset (dir_setNext nxt);
          let dirs = dirs[dirOffset := dir_clear (dirs ! dirOffset)];
          sg \<leftarrow> dm_freeChainSet (sg\<lparr>sg_dirs := dirs, sg_ids := ids\<rparr>) dirOffset;
          Some (sg, dirOffset)
        })"

end
