(* ===== verification/Dir_Chain.thy ===== *)
theory Dir_Chain
  imports Dir_Segment
begin

text \<open>
  The shape of a segment and the operations on its chains. \<open>lseg\<close> and \<open>bseg\<close> read a list of
  slots off the \<^verbatim>\<open>next\<close> and \<^verbatim>\<open>prev\<close> links; \<open>seg_inv\<close> says that every bucket is such
  a list of used slots, that the free chain is a doubly linked list of unused ones, and that no
  slot is in two of them or in none.
\<close>

section \<open>Chains\<close>

definition nx :: "Dir list \<Rightarrow> nat \<Rightarrow> nat" where "nx ds i = unat (dir_next (ds ! i))"
definition pv :: "Dir list \<Rightarrow> nat \<Rightarrow> nat" where "pv ds i = unat (dir_prev (ds ! i))"
definition used :: "Dir list \<Rightarrow> nat \<Rightarrow> bool" where "used ds i \<longleftrightarrow> dir_offset (ds ! i) \<noteq> 0"

primrec lseg :: "Dir list \<Rightarrow> nat \<Rightarrow> nat list \<Rightarrow> nat \<Rightarrow> bool" where
  "lseg ds i [] j \<longleftrightarrow> i = j"
| "lseg ds i (x # xs) j \<longleftrightarrow> i = x \<and> x < length ds \<and> lseg ds (nx ds x) xs j"

primrec bseg :: "Dir list \<Rightarrow> nat \<Rightarrow> nat list \<Rightarrow> bool" where
  "bseg ds p [] \<longleftrightarrow> True"
| "bseg ds p (x # xs) \<longleftrightarrow> pv ds x = p \<and> bseg ds x xs"

lemma lseg_append: "lseg ds i (xs @ ys) j \<longleftrightarrow> (\<exists>k. lseg ds i xs k \<and> lseg ds k ys j)"
  by (induction xs arbitrary: i) auto

lemma bseg_append: "bseg ds p (xs @ ys) \<longleftrightarrow> bseg ds p xs \<and> bseg ds (last (p # xs)) ys"
  by (induction xs arbitrary: p) auto

lemma lseg_bound: "lseg ds i xs j \<Longrightarrow> x \<in> set xs \<Longrightarrow> x < length ds"
  by (induction xs arbitrary: i) auto

lemma lseg_hd: "lseg ds i xs j \<Longrightarrow> xs \<noteq> [] \<Longrightarrow> hd xs = i"
  by (cases xs) auto

lemma lseg_end_unique: "lseg ds i xs j \<Longrightarrow> lseg ds i xs k \<Longrightarrow> j = k"
  by (induction xs arbitrary: i) auto

lemma lseg_cong:
  assumes "length ds' = length ds" and "\<And>x. x \<in> set xs \<Longrightarrow> nx ds' x = nx ds x"
  shows "lseg ds' i xs j = lseg ds i xs j"
  using assms(2) by (induction xs arbitrary: i) (auto simp: assms(1))

lemma bseg_cong:
  assumes "\<And>x. x \<in> set xs \<Longrightarrow> pv ds' x = pv ds x"
  shows "bseg ds' p xs = bseg ds p xs"
  using assms by (induction xs arbitrary: p) auto

lemma nx_update: "i < length ds \<Longrightarrow> nx (ds[i := d]) k = (if k = i then unat (dir_next d) else nx ds k)"
  by (simp add: nx_def nth_list_update)

lemma pv_update: "i < length ds \<Longrightarrow> pv (ds[i := d]) k = (if k = i then unat (dir_prev d) else pv ds k)"
  by (simp add: pv_def nth_list_update)

lemma used_update: "i < length ds \<Longrightarrow> used (ds[i := d]) k = (if k = i then dir_offset d \<noteq> 0 else used ds k)"
  by (simp add: used_def nth_list_update)

section \<open>The segment invariant\<close>

definition bucket_ok :: "Dir list \<Rightarrow> nat \<Rightarrow> nat list \<Rightarrow> bool" where
  "bucket_ok ds b xs \<longleftrightarrow>
     (if xs = [] then \<not> used ds (4 * b) \<and> nx ds (4 * b) = 0 else lseg ds (4 * b) xs 0) \<and>
     distinct xs \<and> (\<forall>x\<in>set xs. used ds x) \<and> (\<forall>x\<in>set (tl xs). x mod 4 \<noteq> 0)"

definition free_ok :: "Dir list \<Rightarrow> nat \<Rightarrow> nat list \<Rightarrow> bool" where
  "free_ok ds f F \<longleftrightarrow> lseg ds f F 0 \<and> bseg ds 0 F \<and> distinct F \<and>
     (\<forall>x\<in>set F. x mod 4 \<noteq> 0 \<and> \<not> used ds x)"

definition buckets_ok :: "Dir list \<Rightarrow> (nat \<Rightarrow> nat list) \<Rightarrow> bool" where
  "buckets_ok ds C \<longleftrightarrow>
     4 dvd length ds \<and> length ds \<le> 65536 \<and>
     (\<forall>b<length ds div 4. bucket_ok ds b (C b)) \<and>
     (\<forall>b<length ds div 4. \<forall>b'<length ds div 4. b \<noteq> b' \<longrightarrow> set (C b) \<inter> set (C b') = {}) \<and>
     (\<forall>i<length ds. used ds i \<longrightarrow> (\<exists>b<length ds div 4. i \<in> set (C b)))"

text \<open>\<open>L\<close>: slots taken from the free chain and not yet linked into a bucket.\<close>

definition seg_inv :: "Dir list \<Rightarrow> nat \<Rightarrow> (nat \<Rightarrow> nat list) \<Rightarrow> nat list \<Rightarrow> nat set \<Rightarrow> bool" where
  "seg_inv ds f C F L \<longleftrightarrow> buckets_ok ds C \<and> free_ok ds f F \<and>
     (\<forall>x\<in>L. x < length ds \<and> x mod 4 \<noteq> 0 \<and> \<not> used ds x \<and> x \<notin> set F) \<and>
     (\<forall>i<length ds. i mod 4 \<noteq> 0 \<and> \<not> used ds i \<longrightarrow> i \<in> set F \<union> L)"

lemma unat_u16_less: "unat (w :: u16) < 65536"
  using unsigned_less [of w, where ?'a = nat] by simp

lemma unat_of_nat_u16: "n < 65536 \<Longrightarrow> unat (of_nat n :: u16) = n"
  by (simp add: unat_of_nat)

text \<open>Changing only the links of unused slots keeps the bucket chains.\<close>

lemma buckets_ok_cong:
  assumes "buckets_ok ds C" and "length ds' = length ds"
    and "\<And>i. i < length ds \<Longrightarrow> used ds' i = used ds i"
    and "\<And>i. i < length ds \<Longrightarrow> used ds i \<Longrightarrow> nx ds' i = nx ds i"
    and "\<And>i. i < length ds \<Longrightarrow> i mod 4 = 0 \<Longrightarrow> nx ds' i = nx ds i"
  shows "buckets_ok ds' C"
proof -
  have b: "bucket_ok ds' b (C b)" if "b < length ds div 4" for b
  proof -
    have ok: "bucket_ok ds b (C b)" using assms(1) that by (simp add: buckets_ok_def)
    have h: "4 * b < length ds" using that by auto
    have bd: "x < length ds" if "x \<in> set (C b)" for x
      using ok that by (cases "C b = []") (auto simp: bucket_ok_def dest: lseg_bound)
    have "lseg ds' (4 * b) (C b) 0 = lseg ds (4 * b) (C b) 0"
      using ok assms(2,4) bd by (intro lseg_cong) (auto simp: bucket_ok_def)
    then show ?thesis
      using ok assms(3,5) bd h by (auto simp: bucket_ok_def)
  qed
  then show ?thesis using assms(1-3) by (auto simp: buckets_ok_def)
qed

section \<open>Removing a slot from the free chain\<close>

lemma unlink_lseg:
  assumes l: "lseg ds f (F1 @ x # F2) 0" and d: "distinct (F1 @ x # F2)" and len: "length ds' = length ds"
    and n: "\<And>i. nx ds' i = (if F1 \<noteq> [] \<and> i = last F1 then nx ds x else nx ds i)"
  shows "lseg ds' (if F1 = [] then nx ds x else f) (F1 @ F2) 0"
proof -
  have l1: "lseg ds f F1 x" and l2: "lseg ds (nx ds x) F2 0"
    using l by (auto simp: lseg_append)
  have dj: "set F1 \<inter> set F2 = {}" using d by auto
  have "last F1 \<notin> set F2" if "F1 \<noteq> []"
    using dj last_in_set [OF that] by blast
  then have "nx ds' y = nx ds y" if "y \<in> set F2" for y
    using that by (auto simp: n)
  then have "lseg ds' (nx ds x) F2 0"
    using l2 by (subst lseg_cong [OF len])
  moreover have "lseg ds' f F1 (nx ds x)" if ne: "F1 \<noteq> []"
  proof -
    obtain G q where G: "F1 = G @ [q]" using ne by (metis rev_exhaust)
    then have q: "q \<notin> set G" using d by auto
    have "lseg ds f G q" "q < length ds" using l1 by (auto simp: G lseg_append)
    then have "lseg ds' f G q" using q by (subst lseg_cong [OF len]) (auto simp: n G)
    then show ?thesis using len \<open>q < length ds\<close> by (auto simp: G lseg_append n)
  qed
  ultimately show ?thesis by (cases "F1 = []") (auto simp: lseg_append)
qed

lemma unlink_bseg:
  assumes b: "bseg ds 0 (F1 @ x # F2)" and d: "distinct (F1 @ x # F2)"
    and n: "\<And>i. pv ds' i = (if F2 \<noteq> [] \<and> i = hd F2 then last (0 # F1) else pv ds i)"
  shows "bseg ds' 0 (F1 @ F2)"
proof -
  have b1: "bseg ds 0 F1" and b2: "bseg ds x F2" using b by (auto simp: bseg_append)
  have dj: "set F1 \<inter> set F2 = {}" using d by auto
  have "hd F2 \<notin> set F1" if "F2 \<noteq> []"
    using dj hd_in_set [OF that] by blast
  then have "pv ds' y = pv ds y" if "y \<in> set F1" for y
    using that by (auto simp: n)
  then have "bseg ds' 0 F1" using b1 by (subst bseg_cong)
  moreover have "bseg ds' (last (0 # F1)) F2"
  proof (cases F2)
    case (Cons a F3)
    then have "bseg ds' a F3" using b2 d by (subst bseg_cong) (auto simp: n)
    then show ?thesis using Cons by (simp add: n)
  qed simp
  ultimately show ?thesis by (simp add: bseg_append)
qed

text \<open>What \<^verbatim>\<open>freeChainDelete\<close> computes on a well-formed free chain, field by field.\<close>

lemma freeChainDelete_run:
  assumes fo: "free_ok ds f (F1 @ x # F2)"
  shows "\<exists>ds'. freeChainDelete ds x = Some (ds', F1 = [], if F1 = [] then dir_next (ds ! x) else 0) \<and>
    length ds' = length ds \<and> (\<forall>i. used ds' i = used ds i) \<and>
    (\<forall>i. nx ds' i = (if F1 \<noteq> [] \<and> i = last F1 then nx ds x else nx ds i)) \<and>
    (\<forall>i. pv ds' i = (if F2 \<noteq> [] \<and> i = hd F2 then last (0 # F1) else pv ds i)) \<and>
    (\<forall>i. i \<notin> set (F1 @ x # F2) \<longrightarrow> ds' ! i = ds ! i)"
proof -
  let ?F = "F1 @ x # F2"
  have l: "lseg ds f ?F 0" "bseg ds 0 ?F" "distinct ?F" and fu: "\<And>y. y \<in> set ?F \<Longrightarrow> y mod 4 \<noteq> 0 \<and> \<not> used ds y"
    using fo by (auto simp: free_ok_def)
  have bd: "y < length ds" if "y \<in> set ?F" for y using l(1) that by (rule lseg_bound)
  have nz: "y \<noteq> 0" if "y \<in> set ?F" for y using fu [OF that] by (cases y) auto
  define p where "p = last (0 # F1)"
  define ds1 where "ds1 = (if F1 = [] then ds else ds[p := dir_setNext (dir_next (ds ! x)) (ds ! p)])"
  define ds2 where "ds2 = (if F2 = [] then ds1 else ds1[hd F2 := dir_setPrev (dir_prev (ds ! x)) (ds1 ! hd F2)])"
  have len: "length ds1 = length ds" "length ds2 = length ds" by (simp_all add: ds1_def ds2_def)
  have p: "p = last F1 \<and> p \<in> set F1 \<and> p < length ds \<and> p \<noteq> 0 \<and> p \<noteq> x" if "F1 \<noteq> []"
    using that bd nz l(3) by (auto simp: p_def)
  have y: "hd F2 \<in> set F2 \<and> hd F2 < length ds \<and> hd F2 \<noteq> x \<and> nx ds x = hd F2 \<and> hd F2 \<noteq> 0" if "F2 \<noteq> []"
    using that bd nz l by (cases F2) (auto simp: lseg_append)
  have n0: "dir_next (ds ! x) = 0 \<longleftrightarrow> F2 = []"
    using l(1) y by (cases F2) (auto simp: lseg_append nx_def unat_eq_zero)
  have pr: "unat (dir_prev (ds ! x)) = p" using l(2) by (simp add: bseg_append pv_def p_def)
  then have pr0: "dir_prev (ds ! x) = 0 \<longleftrightarrow> F1 = []"
    using p by (auto simp: p_def simp flip: unat_eq_zero)
  have xb: "x < length ds" "dir_offset (ds ! x) = 0" "ds1 ! x = ds ! x"
    using bd fu p by (auto simp: used_def ds1_def)
  have "freeChainDelete ds x = Some (ds2, F1 = [], if F1 = [] then dir_next (ds ! x) else 0)"
    using xb p y pr pr0 n0
    by (auto simp: freeChainDelete_def idx_def modify_def ds1_def ds2_def nx_def)
  moreover have "\<forall>i. nx ds2 i = (if F1 \<noteq> [] \<and> i = last F1 then nx ds x else nx ds i)"
    using p y len(1) by (auto simp: ds2_def ds1_def nx_def nth_list_update)
  moreover have "\<forall>i. pv ds2 i = (if F2 \<noteq> [] \<and> i = hd F2 then last (0 # F1) else pv ds i)"
    using p y len(1) pr by (auto simp: ds2_def ds1_def pv_def nth_list_update p_def)
  moreover have "\<forall>i. used ds2 i = used ds i"
    using p y len(1) by (auto simp: ds2_def ds1_def used_def nth_list_update split: if_splits)
  moreover have "\<forall>i. i \<notin> set ?F \<longrightarrow> ds2 ! i = ds ! i"
    using p y len(1) by (auto simp: ds2_def ds1_def nth_list_update)
  ultimately show ?thesis using len by blast
qed

lemma free_delete:
  assumes inv: "seg_inv ds f C (F1 @ x # F2) L"
  shows "\<exists>ds'. freeChainDelete ds x = Some (ds', F1 = [], if F1 = [] then dir_next (ds ! x) else 0) \<and>
    seg_inv ds' (if F1 = [] then nx ds x else f) C (F1 @ F2) (insert x L) \<and>
    length ds' = length ds \<and> (\<forall>i. i \<notin> set (F1 @ x # F2) \<longrightarrow> ds' ! i = ds ! i)"
proof -
  let ?F = "F1 @ x # F2"
  have fo: "free_ok ds f ?F" using inv by (simp add: seg_inv_def)
  then have l: "lseg ds f ?F 0" "bseg ds 0 ?F" "distinct ?F"
    and fu: "\<And>y. y \<in> set ?F \<Longrightarrow> y mod 4 \<noteq> 0 \<and> \<not> used ds y"
    by (auto simp: free_ok_def)
  obtain ds' where run: "freeChainDelete ds x = Some (ds', F1 = [], if F1 = [] then dir_next (ds ! x) else 0)"
    and len: "length ds' = length ds" and us: "\<And>i. used ds' i = used ds i"
    and nx': "\<And>i. nx ds' i = (if F1 \<noteq> [] \<and> i = last F1 then nx ds x else nx ds i)"
    and pv': "\<And>i. pv ds' i = (if F2 \<noteq> [] \<and> i = hd F2 then last (0 # F1) else pv ds i)"
    and fr: "\<forall>i. i \<notin> set ?F \<longrightarrow> ds' ! i = ds ! i"
    using freeChainDelete_run [OF fo] by blast
  have keep: "nx ds' i = nx ds i" if "used ds i \<or> i mod 4 = 0" for i
    using that fu [of "last F1"] last_in_set [of F1] by (auto simp: nx')
  have "buckets_ok ds' C"
  proof (rule buckets_ok_cong [OF _ len])
    show "buckets_ok ds C" using inv by (simp add: seg_inv_def)
  qed (simp_all add: us keep)
  moreover have "free_ok ds' (if F1 = [] then nx ds x else f) (F1 @ F2)"
    using unlink_lseg [OF l(1) l(3) len nx'] unlink_bseg [OF l(2) l(3) pv'] l(3) fu
    by (auto simp: free_ok_def us)
  moreover have "\<forall>z\<in>insert x L. z < length ds' \<and> z mod 4 \<noteq> 0 \<and> \<not> used ds' z \<and> z \<notin> set (F1 @ F2)"
    using inv l(3) fu lseg_bound [OF l(1)] by (auto simp: seg_inv_def us len)
  moreover have "\<forall>i<length ds'. i mod 4 \<noteq> 0 \<and> \<not> used ds' i \<longrightarrow> i \<in> set (F1 @ F2) \<union> insert x L"
    using inv by (auto simp: seg_inv_def us len)
  ultimately show ?thesis using run len fr by (auto simp: seg_inv_def)
qed

section \<open>Returning a slot to the free chain\<close>

lemma free_set:
  assumes inv: "seg_inv (sg_dirs sg) (unat (sg_free sg)) C F L" and x: "x \<in> L" and p0: "pv (sg_dirs sg) x = 0"
  shows "\<exists>ds'. dm_freeChainSet sg x = Some (sg\<lparr>sg_dirs := ds', sg_free := of_nat x\<rparr>) \<and>
    seg_inv ds' x C (x # F) (L - {x}) \<and> length ds' = length (sg_dirs sg) \<and>
    ds' = (sg_dirs sg)[unat (sg_free sg) := dir_setPrev (of_nat x) (sg_dirs sg ! unat (sg_free sg)),
                       x := dir_setNext (sg_free sg) (sg_dirs sg ! x)] \<and>
    unat (sg_free sg) \<noteq> x \<and> (unat (sg_free sg) = 0 \<or> unat (sg_free sg) \<in> set F)"
proof -
  let ?ds = "sg_dirs sg" and ?f = "unat (sg_free sg)"
  have xb: "x < length ?ds" "x mod 4 \<noteq> 0" "\<not> used ?ds x" "x \<notin> set F"
    and fo: "lseg ?ds ?f F 0" "bseg ?ds 0 F" "distinct F"
    and fu: "\<And>y. y \<in> set F \<Longrightarrow> y mod 4 \<noteq> 0 \<and> \<not> used ?ds y"
    and bk: "buckets_ok ?ds C" and n: "length ?ds \<le> 65536"
    using inv x by (auto simp: seg_inv_def free_ok_def buckets_ok_def)
  have f: "?f = 0 \<or> ?f \<in> set F" using fo(1) by (cases F) auto
  have fb: "?f < length ?ds" using f lseg_bound [OF fo(1)] xb by auto
  have fx: "?f \<noteq> x" using f xb by (cases x) auto
  have ux: "unat (of_nat x :: u16) = x" using xb n by (intro unat_of_nat_u16) simp
  define ds' where "ds' = ?ds[?f := dir_setPrev (of_nat x) (?ds ! ?f), x := dir_setNext (sg_free sg) (?ds ! x)]"
  have len: "length ds' = length ?ds" by (simp add: ds'_def)
  have run: "dm_freeChainSet sg x = Some (sg\<lparr>sg_dirs := ds', sg_free := of_nat x\<rparr>)"
    using xb fb fx by (simp add: dm_freeChainSet_def idx_def modify_def used_def ds'_def Let_def)
  have nx': "nx ds' i = (if i = x then ?f else nx ?ds i)" for i
    using xb fb fx by (auto simp: ds'_def nx_def nth_list_update)
  have pv': "pv ds' i = (if i = ?f then x else pv ?ds i)" for i
    using xb fb fx ux by (auto simp: ds'_def pv_def nth_list_update)
  have us: "used ds' i = used ?ds i" for i
    using xb fb fx by (auto simp: ds'_def used_def nth_list_update)
  have "lseg ds' ?f F 0" using fo(1) xb(4) by (subst lseg_cong [OF len]) (auto simp: nx')
  moreover have "bseg ds' x F"
  proof (cases F)
    case (Cons a G)
    then have "bseg ds' a G" using fo by (subst bseg_cong) (auto simp: pv')
    then show ?thesis using Cons fo(1) by (simp add: pv')
  qed simp
  ultimately have "free_ok ds' x (x # F)"
    using xb len fu p0 fo(3) fx by (auto simp: free_ok_def nx' pv' us)
  moreover have "buckets_ok ds' C"
    by (rule buckets_ok_cong [OF bk len]) (use xb in \<open>auto simp: us nx'\<close>)
  moreover have "\<forall>z\<in>L - {x}. z < length ds' \<and> z mod 4 \<noteq> 0 \<and> \<not> used ds' z \<and> z \<notin> set (x # F)"
    "\<forall>i<length ds'. i mod 4 \<noteq> 0 \<and> \<not> used ds' i \<longrightarrow> i \<in> set (x # F) \<union> (L - {x})"
    using inv by (auto simp: seg_inv_def us len)
  ultimately have "seg_inv ds' x C (x # F) (L - {x})" by (simp add: seg_inv_def)
  with run len fx f show ?thesis unfolding ds'_def by blast
qed

section \<open>The probe\<close>

text \<open>What a probe of a bucket whose chain is \<open>xs\<close> finds.\<close>

fun scan :: "u16 \<Rightarrow> Dir list \<Rightarrow> nat \<Rightarrow> nat list \<Rightarrow> bool \<times> nat \<times> nat \<times> Dir" where
  "scan t ds p [] = (False, 0, p, dir_zero)"
| "scan t ds p (x # xs) = (if dir_tag (ds ! x) = t then (True, x, p, ds ! x) else scan t ds x xs)"

lemma probe_loop_chain:
  assumes "lseg ds i xs 0" "\<forall>x\<in>set xs. used ds x" "\<forall>x\<in>set (tl xs). x \<noteq> 0" "c + length xs \<le> length ds"
    "xs \<noteq> [] \<Longrightarrow> i \<noteq> 0 \<or> c = 0" "xs = [] \<Longrightarrow> c \<noteq> 0"
  shows "probe_loop t ds i p c = scan t ds p xs"
  using assms
proof (induction xs arbitrary: i p c)
  case Nil
  then show ?case by (simp add: probe_loop.simps)
next
  case (Cons x xs)
  then have x: "i = x" "x < length ds" "lseg ds (nx ds x) xs 0" "used ds x" by auto
  have "nx ds x \<noteq> 0" if "xs \<noteq> []" using x(3) Cons.prems(3) that by (cases xs) auto
  moreover have "\<forall>x\<in>set (tl xs). x \<noteq> 0" using Cons.prems(3) by (cases xs) auto
  ultimately have "probe_loop t ds (nx ds x) x (c + 1) = scan t ds x xs"
    using Cons.prems x by (intro Cons.IH) auto
  then show ?case
    using Cons.prems(4,5) x by (subst probe_loop.simps) (auto simp: used_def nx_def)
qed

lemma distinct_bounded_length:
  "distinct xs \<Longrightarrow> (\<And>x. x \<in> set xs \<Longrightarrow> x < n) \<Longrightarrow> length xs \<le> n"
  using card_mono [of "{..<n}" "set xs"] by (auto simp: distinct_card subset_iff)

lemma bucket_bound: "bucket_ok ds b xs \<Longrightarrow> x \<in> set xs \<Longrightarrow> x < length ds"
  by (cases "xs = []") (auto simp: bucket_ok_def dest: lseg_bound)

lemma bucket_hd: "bucket_ok ds b xs \<Longrightarrow> xs \<noteq> [] \<Longrightarrow> \<exists>ys. xs = 4 * b # ys"
  by (cases xs) (auto simp: bucket_ok_def)

lemma dirProbe_scan:
  assumes "bucket_ok ds b xs" and "4 * b < length ds"
  shows "dirProbe t b ds = (if xs = [] then (False, 4 * b, 0, dir_zero) else scan t ds 0 xs)"
proof (cases "xs = []")
  case True
  with assms show ?thesis
    by (auto simp: dirProbe_def DirDepth_def mult.commute bucket_ok_def used_def probe_loop.simps)
next
  case False
  have "length xs \<le> length ds"
    using assms(1) by (intro distinct_bounded_length) (auto simp: bucket_ok_def intro: bucket_bound [OF assms(1)])
  with False assms show ?thesis
    unfolding dirProbe_def DirDepth_def
    by (subst probe_loop_chain [where xs = xs]) (auto simp: bucket_ok_def mult.commute)
qed

end
