(* ===== verification/Dir_Rebuild.thy ===== *)
theory Dir_Rebuild
  imports Dir_Chain
begin

text \<open>
  The operations of \<^verbatim>\<open>cache/dir_manager.go\<close> that make room: rebuilding the free chain,
  purging buckets and popping a free slot. Each keeps the segment well formed; \<open>kept\<close> says that
  a bucket they touch is either emptied as a whole or left as it was, and \<open>freeChainPop_ok\<close> that a
  slot is found unless the protected bucket already owns every slot that is not a bucket head.
\<close>

section \<open>Appending to a chain\<close>

lemma lseg_snoc:
  assumes l: "lseg ds f G 0" and d: "distinct (G @ [x])" and len: "length ds' = length ds" "x < length ds"
    and n: "\<And>i. i \<in> set (G @ [x]) \<Longrightarrow> nx ds' i = (if i = x then 0 else if i = last G then x else nx ds i)"
  shows "lseg ds' (if G = [] then x else f) (G @ [x]) 0"
proof (cases G rule: rev_cases)
  case Nil
  then show ?thesis using len n [of x] by simp
next
  case (snoc H q)
  then have q: "q \<notin> set H" "q \<noteq> x" "x \<notin> set H" using d by auto
  have lH: "lseg ds f H q" "q < length ds" using l by (auto simp: snoc lseg_append)
  have "lseg ds' f H q" using lH q by (subst lseg_cong [OF len(1)]) (auto simp: n snoc)
  then show ?thesis using len lH q n [of q] n [of x] by (auto simp: snoc lseg_append)
qed

lemma buckets_disjoint:
  assumes "buckets_ok ds C" "b < length ds div 4" "c < length ds div 4" "i \<in> set (C b)" "i \<in> set (C c)"
  shows "b = c"
  using assms unfolding buckets_ok_def by blast

section \<open>Rebuilding the free chain\<close>

lemma slot_order_eq: "slot_order n = filter (\<lambda>i. i mod 4 \<noteq> 0) [0..<4 * n]"
proof (induction n)
  case (Suc n)
  have "[0..<4 * Suc n] = [0..<4 * n] @ [4 * n..<4 * n + 4]"
    using upt_add_eq_append [of 0 "4 * n" 4] by (simp add: add.commute)
  also have "[4 * n..<4 * n + 4] = [4 * n, 4 * n + 1, 4 * n + 2, 4 * n + 3]"
    by (simp add: numeral_eq_Suc)
  finally have "[0..<4 * Suc n] = [0..<4 * n] @ [4 * n, 4 * n + 1, 4 * n + 2, 4 * n + 3]" .
  moreover have "slot_order (Suc n) = slot_order n @ [4 * n + 1, 4 * n + 2, 4 * n + 3]"
    by (simp add: slot_order_def DirDepth_def upt_conv_Cons mult.commute)
  moreover have "(4 * n + 1) mod 4 = 1" "(4 * n + 2) mod 4 = 2" "(4 * n + 3) mod 4 = 3"
    by presburger+
  ultimately show ?case using Suc by simp
qed (simp add: slot_order_def)

lemma slot_order_set: "i \<in> set (slot_order n) \<longleftrightarrow> i < 4 * n \<and> i mod 4 \<noteq> 0"
  by (auto simp: slot_order_eq)

lemma slot_order_pos: "i \<in> set (slot_order n) \<Longrightarrow> 0 < i"
  by (cases i) (auto simp: slot_order_set)

lemma distinct_slot_order [simp]: "distinct (slot_order n)"
  by (simp add: slot_order_eq)

definition rb_inv :: "Dir list \<Rightarrow> nat list \<Rightarrow> rebuild \<Rightarrow> bool" where
  "rb_inv ds G r \<longleftrightarrow> length (rb_dirs r) = length ds \<and> (\<forall>i. used (rb_dirs r) i = used ds i) \<and>
     (\<forall>i. i \<notin> set G \<longrightarrow> rb_dirs r ! i = ds ! i) \<and> rb_prev r = last (0 # G) \<and> rb_counter r = length G \<and>
     unat (rb_free r) = (if G = [] then 0 else hd G) \<and> lseg (rb_dirs r) (unat (rb_free r)) G 0 \<and> bseg (rb_dirs r) 0 G"

lemma rebuild_step_inv:
  assumes r: "rb_inv ds G r" and i: "i < length ds" "i \<noteq> 0" "i \<notin> set G" and n: "length ds \<le> 65536"
    and d: "distinct G" and b: "\<And>y. y \<in> set G \<Longrightarrow> y \<noteq> 0 \<and> y < length ds \<and> \<not> used ds y"
  shows "rb_inv ds (if used ds i then G else G @ [i]) (rebuild_step i r)"
proof (cases "used ds i")
  case True
  have "rb_dirs r ! i = ds ! i" using r i by (simp add: rb_inv_def)
  then show ?thesis using True r by (simp add: rebuild_step_def used_def)
next
  case False
  let ?rd = "rb_dirs r" and ?p = "rb_prev r" and ?r = "rebuild_step i r"
  define d1 where "d1 = ?rd[i := dir_setPrev (of_nat ?p) dir_zero]"
  define d2 where "d2 = (if G = [] then d1 else d1[?p := dir_setNext (of_nat i) (d1 ! ?p)])"
  have len: "length ?rd = length ds" and ri: "?rd ! i = ds ! i" and f: "unat (rb_free r) = (if G = [] then 0 else hd G)"
    and us: "used ?rd = used ds" and p: "?p = last (0 # G)" and ch: "lseg ?rd (unat (rb_free r)) G 0" "bseg ?rd 0 G"
    and fr: "\<And>j. j \<notin> set G \<Longrightarrow> ?rd ! j = ds ! j"
    using r i by (auto simp: rb_inv_def)
  have pG: "?p \<in> set G \<and> ?p \<noteq> 0 \<and> ?p < length ds \<and> ?p \<noteq> i \<and> \<not> used ds ?p" if "G \<noteq> []"
    using that b [of "last G"] i last_in_set [OF that] by (auto simp: p)
  have fG: "rb_free r = 0 \<longleftrightarrow> G = []"
    using f b [of "hd G"] hd_in_set [of G] by (auto simp flip: unat_eq_zero)
  have ui: "unat (of_nat i :: u16) = i" using i n by (intro unat_of_nat_u16) simp
  have up: "unat (of_nat ?p :: u16) = ?p"
    using pG n p by (cases "G = []") (auto intro!: unat_of_nat_u16)
  have R: "?r = \<lparr>rb_dirs = d2, rb_free = (if G = [] then of_nat i else rb_free r), rb_prev = i, rb_counter = rb_counter r + 1\<rparr>"
    using False ri pG p fG by (auto simp: rebuild_step_def used_def Let_def d1_def d2_def)
  have len2: "length d2 = length ds" using len by (simp add: d1_def d2_def)
  have nx2: "nx d2 j = (if j = i then 0 else if G \<noteq> [] \<and> j = ?p then i else nx ?rd j)" for j
    using i len pG ui by (auto simp: d1_def d2_def nx_def nth_list_update)
  have pv2: "pv d2 j = (if j = i then ?p else pv ?rd j)" for j
    using i len pG up by (auto simp: d1_def d2_def pv_def nth_list_update)
  have us2: "used d2 j = used ds j" for j
    using i len pG us False by (auto simp: d1_def d2_def nth_list_update used_def fun_eq_iff)
  have fr2: "d2 ! j = ds ! j" if "j \<notin> set (G @ [i])" for j
    using that fr pG by (cases "j = ?p") (auto simp: d1_def d2_def)
  have l2: "lseg d2 (if G = [] then i else unat (rb_free r)) (G @ [i]) 0"
    by (rule lseg_snoc [OF ch(1)]) (use d i len len2 p in \<open>auto simp: nx2\<close>)
  have b2: "bseg d2 0 (G @ [i])"
  proof -
    have "bseg d2 0 G" using ch(2) i by (subst bseg_cong [of G d2 ?rd]) (auto simp: pv2)
    then show ?thesis by (simp add: bseg_append pv2 p)
  qed
  show ?thesis
    using False l2 b2 us2 fr2 f ui len2 r by (auto simp: rb_inv_def R)
qed

lemma rebuild_fold:
  assumes "\<And>i. i \<in> set xs \<Longrightarrow> i < length ds \<and> i \<noteq> 0" and "distinct xs" and n: "length ds \<le> 65536"
  shows "rb_inv ds (filter (\<lambda>i. \<not> used ds i) xs)
    (fold rebuild_step xs \<lparr>rb_dirs = ds, rb_free = 0, rb_prev = 0, rb_counter = 0\<rparr>)"
  using assms(1,2)
proof (induction xs rule: rev_induct)
  case (snoc x xs)
  let ?r = "fold rebuild_step xs \<lparr>rb_dirs = ds, rb_free = 0, rb_prev = 0, rb_counter = 0\<rparr>"
  have "rb_inv ds (filter (\<lambda>i. \<not> used ds i) xs) ?r" using snoc by auto
  from this have "rb_inv ds (if used ds x then filter (\<lambda>i. \<not> used ds i) xs else filter (\<lambda>i. \<not> used ds i) xs @ [x])
      (rebuild_step x ?r)"
    by (rule rebuild_step_inv) (use snoc.prems n in auto)
  then show ?case by (simp split: if_splits)
qed (simp add: rb_inv_def)

lemma freeChainRebuild_ok:
  assumes "buckets_ok (sg_dirs sg) C"
  defines "F \<equiv> filter (\<lambda>i. \<not> used (sg_dirs sg) i) (slot_order (sg_buckets sg))"
  shows "\<exists>ds' f'. freeChainRebuild sg = (sg\<lparr>sg_dirs := ds', sg_free := f'\<rparr>, length F) \<and>
    seg_inv ds' (unat f') C F {} \<and> length ds' = length (sg_dirs sg) \<and>
    (\<forall>i. used (sg_dirs sg) i \<longrightarrow> ds' ! i = sg_dirs sg ! i)"
proof -
  let ?ds = "sg_dirs sg"
  let ?r = "fold rebuild_step (slot_order (sg_buckets sg)) \<lparr>rb_dirs = ?ds, rb_free = 0, rb_prev = 0, rb_counter = 0\<rparr>"
  have n: "length ?ds \<le> 65536" "4 * sg_buckets sg = length ?ds"
    using assms(1) by (auto simp: buckets_ok_def sg_buckets_def DirDepth_def)
  have r: "rb_inv ?ds F ?r"
    unfolding F_def by (rule rebuild_fold) (use n in \<open>auto simp: slot_order_set dest: slot_order_pos\<close>)
  have F: "i \<in> set F \<longleftrightarrow> i < length ?ds \<and> i mod 4 \<noteq> 0 \<and> \<not> used ?ds i" for i
    using n by (auto simp: F_def slot_order_set)
  have bk: "buckets_ok (rb_dirs ?r) C"
    by (rule buckets_ok_cong [OF assms(1)]) (use r F in \<open>auto simp: rb_inv_def nx_def\<close>)
  have "free_ok (rb_dirs ?r) (unat (rb_free ?r)) F"
    using r F by (auto simp: free_ok_def rb_inv_def) (simp add: F_def)
  then have inv: "seg_inv (rb_dirs ?r) (unat (rb_free ?r)) C F {}"
    using bk r F by (auto simp: seg_inv_def rb_inv_def)
  have fr: "\<forall>i. used ?ds i \<longrightarrow> rb_dirs ?r ! i = ?ds ! i" "length (rb_dirs ?r) = length ?ds"
    using r F by (auto simp: rb_inv_def)
  have "freeChainRebuild sg = (sg\<lparr>sg_dirs := rb_dirs ?r, sg_free := rb_free ?r\<rparr>, length F)"
    using r by (simp add: freeChainRebuild_def Let_def rb_inv_def)
  with inv fr show ?thesis by blast
qed

section \<open>Purging\<close>

definition clear_slots :: "nat list \<Rightarrow> Dir list \<Rightarrow> Dir list" where
  "clear_slots xs ds = fold (\<lambda>i ds. ds[i := dir_zero]) xs ds"

lemma length_clear_slots [simp]: "length (clear_slots xs ds) = length ds"
  unfolding clear_slots_def by (induction xs arbitrary: ds) auto

lemma nth_clear_slots: "i < length ds \<Longrightarrow> clear_slots xs ds ! i = (if i \<in> set xs then dir_zero else ds ! i)"
  unfolding clear_slots_def by (induction xs arbitrary: ds) (auto simp: nth_list_update)

lemma purgeBucket_chain:
  assumes "lseg ds i xs 0" "distinct xs" "\<forall>x\<in>set (tl xs). x \<noteq> 0" "xs \<noteq> []" "i \<noteq> 0 \<or> c = 0"
  shows "purgeBucket ds i c k = Some (clear_slots xs ds, k + length xs)"
  using assms
proof (induction xs arbitrary: ds i c k)
  case (Cons x xs)
  let ?ds = "ds[x := dir_zero]"
  have x: "i = x" "x < length ds" "lseg ds (nx ds x) xs 0" using Cons.prems by auto
  have l: "lseg ?ds (nx ds x) xs 0"
    using x Cons.prems(2) by (subst lseg_cong [where ds = ds]) (auto simp: nx_update)
  have step: "purgeBucket ds i c k = purgeBucket ?ds (nx ds x) (c + 1) (k + 1)"
    using x Cons.prems(5) by (subst purgeBucket.simps) (simp add: nx_def)
  show ?case
  proof (cases xs)
    case Nil
    then show ?thesis using x step by (simp add: purgeBucket.simps clear_slots_def)
  next
    case (Cons y ys)
    then have "nx ds x \<noteq> 0" "\<forall>x\<in>set (tl xs). x \<noteq> 0" using l Cons.prems(3) by auto
    then show ?thesis
      using Cons.IH [OF l, of "c + 1" "k + 1"] Cons.prems(2) Cons step by (simp add: clear_slots_def)
  qed
qed simp

lemma purgeBucket_ok:
  assumes bk: "buckets_ok ds C" and b: "b < length ds div 4"
  shows "\<exists>ds' k'. purgeBucket ds (4 * b) 0 k = Some (ds', k') \<and> buckets_ok ds' (C(b := [])) \<and>
    length ds' = length ds \<and> (\<forall>i<length ds. used ds i \<and> i \<notin> set (C b) \<longrightarrow> ds' ! i = ds ! i)"
proof -
  define xs where "xs = (if C b = [] then [4 * b] else C b)"
  define ds' where "ds' = clear_slots xs ds"
  have ok: "bucket_ok ds c (C c)" if "c < length ds div 4" for c using bk that by (simp add: buckets_ok_def)
  have h: "4 * b < length ds" "4 * b \<in> set xs" using b bucket_hd [OF ok [OF b]] by (auto simp: xs_def)
  have "lseg ds (4 * b) xs 0" "distinct xs" "\<forall>x\<in>set (tl xs). x \<noteq> 0"
    using ok [OF b] h by (auto simp: xs_def bucket_ok_def)
  then have run: "purgeBucket ds (4 * b) 0 k = Some (ds', k + length xs)"
    unfolding ds'_def by (rule purgeBucket_chain) (auto simp: xs_def)
  have nth: "ds' ! i = (if i \<in> set xs then dir_zero else ds ! i)" if "i < length ds" for i
    using that by (simp add: ds'_def nth_clear_slots)
  have us: "used ds' i \<longleftrightarrow> used ds i \<and> i \<notin> set (C b)" if "i < length ds" for i
    using that ok [OF b] by (auto simp: used_def nth xs_def bucket_ok_def)
  have dj: "set (C c) \<inter> set xs = {}" if "c < length ds div 4" "c \<noteq> b" for c
  proof -
    have "4 * b \<notin> set (C c)"
      using ok [OF that(1)] that(2) lseg_hd [of ds "4 * c" "C c" 0] by (cases "C c") (auto simp: bucket_ok_def)
    then show ?thesis using bk b that by (auto simp: xs_def buckets_ok_def)
  qed
  have "bucket_ok ds' c ((C(b := [])) c)" if c: "c < length ds div 4" for c
  proof (cases "c = b")
    case True
    then show ?thesis using h by (simp add: bucket_ok_def used_def nx_def nth)
  next
    case False
    have e: "ds' ! i = ds ! i" if "i \<in> set (C c)" for i
      using dj [OF c False] bucket_bound [OF ok [OF c] that] that by (auto simp: nth)
    have m: "lseg ds' (4 * c) (C c) 0 = lseg ds (4 * c) (C c) 0"
      by (rule lseg_cong) (simp_all add: ds'_def [symmetric] nx_def e, simp add: ds'_def)
    have "4 * c < length ds" "ds' ! (4 * c) = ds ! (4 * c) \<or> ds' ! (4 * c) = dir_zero"
      using c by (auto simp: nth)
    then show ?thesis using False ok [OF c] m e by (auto simp: bucket_ok_def used_def nx_def)
  qed
  moreover have "\<forall>i<length ds. used ds' i \<longrightarrow> (\<exists>c<length ds div 4. i \<in> set ((C(b := [])) c))"
    using bk by (auto simp: us buckets_ok_def)
  moreover have "set ((C(b := [])) c) \<inter> set ((C(b := [])) c') = {}"
    if "c < length ds div 4" "c' < length ds div 4" "c \<noteq> c'" for c c'
    using bk that by (auto simp: buckets_ok_def)
  ultimately have "buckets_ok ds' (C(b := []))"
    using bk by (simp add: buckets_ok_def ds'_def)
  moreover have "\<forall>i<length ds. used ds i \<and> i \<notin> set (C b) \<longrightarrow> ds' ! i = ds ! i"
    using ok [OF b] by (auto simp: nth xs_def bucket_ok_def)
  ultimately show ?thesis using run by (auto simp: ds'_def)
qed

lemma purgeBuckets_ok:
  assumes "buckets_ok ds C" and "\<forall>b\<in>set bs. b < length ds div 4"
  shows "\<exists>ds' k'. purgeBuckets bs ds k = Some (ds', k') \<and> length ds' = length ds \<and>
    buckets_ok ds' (\<lambda>b. if b \<in> set bs then [] else C b) \<and>
    (\<forall>i<length ds. used ds i \<and> (\<forall>b\<in>set bs. i \<notin> set (C b)) \<longrightarrow> ds' ! i = ds ! i)"
  using assms
proof (induction bs arbitrary: ds C k)
  case (Cons b bs)
  let ?C = "C(b := [])"
  obtain ds1 k1 where 1: "purgeBucket ds (4 * b) 0 k = Some (ds1, k1)" "buckets_ok ds1 ?C"
    "length ds1 = length ds" and fr1: "\<And>i. i < length ds \<Longrightarrow> used ds i \<Longrightarrow> i \<notin> set (C b) \<Longrightarrow> ds1 ! i = ds ! i"
    using purgeBucket_ok [OF Cons.prems(1), of b k] Cons.prems(2) by auto
  obtain ds2 k2 where 2: "purgeBuckets bs ds1 k1 = Some (ds2, k2)" "length ds2 = length ds1"
    "buckets_ok ds2 (\<lambda>c. if c \<in> set bs then [] else ?C c)"
    and fr2: "\<And>i. i < length ds1 \<Longrightarrow> used ds1 i \<Longrightarrow> \<forall>b\<in>set bs. i \<notin> set (?C b) \<Longrightarrow> ds2 ! i = ds1 ! i"
    using Cons.IH [OF 1(2), of k1] Cons.prems(2) 1(3) by auto
  have "(\<lambda>c. if c \<in> set bs then [] else ?C c) = (\<lambda>c. if c \<in> set (b # bs) then [] else C c)" by auto
  then have "buckets_ok ds2 (\<lambda>c. if c \<in> set (b # bs) then [] else C c)" using 2(3) by simp
  moreover have "ds2 ! i = ds ! i" if "i < length ds" "used ds i" "\<forall>b\<in>set (b # bs). i \<notin> set (C b)" for i
    using that fr1 [of i] fr2 [of i] 1(3) by (auto simp: used_def)
  ultimately show ?case
    using 1 2 by (auto simp: DirDepth_def mult.commute)
qed auto

text \<open>The facts the purges and the allocation share: bucket chains are kept or emptied, and what is
  kept is untouched.\<close>

definition kept :: "Segment \<Rightarrow> (nat \<Rightarrow> nat list) \<Rightarrow> Segment \<Rightarrow> (nat \<Rightarrow> nat list) \<Rightarrow> bool" where
  "kept sg C sg' C' \<longleftrightarrow> length (sg_dirs sg') = length (sg_dirs sg) \<and> sg_ids sg' = sg_ids sg \<and>
     (\<forall>b < sg_buckets sg. (C' b = C b \<or> C' b = []) \<and> (\<forall>i\<in>set (C' b). sg_dirs sg' ! i = sg_dirs sg ! i))"

lemma kept_refl: "kept sg C sg C" by (simp add: kept_def)

lemma kept_trans: "kept sg C sg1 C1 \<Longrightarrow> kept sg1 C1 sg2 C2 \<Longrightarrow> kept sg C sg2 C2"
  unfolding kept_def sg_buckets_def by (metis empty_iff empty_set)

lemma purge_then_rebuild_ok:
  assumes bk: "buckets_ok (sg_dirs sg) C" and bs: "\<forall>b\<in>set bs. b < sg_buckets sg"
  defines "C' \<equiv> \<lambda>b. if b \<in> set bs then [] else C b"
  shows "\<exists>sg' k F. purge_then_rebuild bs sg = Some (sg', k) \<and> kept sg C sg' C' \<and>
    seg_inv (sg_dirs sg') (unat (sg_free sg')) C' F {}"
proof -
  have bs': "\<forall>b\<in>set bs. b < length (sg_dirs sg) div 4" using bs by (simp add: sg_buckets_def DirDepth_def)
  obtain ds1 k1 where 1: "purgeBuckets bs (sg_dirs sg) 0 = Some (ds1, k1)" "length ds1 = length (sg_dirs sg)"
    "buckets_ok ds1 C'"
    and fr: "\<And>i. i < length (sg_dirs sg) \<Longrightarrow> used (sg_dirs sg) i \<Longrightarrow> \<forall>b\<in>set bs. i \<notin> set (C b) \<Longrightarrow> ds1 ! i = sg_dirs sg ! i"
    using purgeBuckets_ok [OF bk bs', of 0] unfolding C'_def by blast
  obtain ds2 f2 F where 2: "fst (freeChainRebuild (sg\<lparr>sg_dirs := ds1\<rparr>)) = sg\<lparr>sg_dirs := ds2, sg_free := f2\<rparr>"
    "seg_inv ds2 (unat f2) C' F {}" "length ds2 = length ds1" "\<And>i. used ds1 i \<Longrightarrow> ds2 ! i = ds1 ! i"
    using freeChainRebuild_ok [of "sg\<lparr>sg_dirs := ds1\<rparr>" C'] 1(3) by auto
  have "ds2 ! i = sg_dirs sg ! i" if b: "b < sg_buckets sg" and i: "i \<in> set (C' b)" for b i
  proof -
    have bb: "b < length (sg_dirs sg) div 4" "b \<notin> set bs" "i \<in> set (C b)"
      using b i by (auto simp: sg_buckets_def DirDepth_def C'_def split: if_splits)
    have ok: "bucket_ok (sg_dirs sg) b (C b)" using bk bb by (simp add: buckets_ok_def)
    have "\<forall>c\<in>set bs. i \<notin> set (C c)" using buckets_disjoint [OF bk] bs' bb by blast
    then have e: "ds1 ! i = sg_dirs sg ! i"
      using fr bucket_bound [OF ok bb(3)] ok bb(3) by (auto simp: bucket_ok_def)
    have "used ds1 i" using e ok bb(3) by (auto simp: bucket_ok_def used_def)
    then show ?thesis using 2(4) e by simp
  qed
  then have "kept sg C (sg\<lparr>sg_dirs := ds2, sg_free := f2\<rparr>) C'"
    using 1 2 by (auto simp: kept_def C'_def)
  with 1 2 show ?thesis by (auto simp: purge_then_rebuild_def)
qed

section \<open>Allocating a slot\<close>

abbreviation sg_inv :: "Segment \<Rightarrow> (nat \<Rightarrow> nat list) \<Rightarrow> nat list \<Rightarrow> nat set \<Rightarrow> bool" where
  "sg_inv sg \<equiv> seg_inv (sg_dirs sg) (unat (sg_free sg))"

lemma sg_buckets_eq: "sg_buckets sg = length (sg_dirs sg) div 4"
  by (simp add: sg_buckets_def DirDepth_def)

lemma sg_inv_buckets: "sg_inv sg C F L \<Longrightarrow> buckets_ok (sg_dirs sg) C"
  by (simp add: seg_inv_def)

lemma sg_free_zero: "sg_inv sg C F L \<Longrightarrow> sg_free sg = 0 \<longleftrightarrow> F = []"
  by (cases F) (auto simp: seg_inv_def free_ok_def simp flip: unat_eq_zero)

text \<open>Bucket \<open>w\<close> holds every slot that is not a bucket head.\<close>

definition owns_all :: "Segment \<Rightarrow> nat list \<Rightarrow> bool" where
  "owns_all sg xs \<longleftrightarrow> (\<forall>i<length (sg_dirs sg). i mod 4 \<noteq> 0 \<longrightarrow> i \<in> set xs)"

lemma kept_inv_used:
  assumes "sg_inv sg C F L" "b < sg_buckets sg" "i \<in> set (C b)"
  shows "used (sg_dirs sg) i" "i < length (sg_dirs sg)" "i \<notin> set F"
proof -
  have ok: "bucket_ok (sg_dirs sg) b (C b)"
    using assms by (simp add: seg_inv_def buckets_ok_def sg_buckets_eq)
  then show u: "used (sg_dirs sg) i" "i < length (sg_dirs sg)"
    using assms(3) bucket_bound [OF ok] by (auto simp: bucket_ok_def)
  show "i \<notin> set F" using u assms(1) by (auto simp: seg_inv_def free_ok_def)
qed

lemma free_delete_sg:
  assumes inv: "sg_inv sg C (F1 @ x # F2) L"
  shows "\<exists>sg'. dm_freeChainDelete sg x = Some sg' \<and> sg_inv sg' C (F1 @ F2) (insert x L) \<and> kept sg C sg' C"
proof -
  obtain ds' where 1: "freeChainDelete (sg_dirs sg) x = Some (ds', F1 = [], if F1 = [] then dir_next (sg_dirs sg ! x) else 0)"
    "seg_inv ds' (if F1 = [] then nx (sg_dirs sg) x else unat (sg_free sg)) C (F1 @ F2) (insert x L)"
    "length ds' = length (sg_dirs sg)" "\<And>i. i \<notin> set (F1 @ x # F2) \<Longrightarrow> ds' ! i = sg_dirs sg ! i"
    using free_delete [OF inv] by blast
  let ?sg = "sg\<lparr>sg_dirs := ds', sg_free := (if F1 = [] then dir_next (sg_dirs sg ! x) else sg_free sg)\<rparr>"
  have "dm_freeChainDelete sg x = Some ?sg"
    using 1(1) by (auto simp: dm_freeChainDelete_def)
  moreover have "sg_inv ?sg C (F1 @ F2) (insert x L)"
    using 1(2) by (auto simp: nx_def)
  moreover have "kept sg C ?sg C"
    using 1(3,4) kept_inv_used [OF inv] by (auto simp: kept_def)
  ultimately show ?thesis by blast
qed

lemma pop_first_ok:
  assumes inv: "sg_inv sg C F {}" and "F \<noteq> []"
  shows "\<exists>sg'. pop_first sg = Some (sg', hd F) \<and> sg_inv sg' C (tl F) {hd F} \<and> kept sg C sg' C"
proof -
  obtain x G where F: "F = x # G" using assms(2) by (cases F) auto
  have "unat (sg_free sg) = x" using inv F by (simp add: seg_inv_def free_ok_def)
  then show ?thesis using free_delete_sg [of sg C "[]" x G "{}"] inv F by (auto simp: pop_first_def)
qed

lemma rebuild_ok:
  assumes "sg_inv sg C F {}"
  shows "\<exists>sg' G. freeChainRebuild sg = (sg', length G) \<and> sg_inv sg' C G {} \<and> kept sg C sg' C"
  using freeChainRebuild_ok [OF sg_inv_buckets [OF assms]] kept_inv_used [OF assms]
  by (auto simp: kept_def)

definition emptied :: "nat list \<Rightarrow> (nat \<Rightarrow> nat list) \<Rightarrow> nat \<Rightarrow> nat list" where
  "emptied bs C = (\<lambda>b. if b \<in> set bs then [] else C b)"

lemma purgeRandom_ok:
  assumes inv: "sg_inv sg C F {}"
  shows "\<exists>sg' k G bs. purgeRandom10 r w sg = Some (sg', k) \<and> w \<notin> set bs \<and> kept sg C sg' (emptied bs C) \<and>
      sg_inv sg' (emptied bs C) G {}"
    and "\<exists>sg' k G bs. purgeRandom33 r w sg = Some (sg', k) \<and> w \<notin> set bs \<and> kept sg C sg' (emptied bs C) \<and>
      sg_inv sg' (emptied bs C) G {}"
    and "\<exists>sg' k G. purgeRandom100 w sg = Some (sg', k) \<and>
      kept sg C sg' (emptied (filter (\<lambda>i. i \<noteq> w) [0..<sg_buckets sg]) C) \<and>
      sg_inv sg' (emptied (filter (\<lambda>i. i \<noteq> w) [0..<sg_buckets sg]) C) G {}"
proof -
  have P: "\<exists>sg' k G. purge_then_rebuild bs sg = Some (sg', k) \<and> kept sg C sg' (emptied bs C) \<and>
      sg_inv sg' (emptied bs C) G {}" if "\<forall>b\<in>set bs. b < sg_buckets sg" for bs
    using purge_then_rebuild_ok [OF sg_inv_buckets [OF inv] that] unfolding emptied_def by blast
  have Q: "\<exists>sg' k G bs. purge_then_rebuild (filter (\<lambda>i. p i \<and> i \<noteq> w) [0..<sg_buckets sg]) sg = Some (sg', k) \<and>
      w \<notin> set bs \<and> kept sg C sg' (emptied bs C) \<and> sg_inv sg' (emptied bs C) G {}" for p
  proof -
    let ?bs = "filter (\<lambda>i. p i \<and> i \<noteq> w) [0..<sg_buckets sg]"
    have "w \<notin> set ?bs" "\<forall>b\<in>set ?bs. b < sg_buckets sg" by auto
    with P [of ?bs] show ?thesis by blast
  qed
  show "\<exists>sg' k G bs. purgeRandom10 r w sg = Some (sg', k) \<and> w \<notin> set bs \<and> kept sg C sg' (emptied bs C) \<and>
      sg_inv sg' (emptied bs C) G {}"
    unfolding purgeRandom10_def by (rule Q)
  show "\<exists>sg' k G bs. purgeRandom33 r w sg = Some (sg', k) \<and> w \<notin> set bs \<and> kept sg C sg' (emptied bs C) \<and>
      sg_inv sg' (emptied bs C) G {}"
    unfolding purgeRandom33_def by (rule Q)
  show "\<exists>sg' k G. purgeRandom100 w sg = Some (sg', k) \<and>
      kept sg C sg' (emptied (filter (\<lambda>i. i \<noteq> w) [0..<sg_buckets sg]) C) \<and>
      sg_inv sg' (emptied (filter (\<lambda>i. i \<noteq> w) [0..<sg_buckets sg]) C) G {}"
    using P unfolding purgeRandom100_def by auto
qed

lemma owns_all_cong: "length (sg_dirs sg') = length (sg_dirs sg) \<Longrightarrow> owns_all sg' xs = owns_all sg xs"
  by (simp add: owns_all_def)

lemma owns_all_free:
  assumes "sg_inv sg C F {}" "owns_all sg (C w)" "w < sg_buckets sg"
  shows "F = []"
proof (rule ccontr)
  assume "F \<noteq> []"
  then obtain x where x: "x \<in> set F" by (cases F) auto
  then have "x < length (sg_dirs sg)" "x mod 4 \<noteq> 0"
    using assms(1) by (auto simp: seg_inv_def free_ok_def dest: lseg_bound)
  then show False
    using assms x kept_inv_used(3) [OF assms(1,3)] by (auto simp: owns_all_def)
qed

lemma only_bucket_free:
  assumes inv: "sg_inv sg C F {}" and w: "w < sg_buckets sg" and C: "\<forall>b < sg_buckets sg. b \<noteq> w \<longrightarrow> C b = []"
    and "\<not> owns_all sg (C w)"
  shows "F \<noteq> []"
proof -
  obtain i where i: "i < length (sg_dirs sg)" "i mod 4 \<noteq> 0" "i \<notin> set (C w)"
    using assms(4) by (auto simp: owns_all_def)
  have "\<not> used (sg_dirs sg) i"
  proof
    assume "used (sg_dirs sg) i"
    then obtain b where b: "b < sg_buckets sg" "i \<in> set (C b)"
      using inv i by (auto simp: seg_inv_def buckets_ok_def sg_buckets_eq)
    then have "b \<noteq> w" using i(3) by auto
    then show False using C b by auto
  qed
  then show ?thesis using inv i by (auto simp: seg_inv_def)
qed

text \<open>What an allocation for bucket \<open>w\<close> guarantees.\<close>

definition popped :: "Segment \<Rightarrow> (nat \<Rightarrow> nat list) \<Rightarrow> nat \<Rightarrow> Segment \<times> nat \<Rightarrow> bool" where
  "popped sg C w r \<longleftrightarrow> (\<exists>C' F'. sg_inv (fst r) C' F' {snd r} \<and> kept sg C (fst r) C' \<and> C' w = C w)"

lemma pop_first_popped:
  assumes "sg_inv sg1 C1 F {}" "F \<noteq> []" "kept sg C sg1 C1" "C1 w = C w"
  shows "\<exists>r. pop_first sg1 = Some r \<and> popped sg C w r"
  using pop_first_ok [OF assms(1,2)] assms(3,4) unfolding popped_def by (metis fst_conv snd_conv kept_trans)

lemma freeChainPop_ok:
  assumes "sg_inv sg C F {}" "w < sg_buckets sg" "\<not> owns_all sg (C w)" "loop < 50"
  shows "\<exists>r. freeChainPop rnd w loop sg = Some r \<and> popped sg C w r"
  using assms
proof (induction rnd w loop sg arbitrary: C F rule: freeChainPop.induct)
  case (1 rnd w loop sg)
  show ?case
  proof (cases "loop = 49")
    case True
    let ?C = "emptied (filter (\<lambda>i. i \<noteq> w) [0..<sg_buckets sg]) C"
    obtain sg1 k G where p: "purgeRandom100 w sg = Some (sg1, k)" "kept sg C sg1 ?C" "sg_inv sg1 ?C G {}"
      using purgeRandom_ok(3) [OF "1.prems"(1), of w] by blast
    have b: "sg_buckets sg1 = sg_buckets sg" "owns_all sg1 (C w) = owns_all sg (C w)" "?C w = C w"
      using p(2) by (auto simp: kept_def sg_buckets_def emptied_def owns_all_def)
    have G: "G \<noteq> []"
      by (rule only_bucket_free [OF p(3), of w]) (use b "1.prems" in \<open>auto simp: emptied_def\<close>)
    with p show ?thesis
      using True sg_free_zero [OF p(3)] pop_first_popped [OF p(3) G p(2) b(3)]
      by (subst freeChainPop.simps) simp
  next
    case False
    show ?thesis
    proof (cases "sg_free sg = 0")
      case free: True
      obtain sg1 G where r: "freeChainRebuild sg = (sg1, length G)" "sg_inv sg1 C G {}" "kept sg C sg1 C"
        using rebuild_ok [OF "1.prems"(1)] by blast
      show ?thesis
      proof (cases "G = []")
        case G: True
        obtain sg2 k H bs where p: "purgeRandom10 (rnd (loop + 1)) w sg1 = Some (sg2, k)" "w \<notin> set bs"
          "kept sg1 C sg2 (emptied bs C)" "sg_inv sg2 (emptied bs C) H {}"
          using purgeRandom_ok(1) [OF r(2)] by blast
        have k2: "kept sg C sg2 (emptied bs C)" "emptied bs C w = C w" "length (sg_dirs sg2) = length (sg_dirs sg)"
          using kept_trans [OF r(3) p(3)] p(2) r(3) p(3) by (auto simp: emptied_def kept_def)
        have "\<exists>r. freeChainPop rnd w (loop + 1) sg2 = Some r \<and> popped sg2 (emptied bs C) w r"
        proof (rule "1.IH" [OF refl _ _ free refl r(1) [symmetric] _ p(1) refl p(4)])
          show "(if loop + 1 > 49 then map_option fst (purgeRandom100 w sg) else Some sg) = Some sg"
            using "1.prems"(4) \<open>loop \<noteq> 49\<close> by simp
        qed (use G k2 "1.prems" \<open>loop \<noteq> 49\<close> in \<open>auto simp: sg_buckets_def owns_all_def\<close>)
        then have "\<exists>r. freeChainPop rnd w (loop + 1) sg2 = Some r \<and> popped sg C w r"
          unfolding popped_def using k2 by (metis kept_trans)
        then show ?thesis
          using free r(1) p(1) G \<open>loop \<noteq> 49\<close> "1.prems"(4) by (subst freeChainPop.simps) simp
      next
        case False
        then show ?thesis
          using r free \<open>loop \<noteq> 49\<close> "1.prems"(4) pop_first_popped [OF r(2) _ r(3), of w]
          by (subst freeChainPop.simps) simp
      qed
    next
      case free: False
      then have F: "F \<noteq> []" using sg_free_zero [OF "1.prems"(1)] by simp
      show ?thesis
        using free False "1.prems"(4) pop_first_popped [OF "1.prems"(1) F kept_refl, of w]
        by (subst freeChainPop.simps) simp
    qed
  qed
qed

lemma freeChainPop_free:
  assumes "sg_inv sg C F {}" "F \<noteq> []" "loop < 49"
  shows "freeChainPop rnd w loop sg = pop_first sg"
  using assms sg_free_zero [OF assms(1)] by (subst freeChainPop.simps) simp

lemma freeChainPop_panic:
  assumes "sg_inv sg C F {}" "w < sg_buckets sg" "owns_all sg (C w)"
  shows "freeChainPop rnd w loop sg = None"
  using assms
proof (induction rnd w loop sg arbitrary: C F rule: freeChainPop.induct)
  case (1 rnd w loop sg)
  let ?pre = "if loop + 1 > 49 then map_option fst (purgeRandom100 w sg) else Some sg"
  obtain sg1 C1 F1 where 1: "?pre = Some sg1" "kept sg C sg1 C1" "sg_inv sg1 C1 F1 {}" "C1 w = C w"
  proof (cases "loop + 1 > 49")
    case True
    then show ?thesis
      using purgeRandom_ok(3) [OF "1.prems"(1), of w] that by (auto simp: emptied_def)
  next
    case False
    then show ?thesis using that [of sg C F] kept_refl "1.prems"(1) by simp
  qed
  have len: "sg_buckets sg1 = sg_buckets sg" "owns_all sg1 (C w)"
    using 1(2) "1.prems"(3) by (auto simp: kept_def sg_buckets_def owns_all_def)
  have f: "sg_free sg1 = 0"
    using owns_all_free [OF 1(3), of w] len 1(4) "1.prems"(2) sg_free_zero [OF 1(3)] by simp
  obtain sg2 G where 2: "freeChainRebuild sg1 = (sg2, length G)" "sg_inv sg2 C1 G {}" "kept sg1 C1 sg2 C1"
    using rebuild_ok [OF 1(3)] by blast
  have len2: "sg_buckets sg2 = sg_buckets sg" "owns_all sg2 (C1 w)"
    using 2(3) len 1(4) by (auto simp: kept_def sg_buckets_def owns_all_def)
  have G: "length G = 0" using owns_all_free [OF 2(2), of w] len2 "1.prems"(2) by simp
  obtain sg3 k H bs where 3: "purgeRandom10 (rnd (loop + 1)) w sg2 = Some (sg3, k)" "w \<notin> set bs"
    "kept sg2 C1 sg3 (emptied bs C1)" "sg_inv sg3 (emptied bs C1) H {}"
    using purgeRandom_ok(1) [OF 2(2)] by blast
  have len3: "sg_buckets sg3 = sg_buckets sg" "owns_all sg3 (emptied bs C1 w)"
    using 3(2,3) len2 by (auto simp: kept_def sg_buckets_def owns_all_def emptied_def)
  have "freeChainPop rnd w (loop + 1) sg3 = None" if "\<not> 50 < loop + 1"
    by (rule "1.IH" [OF refl 1(1) that f refl 2(1) [symmetric] G 3(1) refl 3(4)])
      (use len3 "1.prems"(2) in auto)
  then show ?case
    using 1(1) f 2(1) G 3(1) by (subst freeChainPop.simps) (simp add: Let_def)
qed

end
