(* ===== verification/Dir_Ops.thy ===== *)
theory Dir_Ops
  imports Dir_Rebuild
begin

text \<open>
  Lookup, insertion and deletion in one segment of \<^verbatim>\<open>cache/dir_manager.go\<close>. \<open>view\<close> is
  what a bucket holds, in chain order and without the links. The lemmas describe every branch of
  \<^verbatim>\<open>dirInsert\<close> and \<^verbatim>\<open>dirDelete\<close> as an update of the views that keeps the segment
  well formed.
\<close>

section \<open>What a segment holds\<close>

definition strip :: "Dir \<Rightarrow> Dir" where "strip d = d\<lparr>raw3 := 0\<rparr>"

type_synonym seg_entry = "Dir \<times> ident"

definition ent :: "Segment \<Rightarrow> nat \<Rightarrow> seg_entry" where
  "ent sg i = (strip (sg_dirs sg ! i), sg_ids sg ! i)"

definition view :: "Segment \<Rightarrow> (nat \<Rightarrow> nat list) \<Rightarrow> nat \<Rightarrow> seg_entry list" where
  "view sg C b = map (ent sg) (C b)"

definition seg_get :: "Segment \<Rightarrow> nat \<Rightarrow> u16 \<Rightarrow> seg_entry option" where
  "seg_get sg b t = (case dirProbe t b (sg_dirs sg) of (hit, i, _, d) \<Rightarrow>
     if hit then Some (strip d, sg_ids sg ! i) else None)"

lemma strip_laws [simp]:
  "dir_tag (strip d) = dir_tag d" "dir_offset (strip d) = dir_offset d" "dir_phase (strip d) = dir_phase d"
  "dir_approxSize (strip d) = dir_approxSize d" "strip (dir_setNext n d) = strip d" "strip (strip d) = strip d"
  by (simp_all add: strip_def dir_tag_def dir_offset_def dir_phase_def dir_approxSize_def dir_setNext_def
      dir_bigInternal_def dir_sizeInternal_def)

lemma tag_ent [simp]: "dir_tag (fst (ent sg i)) = dir_tag (sg_dirs sg ! i)"
  by (simp add: ent_def)

section \<open>Probe results\<close>

lemma scan_hit:
  "\<forall>a\<in>set A. dir_tag (ds ! a) \<noteq> t \<Longrightarrow> dir_tag (ds ! x) = t \<Longrightarrow>
    scan t ds p (A @ x # B) = (True, x, last (p # A), ds ! x)"
  by (induction A arbitrary: p) auto

lemma scan_miss:
  "\<forall>a\<in>set A. dir_tag (ds ! a) \<noteq> t \<Longrightarrow> scan t ds p A = (False, 0, last (p # A), dir_zero)"
  by (induction A arbitrary: p) auto

lemma sg_inv_bucket: "sg_inv sg C F L \<Longrightarrow> b < sg_buckets sg \<Longrightarrow> bucket_ok (sg_dirs sg) b (C b)"
  by (simp add: seg_inv_def buckets_ok_def sg_buckets_eq)

lemma bucket_head_bound: "b < sg_buckets sg \<Longrightarrow> 4 * b + 3 < length (sg_dirs sg)"
  by (simp add: sg_buckets_eq)

lemma probe_cases:
  assumes "sg_inv sg C F L" and "b < sg_buckets sg"
  obtains (hit) A x B where "C b = A @ x # B" "\<forall>a\<in>set A. dir_tag (sg_dirs sg ! a) \<noteq> t"
      "dir_tag (sg_dirs sg ! x) = t" "dirProbe t b (sg_dirs sg) = (True, x, last (0 # A), sg_dirs sg ! x)"
    | (miss) i p where "\<forall>a\<in>set (C b). dir_tag (sg_dirs sg ! a) \<noteq> t"
      "dirProbe t b (sg_dirs sg) = (False, i, p, dir_zero)"
proof -
  have P: "dirProbe t b (sg_dirs sg) = (if C b = [] then (False, 4 * b, 0, dir_zero) else scan t (sg_dirs sg) 0 (C b))"
    using dirProbe_scan [OF sg_inv_bucket [OF assms]] bucket_head_bound [OF assms(2)] by simp
  show thesis
  proof (cases "\<exists>a\<in>set (C b). dir_tag (sg_dirs sg ! a) = t")
    case True
    from split_list_first_prop [OF this]
    obtain A x B where "C b = A @ x # B" "dir_tag (sg_dirs sg ! x) = t" "\<forall>a\<in>set A. dir_tag (sg_dirs sg ! a) \<noteq> t"
      by blast
    then show ?thesis using hit P scan_hit [of A "sg_dirs sg" t x 0 B] by auto
  next
    case False
    then show ?thesis using miss P scan_miss [of "C b" "sg_dirs sg" t 0] by (cases "C b = []") auto
  qed
qed

lemma seg_get_view:
  assumes "sg_inv sg C F L" and "b < sg_buckets sg"
  shows "seg_get sg b t = find (\<lambda>e. dir_tag (fst e) = t) (view sg C b)"
proof (rule probe_cases [OF assms, of t], goal_cases)
  case (1 A x B)
  from 1(2,3) have "find (\<lambda>e. dir_tag (fst e) = t) (map (ent sg) (A @ x # B)) = Some (ent sg x)"
    by (induction A) auto
  then show ?case using 1 by (simp add: seg_get_def view_def ent_def)
next
  case (2 i p)
  then have "find (\<lambda>e. dir_tag (fst e) = t) (view sg C b) = None"
    by (auto simp: find_None_iff view_def)
  then show ?case using 2 by (simp add: seg_get_def)
qed

lemma bucket_empty_iff: "bucket_ok ds b xs \<Longrightarrow> xs = [] \<longleftrightarrow> \<not> used ds (4 * b)"
  by (cases xs) (auto simp: bucket_ok_def)

section \<open>Replacing one bucket chain\<close>

lemma bucket_other_head: "bucket_ok ds b xs \<Longrightarrow> c \<noteq> b \<Longrightarrow> 4 * c \<notin> set xs"
  by (cases xs) (auto simp: bucket_ok_def)

lemma buckets_ok_upd:
  assumes bk: "buckets_ok ds C" and b: "b < length ds div 4" and len: "length ds' = length ds"
    and ok: "bucket_ok ds' b xs" and xb: "\<And>i. i \<in> set xs \<Longrightarrow> i \<in> set (C b) \<or> \<not> used ds i"
    and gone: "\<And>i. i \<in> set (C b) \<Longrightarrow> i \<notin> set xs \<Longrightarrow> \<not> used ds' i"
    and us: "\<And>i. i < length ds \<Longrightarrow> i \<notin> set xs \<Longrightarrow> i \<notin> set (C b) \<Longrightarrow> used ds' i = used ds i"
    and nxs: "\<And>i. i < length ds \<Longrightarrow> i \<notin> set xs \<Longrightarrow> i \<notin> set (C b) \<Longrightarrow> used ds i \<or> i mod 4 = 0 \<Longrightarrow> nx ds' i = nx ds i"
  shows "buckets_ok ds' (C(b := xs))"
proof -
  have okc: "bucket_ok ds c (C c)" if "c < length ds div 4" for c using bk that by (simp add: buckets_ok_def)
  have out: "i \<notin> set xs \<and> i \<notin> set (C b)" if "c < length ds div 4" "c \<noteq> b" "i \<in> set (C c)" for c i
    using that xb buckets_disjoint [OF bk that(1) b] okc [OF that(1)] by (auto simp: bucket_ok_def)
  have hd: "4 * c \<notin> set xs \<and> 4 * c \<notin> set (C b)" if "c \<noteq> b" for c
    using that bucket_other_head [OF ok] bucket_other_head [OF okc [OF b]] by blast
  have "bucket_ok ds' c ((C(b := xs)) c)" if c: "c < length ds div 4" for c
  proof (cases "c = b")
    case False
    have bd: "i < length ds \<and> used ds i" if "i \<in> set (C c)" for i
      using bucket_bound [OF okc [OF c] that] okc [OF c] that by (simp add: bucket_ok_def)
    have "lseg ds' (4 * c) (C c) 0 = lseg ds (4 * c) (C c) 0"
      using len bd nxs out [OF c False] by (intro lseg_cong) auto
    moreover have "4 * c < length ds" using c by auto
    ultimately show ?thesis
      using False okc [OF c] us nxs hd [OF False] bd out [OF c False] by (auto simp: bucket_ok_def)
  qed (simp add: ok)
  moreover have "set ((C(b := xs)) c) \<inter> set ((C(b := xs)) c') = {}"
    if "c < length ds div 4" "c' < length ds div 4" "c \<noteq> c'" for c c'
    using that out buckets_disjoint [OF bk that(1,2)] by auto
  moreover have "\<exists>c<length ds div 4. i \<in> set ((C(b := xs)) c)" if i: "i < length ds" "used ds' i" for i
  proof (cases "i \<in> set xs")
    case False
    then have n: "i \<notin> set (C b)" using gone i by blast
    with False have "used ds i" using us i by simp
    then obtain c where "c < length ds div 4" "i \<in> set (C c)" using bk i by (auto simp: buckets_ok_def)
    with n show ?thesis by (intro exI [of _ c]) auto
  qed (use b in auto)
  ultimately show ?thesis using bk len by (simp add: buckets_ok_def)
qed

section \<open>Finding a slot for a new entry\<close>

definition reserved :: "Segment \<Rightarrow> (nat \<Rightarrow> nat list) \<Rightarrow> nat list \<Rightarrow> nat \<Rightarrow> Segment \<Rightarrow> nat \<Rightarrow> (nat \<Rightarrow> nat list) \<Rightarrow> nat list \<Rightarrow> bool" where
  "reserved sg C F b sg' x C' F' \<longleftrightarrow> sg_inv sg' C' F' (if C b = [] then {} else {x}) \<and> kept sg C sg' C' \<and> C' b = C b \<and>
     (C b = [] \<longrightarrow> x = 4 * b) \<and> (F \<noteq> [] \<or> C b = [] \<longrightarrow> C' = C)"

lemma getFreeDir_ok:
  assumes inv: "sg_inv sg C F {}" and b: "b < sg_buckets sg" and own: "\<not> owns_all sg (C b)"
  shows "\<exists>sg' same x C' F'. getFreeDir rnd b sg = Some (sg', same, x) \<and> reserved sg C F b sg' x C' F'"
proof -
  have ok: "bucket_ok (sg_dirs sg) b (C b)" using sg_inv_bucket [OF inv b] .
  have bd: "4 * b + 3 < length (sg_dirs sg)" using bucket_head_bound [OF b] .
  have emp: "C b = [] \<longleftrightarrow> \<not> used (sg_dirs sg) (4 * b)"
    using ok by (rule bucket_empty_iff)
  let ?find = "find (\<lambda>i. dir_offset (sg_dirs sg ! (4 * b + i)) = 0) [1..<4]"
  show ?thesis
  proof (cases "C b = []")
    case True
    then show ?thesis using emp inv bd
      by (intro exI [of _ sg] exI [of _ True] exI [of _ "4 * b"] exI [of _ C] exI [of _ F])
        (simp add: getFreeDir_def idx_def DirDepth_def used_def reserved_def kept_refl mult.commute)
  next
    case False
    then have h: "dir_offset (sg_dirs sg ! (4 * b)) \<noteq> 0" using emp by (simp add: used_def)
    show ?thesis
    proof (cases ?find)
      case (Some i)
      then have i: "0 < i" "i < 4" "\<not> used (sg_dirs sg) (4 * b + i)"
        by (auto simp: find_Some_iff used_def)
      then have "4 * b + i \<in> set F"
        using inv bd by (auto simp: seg_inv_def)
      then obtain F1 F2 where F: "F = F1 @ (4 * b + i) # F2" by (meson split_list)
      then obtain sg' where "dm_freeChainDelete sg (4 * b + i) = Some sg'" "sg_inv sg' C (F1 @ F2) {4 * b + i}" "kept sg C sg' C"
        using free_delete_sg [of sg C F1 "4 * b + i" F2 "{}"] inv by auto
      then show ?thesis using False Some h bd
        by (intro exI [of _ sg'] exI [of _ True] exI [of _ "4 * b + i"] exI [of _ C] exI [of _ "F1 @ F2"])
          (simp add: getFreeDir_def idx_def DirDepth_def reserved_def mult.commute)
    next
      case None
      obtain r where r: "freeChainPop rnd b 0 sg = Some r" "popped sg C b r"
        using freeChainPop_ok [OF inv b own, of 0 rnd] by auto
      have "\<exists>C' F'. reserved sg C F b (fst r) (snd r) C' F'"
      proof (cases "F = []")
        case True
        then show ?thesis using r(2) False by (auto simp: popped_def reserved_def)
      next
        case F: False
        then show ?thesis
          using r(1) freeChainPop_free [OF inv F, of 0 rnd b] pop_first_ok [OF inv F] False
          by (auto simp: reserved_def)
      qed
      moreover have "getFreeDir rnd b sg = Some (fst r, False, snd r)"
        using None h bd r(1) by (cases r) (simp add: getFreeDir_def idx_def DirDepth_def mult.commute)
      ultimately show ?thesis by blast
    qed
  qed
qed

lemma getFreeDir_panic:
  assumes inv: "sg_inv sg C F {}" and b: "b < sg_buckets sg" and own: "owns_all sg (C b)"
  shows "getFreeDir rnd b sg = None"
proof -
  have bd: "4 * b + 3 < length (sg_dirs sg)" using bucket_head_bound [OF b] .
  have in1: "4 * b + i \<in> set (C b)" if "0 < i" "i < 4" for i
    using own that bd by (auto simp: owns_all_def)
  then have "C b \<noteq> []" using in1 [of 1] by auto
  then have "used (sg_dirs sg) (4 * b)"
    using bucket_empty_iff [OF sg_inv_bucket [OF inv b]] by simp
  moreover have "used (sg_dirs sg) (4 * b + i)" if "0 < i" "i < 4" for i
    using kept_inv_used(1) [OF inv b in1 [OF that]] .
  then have "find (\<lambda>i. dir_offset (sg_dirs sg ! (4 * b + i)) = 0) [1..<4] = None"
    by (auto simp: find_None_iff used_def)
  ultimately show ?thesis
    using bd freeChainPop_panic [OF inv b own]
    by (simp add: getFreeDir_def idx_def DirDepth_def used_def mult.commute)
qed

section \<open>Insertion\<close>

lemma lastDirOfBucket_chain:
  "lseg ds i xs 0 \<Longrightarrow> xs \<noteq> [] \<Longrightarrow> \<forall>x\<in>set (tl xs). x \<noteq> 0 \<Longrightarrow> lastDirOfBucket ds i = Some (last xs)"
proof (induction xs arbitrary: i)
  case (Cons x xs)
  show ?case
  proof (cases xs)
    case Nil
    then show ?thesis using Cons.prems by (subst lastDirOfBucket.simps) (simp add: nx_def unat_eq_zero)
  next
    case (Cons y ys)
    then have "nx ds x \<noteq> 0" "lastDirOfBucket ds (nx ds x) = Some (last xs)"
      using Cons.prems Cons.IH [of "nx ds x"] by auto
    then show ?thesis using Cons.prems Cons by (subst lastDirOfBucket.simps) (auto simp: nx_def unat_eq_zero)
  qed
qed simp

definition link_entry :: "Dir list \<Rightarrow> nat \<Rightarrow> nat \<Rightarrow> Dir \<Rightarrow> nat list \<Rightarrow> Dir list" where
  "link_entry ds b x d xs = (if xs = [] then ds[x := d]
     else ds[x := d, last xs := dir_setNext (of_nat x) (ds ! last xs)])"

lemma link_fields:
  assumes "x < length ds" "xs = [] \<or> last xs < length ds \<and> last xs \<noteq> x" "x < 65536" "dir_next d = 0" "dir_offset d \<noteq> 0"
  shows "length (link_entry ds b x d xs) = length ds"
    "nx (link_entry ds b x d xs) i = (if i = x then 0 else if xs \<noteq> [] \<and> i = last xs then x else nx ds i)"
    "used (link_entry ds b x d xs) i = (i = x \<or> used ds i)"
    "i \<noteq> x \<Longrightarrow> strip (link_entry ds b x d xs ! i) = strip (ds ! i)"
    "strip (link_entry ds b x d xs ! x) = strip d"
    "i \<noteq> x \<Longrightarrow> pv (link_entry ds b x d xs) i = pv ds i"
  using assms unat_of_nat_u16 [OF assms(3)]
  by (auto simp: link_entry_def nx_def pv_def used_def nth_list_update split: if_splits)

lemma slot_facts:
  assumes inv: "sg_inv sg C F (if C b = [] then {} else {x})" and b: "b < sg_buckets sg"
    and x: "C b = [] \<longrightarrow> x = 4 * b"
  shows "\<not> used (sg_dirs sg) x" "x \<notin> set F" "x < length (sg_dirs sg)" "x < 65536" "C b \<noteq> [] \<longrightarrow> x mod 4 \<noteq> 0"
    "x \<notin> set (C b)" "C b = [] \<or> last (C b) < length (sg_dirs sg) \<and> last (C b) \<noteq> x \<and> last (C b) \<notin> set F"
proof -
  have ok: "bucket_ok (sg_dirs sg) b (C b)" using sg_inv_bucket [OF inv b] .
  have bd: "4 * b + 3 < length (sg_dirs sg)" "length (sg_dirs sg) \<le> 65536" using bucket_head_bound [OF b] inv
    by (auto simp: seg_inv_def buckets_ok_def)
  have "\<not> used (sg_dirs sg) x \<and> x \<notin> set F \<and> x < length (sg_dirs sg) \<and> (C b \<noteq> [] \<longrightarrow> x mod 4 \<noteq> 0)"
  proof (cases "C b = []")
    case True
    have "free_ok (sg_dirs sg) (unat (sg_free sg)) F" using inv by (simp add: seg_inv_def)
    then show ?thesis
      using True x bd bucket_empty_iff [OF ok] by (auto simp: free_ok_def)
  next
    case False
    then show ?thesis
      using inv by (simp add: seg_inv_def)
  qed
  then show u: "\<not> used (sg_dirs sg) x" "x \<notin> set F" "x < length (sg_dirs sg)" "C b \<noteq> [] \<longrightarrow> x mod 4 \<noteq> 0"
    by blast+
  show "x < 65536" using u bd by simp
  show n: "x \<notin> set (C b)" using ok u by (auto simp: bucket_ok_def)
  show "C b = [] \<or> last (C b) < length (sg_dirs sg) \<and> last (C b) \<noteq> x \<and> last (C b) \<notin> set F"
    using bucket_bound [OF ok] n kept_inv_used(3) [OF inv b] last_in_set by metis
qed

lemma link_ok:
  assumes inv: "sg_inv sg C F (if C b = [] then {} else {x})" and b: "b < sg_buckets sg"
    and x: "C b = [] \<longrightarrow> x = 4 * b" and len: "length ds' = length (sg_dirs sg)"
    and nx': "\<And>i. nx ds' i = (if i = x then 0 else if C b \<noteq> [] \<and> i = last (C b) then x else nx (sg_dirs sg) i)"
    and us': "\<And>i. used ds' i = (i = x \<or> used (sg_dirs sg) i)"
    and pv': "\<And>i. i \<noteq> x \<Longrightarrow> pv ds' i = pv (sg_dirs sg) i"
  shows "seg_inv ds' (unat (sg_free sg)) (C(b := C b @ [x])) F {}"
proof -
  let ?ds = "sg_dirs sg" and ?f = "unat (sg_free sg)"
  have ok: "bucket_ok ?ds b (C b)" using sg_inv_bucket [OF inv b] .
  note sf = slot_facts [OF inv b x]
  have "lseg ds' (if C b = [] then x else 4 * b) (C b @ [x]) 0"
  proof (cases "C b = []")
    case False
    then have "lseg ?ds (4 * b) (C b) 0" "distinct (C b @ [x])" using ok sf by (auto simp: bucket_ok_def)
    from lseg_snoc [OF this len sf(3)] show ?thesis using nx' False by simp
  qed (use sf len nx' in simp)
  then have okl: "bucket_ok ds' b (C b @ [x])"
    using x ok sf us' by (cases "C b") (auto simp: bucket_ok_def)
  have "buckets_ok ds' (C(b := C b @ [x]))"
    by (rule buckets_ok_upd [OF sg_inv_buckets [OF inv] _ len okl])
      (use b sf nx' us' in \<open>auto simp: sg_buckets_eq\<close>)
  moreover have "free_ok ds' ?f F"
  proof -
    have "free_ok ?ds ?f F" using inv by (simp add: seg_inv_def)
    moreover have "lseg ds' ?f F 0 = lseg ?ds ?f F 0"
      using sf nx' by (intro lseg_cong len) auto
    moreover have "bseg ds' 0 F = bseg ?ds 0 F"
      using sf by (intro bseg_cong pv') auto
    ultimately show ?thesis using sf us' by (auto simp: free_ok_def)
  qed
  ultimately show ?thesis
    using inv x us' len by (auto simp: seg_inv_def split: if_splits)
qed

lemma link_run:
  assumes inv: "sg_inv sg C F (if C b = [] then {} else {x})" and b: "b < sg_buckets sg"
    and x: "C b = [] \<longrightarrow> x = 4 * b"
  shows "do { dirs \<leftarrow> modify (sg_dirs sg) x (\<lambda>_. d);
              dirs \<leftarrow> (if x \<noteq> b * DirDepth then do {
                l \<leftarrow> lastDirOfBucket dirs (b * DirDepth); modify dirs l (dir_setNext (of_nat x)) }
              else Some dirs);
              Some (sg\<lparr>sg_dirs := dirs\<rparr>, x) } = Some (sg\<lparr>sg_dirs := link_entry (sg_dirs sg) b x d (C b)\<rparr>, x)"
proof -
  let ?ds = "sg_dirs sg"
  have ok: "bucket_ok ?ds b (C b)" using sg_inv_bucket [OF inv b] .
  note sf = slot_facts [OF inv b x]
  show ?thesis
  proof (cases "C b = []")
    case False
    have "lseg (?ds[x := d]) (4 * b) (C b) 0"
      using ok sf False by (subst lseg_cong [of _ ?ds]) (auto simp: bucket_ok_def nx_update)
    then have "lastDirOfBucket (?ds[x := d]) (4 * b) = Some (last (C b))"
      by (rule lastDirOfBucket_chain) (use ok False in \<open>auto simp: bucket_ok_def\<close>)
    moreover have "x \<noteq> 4 * b" using sf False by auto
    ultimately show ?thesis
      using False sf by (simp add: modify_def DirDepth_def link_entry_def mult.commute)
  qed (use x sf in \<open>simp add: modify_def DirDepth_def link_entry_def mult.commute\<close>)
qed


text \<open>A segment is well formed when some chains and some free chain describe it, no bucket holds
  a tag twice and every slot has an identity.\<close>

definition tags_distinct :: "Segment \<Rightarrow> (nat \<Rightarrow> nat list) \<Rightarrow> bool" where
  "tags_distinct sg C \<longleftrightarrow> (\<forall>b < sg_buckets sg. distinct (map (\<lambda>i. dir_tag (sg_dirs sg ! i)) (C b)))"

text \<open>The chains after an insertion into bucket \<open>b\<close>, and what the segment then holds.\<close>

definition inserted :: "Segment \<Rightarrow> (nat \<Rightarrow> nat list) \<Rightarrow> u16 \<Rightarrow> nat \<Rightarrow> Dir \<Rightarrow> Segment \<Rightarrow> nat \<Rightarrow> (nat \<Rightarrow> nat list) \<Rightarrow> bool" where
  "inserted sg C t b d sg' x C' \<longleftrightarrow>
     length (sg_dirs sg') = length (sg_dirs sg) \<and> sg_ids sg' = sg_ids sg \<and> x \<in> set (C' b) \<and>
     strip (sg_dirs sg' ! x) = strip d \<and> (x \<in> set (C b) \<longrightarrow> dir_tag (sg_dirs sg ! x) = t) \<and>
     (C' b = C b \<or> C' b = C b @ [x] \<and> (\<forall>i\<in>set (C b). dir_tag (sg_dirs sg ! i) \<noteq> t)) \<and>
     (\<forall>i\<in>set (C b). i \<noteq> x \<longrightarrow> strip (sg_dirs sg' ! i) = strip (sg_dirs sg ! i)) \<and>
     (\<forall>c < sg_buckets sg. c \<noteq> b \<longrightarrow> (C' c = C c \<or> C' c = []) \<and> x \<notin> set (C' c) \<and>
        (\<forall>i\<in>set (C' c). strip (sg_dirs sg' ! i) = strip (sg_dirs sg ! i)))"

lemma dirInsert_hit:
  assumes inv: "sg_inv sg C F {}" and b: "b < sg_buckets sg" and d: "dir_offset d \<noteq> 0"
    and C: "C b = A @ x # B" and t: "dir_tag (sg_dirs sg ! x) = t"
    and p: "dirProbe t b (sg_dirs sg) = (True, x, q, e)"
  shows "\<exists>sg'. dirInsert rnd t b d sg = Some (sg', x) \<and> sg_inv sg' C F {} \<and> inserted sg C t b d sg' x C"
proof -
  let ?ds = "(sg_dirs sg)[x := dir_setNext (dir_next (sg_dirs sg ! x)) d]"
  let ?sg = "sg\<lparr>sg_dirs := ?ds\<rparr>"
  have x: "x \<in> set (C b)" using C by simp
  note k = kept_inv_used [OF inv b x]
  have nxe: "nx ?ds i = nx (sg_dirs sg) i" "used ?ds i = used (sg_dirs sg) i" for i
    using k d by (auto simp: nx_def used_def nth_list_update)
  have pve: "i \<noteq> x \<Longrightarrow> pv ?ds i = pv (sg_dirs sg) i" for i
    by (simp add: pv_def)
  have "buckets_ok ?ds C"
    by (rule buckets_ok_cong [OF sg_inv_buckets [OF inv]]) (simp_all add: nxe)
  moreover have "free_ok ?ds (unat (sg_free sg)) F"
  proof -
    have "lseg ?ds (unat (sg_free sg)) F 0 = lseg (sg_dirs sg) (unat (sg_free sg)) F 0"
      by (rule lseg_cong) (simp_all add: nxe)
    moreover have "bseg ?ds 0 F = bseg (sg_dirs sg) 0 F"
      using k(3) by (intro bseg_cong pve) auto
    ultimately show ?thesis using inv by (simp add: seg_inv_def free_ok_def nxe)
  qed
  ultimately have "sg_inv ?sg C F {}" using inv by (simp add: seg_inv_def nxe)
  moreover have "x \<notin> set (C c)" if "c < sg_buckets sg" "c \<noteq> b" for c
    using buckets_disjoint [OF sg_inv_buckets [OF inv], of b c x] that b x by (auto simp: sg_buckets_eq)
  then have "inserted sg C t b d ?sg x C"
    using x k t by (auto simp: inserted_def nth_list_update)
  moreover have "dirInsert rnd t b d sg = Some (?sg, x)"
    using p by (simp add: dirInsert_def)
  ultimately show ?thesis by blast
qed

lemma dirInsert_miss:
  assumes inv: "sg_inv sg C F {}" and b: "b < sg_buckets sg" and d: "dir_offset d \<noteq> 0" "dir_next d = 0"
    and own: "\<not> owns_all sg (C b)" and t: "\<forall>i\<in>set (C b). dir_tag (sg_dirs sg ! i) \<noteq> t"
    and p: "dirProbe t b (sg_dirs sg) = (False, q, r, e)"
  shows "\<exists>sg' x C' F'. dirInsert rnd t b d sg = Some (sg', x) \<and> sg_inv sg' C' F' {} \<and>
    inserted sg C t b d sg' x C' \<and> (F \<noteq> [] \<or> C b = [] \<longrightarrow> (\<forall>c. c \<noteq> b \<longrightarrow> C' c = C c))"
proof -
  obtain sg1 same x C1 F1 where g: "getFreeDir rnd b sg = Some (sg1, same, x)" "reserved sg C F b sg1 x C1 F1"
    using getFreeDir_ok [OF inv b own] by blast
  let ?ds = "link_entry (sg_dirs sg1) b x d (C1 b)" and ?C = "C1(b := C1 b @ [x])"
  have r: "sg_inv sg1 C1 F1 (if C1 b = [] then {} else {x})" "kept sg C sg1 C1" "C1 b = C b"
    "C1 b = [] \<longrightarrow> x = 4 * b" "F \<noteq> [] \<or> C b = [] \<longrightarrow> C1 = C" "b < sg_buckets sg1"
    using g(2) b by (auto simp: reserved_def kept_def sg_buckets_def)
  note sf = slot_facts [OF r(1,6,4)]
  have la: "C1 b = [] \<or> last (C1 b) < length (sg_dirs sg1) \<and> last (C1 b) \<noteq> x" using sf(7) by blast
  note fl = link_fields [OF sf(3) la sf(4) d(2,1)]
  have i: "seg_inv ?ds (unat (sg_free sg1)) ?C F1 {}"
    by (rule link_ok [OF r(1,6,4)]) (simp_all add: fl)
  have xc: "x \<notin> set (C1 c)" if "c < sg_buckets sg" for c
    using kept_inv_used(1) [OF r(1), of c x] sf(1) that r(2) by (auto simp: kept_def sg_buckets_def)
  have same: "strip (?ds ! i) = strip (sg_dirs sg ! i)" if c: "c < sg_buckets sg" "i \<in> set (C1 c)" for c i
  proof -
    have "i \<noteq> x" using xc [OF c(1)] c(2) by auto
    then show ?thesis using fl(4) r(2) c by (auto simp: kept_def)
  qed
  have "inserted sg C t b d (sg1\<lparr>sg_dirs := ?ds\<rparr>) x ?C"
    using r(2,3) t xc b sf(6) fl(5) same fl(1) unfolding inserted_def kept_def by auto
  moreover have "dirInsert rnd t b d sg = Some (sg1\<lparr>sg_dirs := ?ds\<rparr>, x)"
    using p g(1) link_run [OF r(1,6,4), of d] by (simp add: dirInsert_def)
  moreover have "sg_inv (sg1\<lparr>sg_dirs := ?ds\<rparr>) ?C F1 {}" using i by simp
  ultimately show ?thesis using r(5) by auto
qed

lemma dirInsert_panic:
  assumes inv: "sg_inv sg C F {}" and b: "b < sg_buckets sg" and own: "owns_all sg (C b)"
    and t: "\<forall>i\<in>set (C b). dir_tag (sg_dirs sg ! i) \<noteq> t"
  shows "dirInsert rnd t b d sg = None"
  using t getFreeDir_panic [OF inv b own]
  by (rule_tac probe_cases [OF inv b, of t]) (auto simp: dirInsert_def)

text \<open>Deleting: the chain without the slot, and the slot back on the free chain.\<close>

definition deleted :: "Segment \<Rightarrow> (nat \<Rightarrow> nat list) \<Rightarrow> nat list \<Rightarrow> nat \<Rightarrow> u16 \<Rightarrow> Segment \<Rightarrow> (nat \<Rightarrow> nat list) \<Rightarrow> bool" where
  "deleted sg C F b t sg' C' \<longleftrightarrow>
     length (sg_dirs sg') = length (sg_dirs sg) \<and> length (sg_ids sg') = length (sg_ids sg) \<and>
     (\<forall>c. c \<noteq> b \<longrightarrow> C' c = C c) \<and>
     (F \<noteq> [] \<or> \<not> used (sg_dirs sg) 0 \<or> C b = [4 * b] \<longrightarrow>
        (\<forall>c < sg_buckets sg. c \<noteq> b \<longrightarrow> view sg' C' c = view sg C c) \<and>
        (\<exists>A e B. view sg C b = A @ e # B \<and> dir_tag (fst e) = t \<and> (\<forall>a\<in>set A. dir_tag (fst a) \<noteq> t) \<and>
           view sg' C' b = A @ B))"

lemma detach_ok:
  assumes inv: "seg_inv ds f C F {}" and b: "b < length ds div 4" and len: "length ds' = length ds"
    and ok: "bucket_ok ds' b xs" and sub: "set xs \<subseteq> set (C b)"
    and gone: "\<And>i. i \<in> set (C b) \<Longrightarrow> i \<notin> set xs \<Longrightarrow> \<not> used ds' i"
    and same: "\<And>i. i \<notin> set (C b) \<Longrightarrow> ds' ! i = ds ! i"
  shows "seg_inv ds' f (C(b := xs)) F (set (C b) - set xs - {4 * b})"
proof -
  have bk: "buckets_ok ds C" and fo: "free_ok ds f F" using inv by (auto simp: seg_inv_def)
  have okb: "bucket_ok ds b (C b)" using bk b by (simp add: buckets_ok_def)
  have FC: "i \<notin> set (C b)" if "i \<in> set F" for i
    using fo okb that by (auto simp: free_ok_def bucket_ok_def)
  have eq: "nx ds' i = nx ds i" "pv ds' i = pv ds i" "used ds' i = used ds i" if "i \<notin> set (C b)" for i
    using same [OF that] by (simp_all add: nx_def pv_def used_def)
  have "buckets_ok ds' (C(b := xs))"
    by (rule buckets_ok_upd [OF bk b len ok]) (use sub gone eq in auto)
  moreover have "free_ok ds' f F"
  proof -
    have "lseg ds' f F 0 = lseg ds f F 0" using FC eq by (intro lseg_cong len) auto
    moreover have "bseg ds' 0 F = bseg ds 0 F" using FC eq by (intro bseg_cong) auto
    ultimately show ?thesis using fo FC eq by (auto simp: free_ok_def)
  qed
  moreover have "x < length ds' \<and> x mod 4 \<noteq> 0 \<and> \<not> used ds' x \<and> x \<notin> set F" if x: "x \<in> set (C b) - set xs - {4 * b}" for x
  proof -
    have "x \<in> set (tl (C b))" using x bucket_hd [OF okb] by (cases "C b") auto
    then have "x mod 4 \<noteq> 0" using okb by (simp add: bucket_ok_def)
    then show ?thesis using x gone FC len bucket_bound [OF okb] by auto
  qed
  moreover have "i \<in> set F \<union> (set (C b) - set xs - {4 * b})" if i: "i < length ds'" "i mod 4 \<noteq> 0 \<and> \<not> used ds' i" for i
  proof (cases "i \<in> set (C b)")
    case True
    then have "i \<notin> set xs" using i ok by (auto simp: bucket_ok_def)
    then show ?thesis using True i by auto
  next
    case False
    then show ?thesis using i inv len eq by (auto simp: seg_inv_def)
  qed
  ultimately show ?thesis unfolding seg_inv_def by blast
qed

lemma put_back:
  assumes inv: "sg_inv sg C F {y}" and z: "sg_dirs sg ! y = dir_zero"
  shows "\<exists>sg'. dm_freeChainSet sg y = Some sg' \<and> sg_inv sg' C (y # F) {} \<and> sg_ids sg' = sg_ids sg \<and>
    length (sg_dirs sg') = length (sg_dirs sg) \<and>
    (F \<noteq> [] \<or> \<not> used (sg_dirs sg) 0 \<longrightarrow> (\<forall>c < sg_buckets sg. \<forall>i\<in>set (C c). sg_dirs sg' ! i = sg_dirs sg ! i))"
proof -
  let ?f = "unat (sg_free sg)"
  obtain ds' where r: "dm_freeChainSet sg y = Some (sg\<lparr>sg_dirs := ds', sg_free := of_nat y\<rparr>)"
    "seg_inv ds' y C (y # F) ({y} - {y})" "length ds' = length (sg_dirs sg)"
    "ds' = (sg_dirs sg)[?f := dir_setPrev (of_nat y) (sg_dirs sg ! ?f), y := dir_setNext (sg_free sg) (sg_dirs sg ! y)]"
    "?f \<noteq> y" "?f = 0 \<or> ?f \<in> set F"
    using free_set [OF inv, of y] z by (auto simp: pv_def)
  have y: "y < 65536" "\<not> used (sg_dirs sg) y" using inv by (auto simp: seg_inv_def buckets_ok_def)
  have "ds' ! i = sg_dirs sg ! i" if F: "F \<noteq> [] \<or> \<not> used (sg_dirs sg) 0" and c: "c < sg_buckets sg" "i \<in> set (C c)" for c i
  proof -
    have "?f \<in> set F" if "F \<noteq> []" using inv that by (cases F) (auto simp: seg_inv_def free_ok_def)
    then have "i \<noteq> ?f" "i \<noteq> y"
      using kept_inv_used [OF inv c] F y r(6) by auto
    then show ?thesis by (simp add: r(4))
  qed
  then show ?thesis using r(1-3) unat_of_nat_u16 [OF y(1)] by auto
qed

lemma other_bucket_slot:
  assumes "sg_inv sg C F L" "b < sg_buckets sg" "c < sg_buckets sg" "c \<noteq> b" "i \<in> set (C c)"
  shows "i \<notin> set (C b)"
  using buckets_disjoint [OF sg_inv_buckets [OF assms(1)], of b c i] assms by (auto simp: sg_buckets_eq)

lemma deletedI:
  assumes inv: "sg_inv sg C F {}" and b: "b < sg_buckets sg" and C: "C b = A @ x # B"
    and t: "dir_tag (sg_dirs sg ! x) = t" "\<forall>a\<in>set A. dir_tag (sg_dirs sg ! a) \<noteq> t"
    and len: "length (sg_dirs sg') = length (sg_dirs sg)" "length (sg_ids sg') = length (sg_ids sg)"
    and view: "F \<noteq> [] \<or> \<not> used (sg_dirs sg) 0 \<or> C b = [4 * b] \<Longrightarrow>
      map (ent sg') xs = map (ent sg) (A @ B) \<and>
      (\<forall>c < sg_buckets sg. c \<noteq> b \<longrightarrow> (\<forall>i\<in>set (C c). ent sg' i = ent sg i))"
  shows "deleted sg C F b t sg' (C(b := xs))"
proof -
  have "(\<forall>c < sg_buckets sg. c \<noteq> b \<longrightarrow> Dir_Ops.view sg' (C(b := xs)) c = Dir_Ops.view sg C c) \<and>
    (\<exists>A e B. Dir_Ops.view sg C b = A @ e # B \<and> dir_tag (fst e) = t \<and> (\<forall>a\<in>set A. dir_tag (fst a) \<noteq> t) \<and>
       Dir_Ops.view sg' (C(b := xs)) b = A @ B)"
    if "F \<noteq> [] \<or> \<not> used (sg_dirs sg) 0 \<or> C b = [4 * b]"
  proof (intro conjI exI)
    show "\<forall>c < sg_buckets sg. c \<noteq> b \<longrightarrow> Dir_Ops.view sg' (C(b := xs)) c = Dir_Ops.view sg C c"
      using view [OF that] by (simp add: view_def)
    show "Dir_Ops.view sg C b = map (ent sg) A @ ent sg x # map (ent sg) B" by (simp add: view_def C)
    show "dir_tag (fst (ent sg x)) = t" "\<forall>a\<in>set (map (ent sg) A). dir_tag (fst a) \<noteq> t" using t by auto
    show "Dir_Ops.view sg' (C(b := xs)) b = map (ent sg) A @ map (ent sg) B"
      using view [OF that] by (simp add: view_def)
  qed
  then show ?thesis using len by (simp add: deleted_def)
qed

lemma dirDelete_head_last:
  assumes inv: "sg_inv sg C F {}" and b: "b < sg_buckets sg" and C: "C b = [4 * b]"
    and t: "dir_tag (sg_dirs sg ! (4 * b)) = t" and p: "dirProbe t b (sg_dirs sg) = (True, 4 * b, q, e)"
  shows "\<exists>sg' F'. dirDelete t b sg = Some (sg', 4 * b) \<and> sg_inv sg' (C(b := [])) F' {} \<and>
    (F \<noteq> [] \<longrightarrow> F' \<noteq> []) \<and> deleted sg C F b t sg' (C(b := []))"
proof -
  let ?ds = "(sg_dirs sg)[4 * b := dir_zero]"
  let ?sg = "sg\<lparr>sg_dirs := ?ds, sg_ids := (sg_ids sg)[4 * b := zero_ident]\<rparr>"
  have bd: "4 * b < length (sg_dirs sg)" using bucket_head_bound [OF b] by simp
  have ok: "bucket_ok (sg_dirs sg) b [4 * b]" using sg_inv_bucket [OF inv b] C by simp
  have "seg_inv ?ds (unat (sg_free sg)) (C(b := [])) F (set (C b) - set [] - {4 * b})"
    by (rule detach_ok [OF inv]) (use b bd C in \<open>auto simp: sg_buckets_eq bucket_ok_def used_def nx_def\<close>)
  then have "sg_inv ?sg (C(b := [])) F {}" using C by simp
  moreover have "dirDelete t b sg = Some (?sg, 4 * b)"
    using p ok bd by (simp add: dirDelete_def DirDepth_def bucket_ok_def nx_def mult.commute)
  moreover have "4 * b \<noteq> i" if "c < sg_buckets sg" "c \<noteq> b" "i \<in> set (C c)" for c i
    using other_bucket_slot [OF inv b that] C by auto
  then have "deleted sg C F b t ?sg (C(b := []))"
    by (intro deletedI [OF inv b, of "[]" "4 * b" "[]"]) (use C t in \<open>auto simp: ent_def\<close>)
  ultimately show ?thesis by blast
qed

lemma dirDelete_head_next:
  assumes inv: "sg_inv sg C F {}" and b: "b < sg_buckets sg" and C: "C b = 4 * b # y # ys"
    and t: "dir_tag (sg_dirs sg ! (4 * b)) = t" and p: "dirProbe t b (sg_dirs sg) = (True, 4 * b, q, e)"
    and ids: "length (sg_ids sg) = length (sg_dirs sg)"
  shows "\<exists>sg' F'. dirDelete t b sg = Some (sg', 4 * b) \<and> sg_inv sg' (C(b := 4 * b # ys)) F' {} \<and>
    (F \<noteq> [] \<longrightarrow> F' \<noteq> []) \<and> deleted sg C F b t sg' (C(b := 4 * b # ys))"
proof -
  let ?ds = "(sg_dirs sg)[4 * b := sg_dirs sg ! y, y := dir_zero]"
  let ?sg = "sg\<lparr>sg_dirs := ?ds, sg_ids := (sg_ids sg)[4 * b := sg_ids sg ! y, y := zero_ident]\<rparr>"
  have ok: "bucket_ok (sg_dirs sg) b (4 * b # y # ys)" using sg_inv_bucket [OF inv b] C by simp
  have bd: "4 * b < length (sg_dirs sg)" "y < length (sg_dirs sg)" "y \<noteq> 4 * b" "y \<noteq> 0"
    and dy: "y \<notin> set ys" "4 * b \<notin> set ys" and nx: "nx (sg_dirs sg) (4 * b) = y"
    and ub: "dir_offset (sg_dirs sg ! (4 * b)) \<noteq> 0"
    using ok by (auto simp: bucket_ok_def used_def)
  have ysn: "?ds ! i = sg_dirs sg ! i" if "i \<in> set ys" for i
  proof -
    have "4 * b \<noteq> i" "y \<noteq> i" using dy that by auto
    then show ?thesis by simp
  qed
  have okx: "bucket_ok ?ds b (4 * b # ys)"
  proof -
    have "lseg (sg_dirs sg) (nx (sg_dirs sg) y) ys 0" using ok by (simp add: bucket_ok_def)
    then have "lseg ?ds (nx (sg_dirs sg) y) ys 0"
      using ysn by (subst lseg_cong [of _ "sg_dirs sg"]) (auto simp: nx_def)
    then show ?thesis using ok bd ysn by (auto simp: bucket_ok_def nx_def used_def nth_list_update)
  qed
  have "seg_inv ?ds (unat (sg_free sg)) (C(b := 4 * b # ys)) F (set (C b) - set (4 * b # ys) - {4 * b})"
    by (rule detach_ok [OF inv _ _ okx]) (use b bd C in \<open>auto simp: sg_buckets_eq used_def nth_list_update\<close>)
  moreover have "set (C b) - set (4 * b # ys) - {4 * b} = {y}" using C dy bd by auto
  ultimately have i1: "sg_inv ?sg (C(b := 4 * b # ys)) F {y}" by simp
  obtain sg' where r: "dm_freeChainSet ?sg y = Some sg'" "sg_inv sg' (C(b := 4 * b # ys)) (y # F) {}"
    "sg_ids sg' = sg_ids ?sg" "length (sg_dirs sg') = length (sg_dirs ?sg)"
    "F \<noteq> [] \<or> \<not> used ?ds 0 \<longrightarrow> (\<forall>c < sg_buckets sg. \<forall>i\<in>set ((C(b := 4 * b # ys)) c). sg_dirs sg' ! i = ?ds ! i)"
    using put_back [OF i1] bd by (auto simp: sg_buckets_def)
  have run: "dirDelete t b sg = Some (sg', 4 * b)"
    using p bd nx r(1) ids by (simp add: dirDelete_def DirDepth_def nx_def idx_def mult.commute list_update_swap)
  have "deleted sg C F b t sg' (C(b := 4 * b # ys))"
  proof (rule deletedI [OF inv b, of "[]" "4 * b" "y # ys"])
    assume "F \<noteq> [] \<or> \<not> used (sg_dirs sg) 0 \<or> C b = [4 * b]"
    then have "F \<noteq> [] \<or> \<not> used ?ds 0" using C bd ub by (auto simp: used_def nth_list_update split: if_splits)
    with r(5) have e: "sg_dirs sg' ! i = ?ds ! i" if "c < sg_buckets sg" "i \<in> set ((C(b := 4 * b # ys)) c)" for c i
      using that by blast
    have "ent sg' i = ent sg i" if c: "c < sg_buckets sg" "c \<noteq> b" "i \<in> set (C c)" for c i
      using e [of c i] c other_bucket_slot [OF inv b c] C r(3) by (auto simp: ent_def)
    moreover have "ent sg' (4 * b) = ent sg y" "i \<in> set ys \<Longrightarrow> ent sg' i = ent sg i" for i
      using e [OF b] r(3) bd dy ids ysn by (auto simp: ent_def nth_list_update)
    ultimately show "map (ent sg') (4 * b # ys) = map (ent sg) ([] @ y # ys) \<and>
        (\<forall>c < sg_buckets sg. c \<noteq> b \<longrightarrow> (\<forall>i\<in>set (C c). ent sg' i = ent sg i))" by auto
  qed (use C t r(3,4) in auto)
  with run r(2) show ?thesis by blast
qed

lemma dirDelete_inner:
  assumes inv: "sg_inv sg C F {}" and b: "b < sg_buckets sg" and C: "C b = A @ x # B" and A: "A \<noteq> []"
    and t: "dir_tag (sg_dirs sg ! x) = t" "\<forall>a\<in>set A. dir_tag (sg_dirs sg ! a) \<noteq> t"
    and p: "dirProbe t b (sg_dirs sg) = (True, x, last A, e)"
  shows "\<exists>sg' F'. dirDelete t b sg = Some (sg', x) \<and> sg_inv sg' (C(b := A @ B)) F' {} \<and>
    (F \<noteq> [] \<longrightarrow> F' \<noteq> []) \<and> deleted sg C F b t sg' (C(b := A @ B))"
proof -
  let ?ds = "(sg_dirs sg)[last A := dir_setNext (dir_next (sg_dirs sg ! x)) (sg_dirs sg ! last A), x := dir_zero]"
  let ?sg = "sg\<lparr>sg_dirs := ?ds, sg_ids := (sg_ids sg)[x := zero_ident]\<rparr>"
  have ok: "bucket_ok (sg_dirs sg) b (A @ x # B)" using sg_inv_bucket [OF inv b] C by simp
  have lA: "last A \<in> set A" using A by simp
  have dj: "x \<notin> set A" "x \<notin> set B" "last A \<noteq> x" "last A \<notin> set B" "distinct (A @ x # B)"
    using ok lA by (auto simp: bucket_ok_def)
  have bd: "x < length (sg_dirs sg)" "last A < length (sg_dirs sg)"
    using bucket_bound [OF ok] lA by auto
  have hd: "hd A = 4 * b" "x \<noteq> 4 * b" using bucket_hd [OF ok] dj A by (cases A; auto)+
  have l: "lseg (sg_dirs sg) (4 * b) (A @ x # B) 0" using ok by (auto simp: bucket_ok_def)
  have se: "strip (?ds ! i) = strip (sg_dirs sg ! i)" "used ?ds i = used (sg_dirs sg) i" if "i \<noteq> x" for i
    using bd dj that by (auto simp: nth_list_update used_def)
  have nxA: "x \<noteq> i" if "i \<in> set (A @ B)" for i using that dj by auto
  have "lseg ?ds (4 * b) (A @ B) 0"
  proof -
    let ?d1 = "(sg_dirs sg)[last A := dir_setNext (dir_next (sg_dirs sg ! x)) (sg_dirs sg ! last A)]"
    have "lseg ?d1 (4 * b) (A @ B) 0"
      using unlink_lseg [OF l dj(5), of ?d1] A bd by (simp add: nx_update nx_def)
    then show ?thesis using nxA by (subst lseg_cong [of _ ?d1]) (auto simp: nx_def)
  qed
  moreover have "used ?ds i" if "i \<in> set (A @ B)" for i
    using se(2) [of i] nxA [OF that] that ok by (auto simp: bucket_ok_def)
  ultimately have okx: "bucket_ok ?ds b (A @ B)"
    using ok A by (simp add: bucket_ok_def)
  have "seg_inv ?ds (unat (sg_free sg)) (C(b := A @ B)) F (set (C b) - set (A @ B) - {4 * b})"
    by (rule detach_ok [OF inv _ _ okx]) (use b bd C lA in \<open>auto simp: sg_buckets_eq used_def nth_list_update\<close>)
  moreover have "set (C b) - set (A @ B) - {4 * b} = {x}" using C dj hd by auto
  ultimately have i1: "sg_inv ?sg (C(b := A @ B)) F {x}" by simp
  obtain sg' where r: "dm_freeChainSet ?sg x = Some sg'" "sg_inv sg' (C(b := A @ B)) (x # F) {}"
    "sg_ids sg' = sg_ids ?sg" "length (sg_dirs sg') = length (sg_dirs ?sg)"
    "F \<noteq> [] \<or> \<not> used ?ds 0 \<longrightarrow> (\<forall>c < sg_buckets sg. \<forall>i\<in>set ((C(b := A @ B)) c). sg_dirs sg' ! i = ?ds ! i)"
    using put_back [OF i1] bd by (auto simp: sg_buckets_def)
  have run: "dirDelete t b sg = Some (sg', x)"
    using p bd hd(2) r(1) by (simp add: dirDelete_def DirDepth_def modify_def mult.commute)
  have "deleted sg C F b t sg' (C(b := A @ B))"
  proof (rule deletedI [OF inv b C t])
    assume "F \<noteq> [] \<or> \<not> used (sg_dirs sg) 0 \<or> C b = [4 * b]"
    then have "F \<noteq> [] \<or> \<not> used ?ds 0" using C A se bd by (cases A) (auto simp: used_def nth_list_update)
    with r(5) have e: "sg_dirs sg' ! i = ?ds ! i" if "c < sg_buckets sg" "i \<in> set ((C(b := A @ B)) c)" for c i
      using that by blast
    have "ent sg' i = ent sg i" if "c < sg_buckets sg" "i \<in> set ((C(b := A @ B)) c)" for c i
    proof -
      have "x \<noteq> i" using that dj other_bucket_slot [OF inv b, of c i] C by (auto split: if_splits)
      then show ?thesis using e [OF that] se [of i] r(3) by (simp add: ent_def)
    qed
    from this [OF b] this show "map (ent sg') (A @ B) = map (ent sg) (A @ B) \<and>
        (\<forall>c < sg_buckets sg. c \<noteq> b \<longrightarrow> (\<forall>i\<in>set (C c). ent sg' i = ent sg i))" by auto
  qed (use r(3,4) in auto)
  with run r(2) show ?thesis by blast
qed

lemma dirDelete_ok:
  assumes inv: "sg_inv sg C F {}" and b: "b < sg_buckets sg" and ids: "length (sg_ids sg) = length (sg_dirs sg)"
  shows "\<exists>sg' x C' F'. dirDelete t b sg = Some (sg', x) \<and> sg_inv sg' C' F' {} \<and> (F \<noteq> [] \<longrightarrow> F' \<noteq> []) \<and>
    (if \<exists>i\<in>set (C b). dir_tag (sg_dirs sg ! i) = t then deleted sg C F b t sg' C' else sg' = sg \<and> C' = C)"
proof (rule probe_cases [OF inv b, of t], goal_cases)
  case (1 A x B)
  then have ex: "\<exists>i\<in>set (C b). dir_tag (sg_dirs sg ! i) = t" by auto
  have hd: "\<exists>ys. A @ x # B = 4 * b # ys" using bucket_hd [OF sg_inv_bucket [OF inv b]] 1 by auto
  show ?case
  proof (cases A)
    case Nil
    then have x: "x = 4 * b" using hd by simp
    show ?thesis
    proof (cases B)
      case Nil
      then show ?thesis
        using dirDelete_head_last [OF inv b, of t] 1 \<open>A = []\<close> x ex by auto
    next
      case (Cons y ys)
      then show ?thesis
        using dirDelete_head_next [OF inv b, of y ys t] 1 \<open>A = []\<close> x ex ids by auto
    qed
  next
    case (Cons a A')
    then show ?thesis using dirDelete_inner [OF inv b 1(1) _ 1(3,2)] 1(4) ex by auto
  qed
next
  case (2 i p)
  then show ?case using inv by (intro exI [of _ sg] exI [of _ i] exI [of _ C] exI [of _ F]) (auto simp: dirDelete_def)
qed

end
