(* ===== verification/Dir_Check.thy ===== *)
theory Dir_Check
  imports Dir_Ops
begin

text \<open>
  \<^verbatim>\<open>validateDirectory\<close> of \<^verbatim>\<open>cache/dir_manager.go\<close>, the check a directory passes before
  a checkpoint is trusted: it accepts exactly the segments that satisfy the segment invariant.
\<close>

section \<open>\<^verbatim>\<open>validateDirectory\<close>\<close>

text \<open>\<open>seen\<close> has the length of \<open>dirs\<close>; the first loop follows a bucket, the second the free chain.\<close>

function check_bucket :: "Dir list \<Rightarrow> nat \<Rightarrow> nat \<Rightarrow> bool list \<Rightarrow> bool list result" where
  "check_bucket dirs bucket i seen =
     (if \<not> (i < length dirs \<and> i < length seen) \<or> seen ! i \<or> (i \<noteq> bucket \<and> i mod DirDepth = 0) \<or> dir_offset (dirs ! i) = 0
      then Inl (Err ''invalid directory chain'')
      else let seen = seen[i := True] in
        if dir_next (dirs ! i) = 0 then Inr seen else check_bucket dirs bucket (unat (dir_next (dirs ! i))) seen)"
  by pat_completeness auto

lemma unseen_decreases:
  "i < length seen \<Longrightarrow> \<not> seen ! i \<Longrightarrow> length (filter Not (seen[i := True])) < length (filter Not seen)"
  using filter_update_length [of i seen Not True] by simp

termination check_bucket
  by (relation "measure (\<lambda>(dirs, bucket, i, seen). length (filter Not seen))") (auto simp: unseen_decreases)

function check_free :: "Dir list \<Rightarrow> u16 \<Rightarrow> u16 \<Rightarrow> bool list \<Rightarrow> bool list result" where
  "check_free dirs prev free seen =
     (if free \<noteq> 0 then
        let i = unat free in
        if \<not> (i < length dirs \<and> i < length seen) \<or> seen ! i \<or> i mod DirDepth = 0 \<or> dir_offset (dirs ! i) \<noteq> 0 \<or> dir_prev (dirs ! i) \<noteq> prev
        then Inl (Err ''invalid directory free chain'')
        else check_free dirs free (dir_next (dirs ! i)) (seen[i := True])
      else Inr seen)"
  by pat_completeness auto

termination check_free
  by (relation "measure (\<lambda>(dirs, prev, free, seen). length (filter Not seen))") (auto simp: unseen_decreases)

declare check_bucket.simps [simp del] check_free.simps [simp del]

primrec check_buckets :: "Dir list \<Rightarrow> nat list \<Rightarrow> bool list \<Rightarrow> bool list result" where
  "check_buckets dirs [] seen = Inr seen"
| "check_buckets dirs (b # bs) seen =
     (let bucket = b * DirDepth in
      if dir_offset (dirs ! bucket) = 0 then
        (if dir_next (dirs ! bucket) \<noteq> 0 then Inl (Err ''empty directory bucket has chain'')
         else check_buckets dirs bs seen)
      else case check_bucket dirs bucket bucket seen of
        Inl e \<Rightarrow> Inl e | Inr seen \<Rightarrow> check_buckets dirs bs seen)"

definition validateDirectory :: "Dir list \<Rightarrow> u16 \<Rightarrow> unit result" where
  "validateDirectory dirs free =
     (case check_buckets dirs [0..<length dirs div DirDepth] (replicate (length dirs) False) of
        Inl e \<Rightarrow> Inl e
      | Inr seen \<Rightarrow> (case check_free dirs 0 free seen of
          Inl e \<Rightarrow> Inl e
        | Inr seen \<Rightarrow>
            if \<exists>i\<in>set [0..<length dirs]. \<not> seen ! i \<and> (i mod DirDepth \<noteq> 0 \<or> dir_offset (dirs ! i) \<noteq> 0)
            then Inl (Err ''unreachable directory entry'') else Inr ()))"

section \<open>What the loops accept\<close>

definition marked :: "bool list \<Rightarrow> nat set" where "marked seen = {i. i < length seen \<and> seen ! i}"

lemma marked_update: "i < length seen \<Longrightarrow> marked (seen[i := True]) = insert i (marked seen)"
  by (auto simp: marked_def nth_list_update)

lemma check_bucket_sound:
  assumes "check_bucket ds bk i seen = Inr seen'" and "length seen = length ds"
  shows "\<exists>xs. lseg ds i xs 0 \<and> xs \<noteq> [] \<and> distinct xs \<and> set xs \<inter> marked seen = {} \<and>
    (\<forall>x\<in>set xs. used ds x \<and> (x = bk \<or> x mod 4 \<noteq> 0)) \<and>
    marked seen' = marked seen \<union> set xs \<and> length seen' = length ds"
  using assms
proof (induction ds bk i seen rule: check_bucket.induct)
  case (1 ds bk i seen)
  then have c: "i < length ds" "i < length seen" "\<not> seen ! i" "i = bk \<or> i mod 4 \<noteq> 0" "used ds i"
    by (auto simp: check_bucket.simps [of ds bk i] DirDepth_def used_def split: if_splits)
  have im: "i \<notin> marked seen" using c by (simp add: marked_def)
  show ?case
  proof (cases "dir_next (ds ! i) = 0")
    case True
    then have "seen' = seen[i := True]" "nx ds i = 0"
      using "1.prems"(1) c by (auto simp: check_bucket.simps [of ds bk i] DirDepth_def used_def nx_def split: if_splits)
    then show ?thesis using c im "1.prems"(2) by (intro exI [of _ "[i]"]) (auto simp: marked_update)
  next
    case False
    then have r: "check_bucket ds bk (nx ds i) (seen[i := True]) = Inr seen'"
      using "1.prems"(1) c by (auto simp: check_bucket.simps [of ds bk i] DirDepth_def used_def nx_def split: if_splits)
    obtain xs where "lseg ds (nx ds i) xs 0" "xs \<noteq> []" "distinct xs" "set xs \<inter> marked (seen[i := True]) = {}"
      "\<forall>x\<in>set xs. used ds x \<and> (x = bk \<or> x mod 4 \<noteq> 0)" "marked seen' = marked (seen[i := True]) \<union> set xs"
      "length seen' = length ds"
      using "1.IH" [OF _ refl False] r c "1.prems"(2) by (auto simp: DirDepth_def used_def nx_def)
    then show ?thesis using c im by (intro exI [of _ "i # xs"]) (auto simp: marked_update)
  qed
qed

lemma check_bucket_complete:
  assumes "lseg ds i xs 0" "xs \<noteq> []" "distinct xs" "set xs \<inter> marked seen = {}" "length seen = length ds"
    "\<forall>x\<in>set xs. used ds x \<and> (x = bk \<or> x mod 4 \<noteq> 0)" "\<forall>x\<in>set (tl xs). x \<noteq> 0"
  shows "\<exists>seen'. check_bucket ds bk i seen = Inr seen' \<and> marked seen' = marked seen \<union> set xs \<and> length seen' = length ds"
  using assms
proof (induction xs arbitrary: i seen)
  case (Cons x xs)
  then have c: "i = x" "x < length ds" "\<not> seen ! x" "used ds x" "x = bk \<or> x mod 4 \<noteq> 0" "lseg ds (nx ds x) xs 0"
    by (auto simp: marked_def)
  let ?s = "seen[x := True]"
  have step: "check_bucket ds bk i seen = (if dir_next (ds ! x) = 0 then Inr ?s else check_bucket ds bk (nx ds x) ?s)"
    using c Cons.prems(5) by (subst check_bucket.simps) (auto simp: DirDepth_def used_def nx_def)
  show ?case
  proof (cases xs)
    case Nil
    then have "dir_next (ds ! x) = 0" using c by (simp add: nx_def unat_eq_zero)
    then show ?thesis using step c Cons.prems(5) Nil by (simp add: marked_update)
  next
    case (Cons y ys)
    then have "dir_next (ds ! x) \<noteq> 0" using c Cons.prems(7) by (auto simp: nx_def)
    moreover have "\<exists>seen'. check_bucket ds bk (nx ds x) ?s = Inr seen' \<and> marked seen' = marked ?s \<union> set xs \<and> length seen' = length ds"
      by (rule Cons.IH) (use c Cons.prems Cons in \<open>auto simp: marked_update\<close>)
    ultimately show ?thesis using step c Cons.prems(5) by (auto simp: marked_update)
  qed
qed simp

lemma check_free_sound:
  assumes "check_free ds p f seen = Inr seen'" and "length seen = length ds"
  shows "\<exists>F. lseg ds (unat f) F 0 \<and> bseg ds (unat p) F \<and> distinct F \<and> set F \<inter> marked seen = {} \<and>
    (\<forall>x\<in>set F. x mod 4 \<noteq> 0 \<and> \<not> used ds x) \<and> marked seen' = marked seen \<union> set F \<and> length seen' = length ds"
  using assms
proof (induction ds p f seen rule: check_free.induct)
  case (1 ds p f seen)
  show ?case
  proof (cases "f = 0")
    case True
    then show ?thesis using "1.prems" by (intro exI [of _ "[]"]) (auto simp: check_free.simps)
  next
    case False
    let ?i = "unat f"
    have c: "?i < length ds" "\<not> seen ! ?i" "?i mod 4 \<noteq> 0" "\<not> used ds ?i" "dir_prev (ds ! ?i) = p"
      and r: "check_free ds f (dir_next (ds ! ?i)) (seen[?i := True]) = Inr seen'"
      using False "1.prems"
      by (auto simp: check_free.simps [of ds p f] DirDepth_def used_def Let_def split: if_splits)
    have im: "?i \<notin> marked seen" using c by (simp add: marked_def)
    obtain F where "lseg ds (nx ds ?i) F 0" "bseg ds ?i F" "distinct F" "set F \<inter> marked (seen[?i := True]) = {}"
      "\<forall>x\<in>set F. x mod 4 \<noteq> 0 \<and> \<not> used ds x" "marked seen' = marked (seen[?i := True]) \<union> set F" "length seen' = length ds"
      using "1.IH" [OF False refl] r c "1.prems"(2) by (auto simp: DirDepth_def used_def nx_def)
    then show ?thesis using c im "1.prems"(2) by (intro exI [of _ "?i # F"]) (auto simp: marked_update pv_def)
  qed
qed

lemma check_free_complete:
  assumes "lseg ds (unat f) F 0" "bseg ds (unat p) F" "distinct F" "set F \<inter> marked seen = {}" "length seen = length ds"
    "\<forall>x\<in>set F. x mod 4 \<noteq> 0 \<and> \<not> used ds x"
  shows "\<exists>seen'. check_free ds p f seen = Inr seen' \<and> marked seen' = marked seen \<union> set F \<and> length seen' = length ds"
  using assms
proof (induction F arbitrary: p f seen)
  case Nil
  then show ?case by (subst check_free.simps) (simp add: unat_eq_zero)
next
  case (Cons x F)
  let ?s = "seen[x := True]" and ?n = "dir_next (ds ! x)"
  have c: "unat f = x" "x < length ds" "\<not> seen ! x" "\<not> used ds x" "x mod 4 \<noteq> 0" and pp: "dir_prev (ds ! x) = p"
    using Cons.prems by (auto simp: marked_def pv_def word_unat_eq_iff)
  then have "f \<noteq> 0" by auto
  then have "check_free ds p f seen = check_free ds f ?n ?s"
    using c pp Cons.prems(5) by (subst check_free.simps) (simp add: DirDepth_def used_def)
  moreover have "\<exists>seen'. check_free ds f ?n ?s = Inr seen' \<and> marked seen' = marked ?s \<union> set F \<and> length seen' = length ds"
    by (rule Cons.IH) (use c Cons.prems in \<open>auto simp: marked_update nx_def\<close>)
  ultimately show ?case using c Cons.prems(5) by (auto simp: marked_update)
qed

definition chains_ok :: "Dir list \<Rightarrow> nat set \<Rightarrow> (nat \<Rightarrow> nat list) \<Rightarrow> nat set \<Rightarrow> nat set \<Rightarrow> bool" where
  "chains_ok ds B C M M' \<longleftrightarrow> (\<forall>b\<in>B. bucket_ok ds b (C b) \<and> set (C b) \<inter> M = {}) \<and>
     (\<forall>b\<in>B. \<forall>c\<in>B. b \<noteq> c \<longrightarrow> set (C b) \<inter> set (C c) = {}) \<and> M' = M \<union> (\<Union>b\<in>B. set (C b))"

lemma chains_ok_insert:
  assumes "chains_ok ds B C (M \<union> set xs) M'" "b \<notin> B" "bucket_ok ds b xs" "set xs \<inter> M = {}"
  shows "chains_ok ds (insert b B) (C(b := xs)) M M'"
proof -
  have e: "(C(b := xs)) c = C c" if "c \<in> B" for c using that assms(2) by auto
  have "(\<Union>c\<in>insert b B. set ((C(b := xs)) c)) = set xs \<union> (\<Union>c\<in>B. set (C c))"
    using e by auto
  moreover have "set (C c) \<inter> set xs = {}" if "c \<in> B" for c
    using assms(1) that by (auto simp: chains_ok_def)
  ultimately show ?thesis
    using assms(1,3,4) e unfolding chains_ok_def by (auto simp: Int_Un_distrib)
qed

lemma check_buckets_sound:
  assumes "check_buckets ds bs seen = Inr seen'" and "length seen = length ds" and "distinct bs"
  shows "\<exists>C. chains_ok ds (set bs) C (marked seen) (marked seen') \<and> length seen' = length ds"
  using assms
proof (induction bs arbitrary: seen)
  case (Cons b bs)
  let ?h = "b * DirDepth"
  show ?case
  proof (cases "dir_offset (ds ! ?h) = 0")
    case True
    then have n: "dir_next (ds ! ?h) = 0" and r: "check_buckets ds bs seen = Inr seen'"
      using Cons.prems(1) by (auto split: if_splits)
    obtain C where C: "chains_ok ds (set bs) C (marked seen) (marked seen')" "length seen' = length ds"
      using Cons.IH [OF r Cons.prems(2)] Cons.prems(3) by auto
    have "bucket_ok ds b []" using True n by (simp add: bucket_ok_def used_def nx_def DirDepth_def mult.commute)
    then show ?thesis using C chains_ok_insert [of ds "set bs" C "marked seen" "[]" _ b] Cons.prems(3) by auto
  next
    case False
    then obtain s1 where s1: "check_bucket ds ?h ?h seen = Inr s1" and r: "check_buckets ds bs s1 = Inr seen'"
      using Cons.prems(1) by (auto simp: Let_def split: sum.splits)
    obtain xs where xs: "lseg ds ?h xs 0" "xs \<noteq> []" "distinct xs" "set xs \<inter> marked seen = {}"
      "\<forall>x\<in>set xs. used ds x \<and> (x = ?h \<or> x mod 4 \<noteq> 0)" "marked s1 = marked seen \<union> set xs" "length s1 = length ds"
      using check_bucket_sound [OF s1 Cons.prems(2)] by blast
    obtain C where C: "chains_ok ds (set bs) C (marked s1) (marked seen')" "length seen' = length ds"
      using Cons.IH [OF r xs(7)] Cons.prems(3) by auto
    have "hd xs = ?h" using lseg_hd [OF xs(1,2)] .
    then have "\<forall>x\<in>set (tl xs). x mod 4 \<noteq> 0"
      using xs(2,3,5) by (cases xs) auto
    then have "bucket_ok ds b xs"
      using xs by (simp add: bucket_ok_def DirDepth_def mult.commute)
    from chains_ok_insert [OF C(1) [unfolded xs(6)] _ this xs(4)] show ?thesis
      using C(2) Cons.prems(3) by auto
  qed
qed (auto simp: chains_ok_def)

lemma check_buckets_complete:
  assumes "\<forall>b\<in>set bs. bucket_ok ds b (C b) \<and> set (C b) \<inter> marked seen = {} \<and> 4 * b < length ds"
    "\<forall>b\<in>set bs. \<forall>c\<in>set bs. b \<noteq> c \<longrightarrow> set (C b) \<inter> set (C c) = {}" "distinct bs" "length seen = length ds"
  shows "\<exists>seen'. check_buckets ds bs seen = Inr seen' \<and> marked seen' = marked seen \<union> (\<Union>b\<in>set bs. set (C b)) \<and>
    length seen' = length ds"
  using assms
proof (induction bs arbitrary: seen)
  case (Cons b bs)
  have ok: "bucket_ok ds b (C b)" using Cons.prems(1) by simp
  show ?case
  proof (cases "C b = []")
    case True
    then have "dir_offset (ds ! (4 * b)) = 0" "dir_next (ds ! (4 * b)) = 0"
      using ok by (auto simp: bucket_ok_def used_def nx_def unat_eq_zero)
    then show ?thesis using True Cons by (auto simp: DirDepth_def mult.commute)
  next
    case False
    have "\<exists>s1. check_bucket ds (4 * b) (4 * b) seen = Inr s1 \<and> marked s1 = marked seen \<union> set (C b) \<and> length s1 = length ds"
    proof (rule check_bucket_complete)
      show "\<forall>x\<in>set (C b). used ds x \<and> (x = 4 * b \<or> x mod 4 \<noteq> 0)" "\<forall>x\<in>set (tl (C b)). x \<noteq> 0"
        using ok False by (cases "C b"; auto simp: bucket_ok_def)+
    qed (use ok False Cons.prems in \<open>auto simp: bucket_ok_def\<close>)
    then obtain s1 where s1: "check_bucket ds (4 * b) (4 * b) seen = Inr s1" "marked s1 = marked seen \<union> set (C b)" "length s1 = length ds"
      by blast
    have "\<exists>seen'. check_buckets ds bs s1 = Inr seen' \<and> marked seen' = marked s1 \<union> (\<Union>b\<in>set bs. set (C b)) \<and> length seen' = length ds"
      by (rule Cons.IH) (use Cons.prems s1 in auto)
    moreover have "dir_offset (ds ! (4 * b)) \<noteq> 0" using False bucket_empty_iff [OF ok] by (simp add: used_def)
    ultimately show ?thesis using s1 by (auto simp: DirDepth_def mult.commute)
  qed
qed auto

lemma marked_replicate [simp]: "marked (replicate n False) = {}"
  by (auto simp: marked_def)

lemma validateDirectory_sound:
  assumes n: "4 dvd length ds" "length ds \<le> 65536" and "validateDirectory ds f = Inr ()"
  shows "\<exists>C F. seg_inv ds (unat f) C F {}"
proof -
  let ?n = "length ds div 4"
  obtain s1 s2 where r: "check_buckets ds [0..<?n] (replicate (length ds) False) = Inr s1" "check_free ds 0 f s1 = Inr s2"
    and all: "\<forall>i<length ds. s2 ! i \<or> i mod 4 = 0 \<and> \<not> used ds i"
    using assms(3) by (auto simp: validateDirectory_def DirDepth_def used_def split: sum.splits if_splits)
  obtain C where C0: "chains_ok ds (set [0..<?n]) C {} (marked s1)" "length s1 = length ds"
    using check_buckets_sound [OF r(1)] by auto
  then have C: "\<forall>b<?n. bucket_ok ds b (C b)" "\<forall>b<?n. \<forall>c<?n. b \<noteq> c \<longrightarrow> set (C b) \<inter> set (C c) = {}"
    by (auto simp: chains_ok_def)
  have m: "i \<in> marked s1 \<longleftrightarrow> (\<exists>b<?n. i \<in> set (C b))" for i
    using C0(1) unfolding chains_ok_def by auto
  obtain F where F: "lseg ds (unat f) F 0" "bseg ds 0 F" "distinct F" "\<forall>x\<in>set F. x mod 4 \<noteq> 0 \<and> \<not> used ds x"
    "marked s2 = marked s1 \<union> set F" "length s2 = length ds"
    using check_free_sound [OF r(2) C0(2)] by auto
  have cov: "i \<in> marked s1 \<or> i \<in> set F \<or> i mod 4 = 0 \<and> \<not> used ds i" if "i < length ds" for i
  proof -
    have "i \<in> marked s2 \<or> i mod 4 = 0 \<and> \<not> used ds i" using all that F(6) by (simp add: marked_def)
    then show ?thesis using F(5) by blast
  qed
  have us: "used ds i" if "i \<in> marked s1" for i using that C(1) m by (fastforce simp: bucket_ok_def)
  have "\<exists>b<?n. i \<in> set (C b)" if "i < length ds" "used ds i" for i
    using cov [OF that(1)] that(2) F(4) m by blast
  then have "buckets_ok ds C" using n C(1,2) by (simp add: buckets_ok_def)
  moreover have "i \<in> set F" if "i < length ds" "i mod 4 \<noteq> 0" "\<not> used ds i" for i
    using cov [OF that(1)] us [of i] that(2,3) by blast
  moreover have "free_ok ds (unat f) F" using F(1-4) by (simp add: free_ok_def)
  ultimately have "seg_inv ds (unat f) C F {}" by (simp add: seg_inv_def)
  then show ?thesis by blast
qed

lemma validateDirectory_complete:
  assumes "seg_inv ds (unat f) C F {}"
  shows "validateDirectory ds f = Inr ()"
proof -
  let ?n = "length ds div 4"
  have inv: "buckets_ok ds C" "free_ok ds (unat f) F" "\<forall>i<length ds. i mod 4 \<noteq> 0 \<and> \<not> used ds i \<longrightarrow> i \<in> set F"
    using assms by (auto simp: seg_inv_def)
  have "\<exists>s1. check_buckets ds [0..<?n] (replicate (length ds) False) = Inr s1 \<and>
      marked s1 = marked (replicate (length ds) False) \<union> (\<Union>b\<in>set [0..<?n]. set (C b)) \<and> length s1 = length ds"
    by (rule check_buckets_complete) (use inv(1) in \<open>auto simp: buckets_ok_def\<close>)
  then obtain s1 where s1: "check_buckets ds [0..<?n] (replicate (length ds) False) = Inr s1"
    "marked s1 = (\<Union>b\<in>set [0..<?n]. set (C b))" "length s1 = length ds" by auto
  have m: "i \<in> marked s1 \<longleftrightarrow> (\<exists>b<?n. i \<in> set (C b))" for i unfolding s1(2) by auto
  have us: "used ds i" if "i \<in> marked s1" for i
    using that inv(1) m by (fastforce simp: buckets_ok_def bucket_ok_def)
  then have "set F \<inter> marked s1 = {}"
    using inv(2) by (auto simp: free_ok_def)
  then have "\<exists>s2. check_free ds 0 f s1 = Inr s2 \<and> marked s2 = marked s1 \<union> set F \<and> length s2 = length ds"
    using inv(2) s1(3) by (intro check_free_complete) (auto simp: free_ok_def)
  then obtain s2 where s2: "check_free ds 0 f s1 = Inr s2" "marked s2 = marked s1 \<union> set F" "length s2 = length ds"
    by blast
  have all: "s2 ! i" if i: "i < length ds" "i mod 4 \<noteq> 0 \<or> used ds i" for i
  proof -
    have "i \<in> marked s2"
    proof (cases "used ds i")
      case True
      then have "\<exists>b<?n. i \<in> set (C b)" using inv(1) i(1) by (simp add: buckets_ok_def)
      then show ?thesis using m s2(2) by blast
    qed (use i inv(3) s2(2) in auto)
    then show ?thesis by (simp add: marked_def)
  qed
  have "\<not> (\<exists>i\<in>set [0..<length ds]. \<not> s2 ! i \<and> (i mod 4 \<noteq> 0 \<or> dir_offset (ds ! i) \<noteq> 0))"
  proof
    assume "\<exists>i\<in>set [0..<length ds]. \<not> s2 ! i \<and> (i mod 4 \<noteq> 0 \<or> dir_offset (ds ! i) \<noteq> 0)"
    then obtain i where "i < length ds" "\<not> s2 ! i" "i mod 4 \<noteq> 0 \<or> used ds i" by (auto simp: used_def)
    then show False using all by blast
  qed
  then show ?thesis
    using s1(1) s2(1) by (simp add: validateDirectory_def DirDepth_def)
qed

end
