(* ===== verification/Dir_Init.thy ===== *)
theory Dir_Init
  imports Dir_Check
begin

text \<open>
  The empty directory of \<^verbatim>\<open>linkEmptyDirs\<close> (\<^verbatim>\<open>cache/dir_manager.go\<close>): the two folds over the
  buckets thread every slot that is not a bucket head on one free chain.
\<close>

section \<open>The empty segment\<close>

definition next_of :: "nat \<Rightarrow> nat \<Rightarrow> Dir \<Rightarrow> Dir" where
  "next_of n i d = (if i mod 4 = 0 \<or> i + 1 = 4 * n then d
     else dir_setNext (of_nat (if i mod 4 = 3 then i + 2 else i + 1)) d)"

definition prev_of :: "nat \<Rightarrow> Dir \<Rightarrow> Dir" where
  "prev_of i d = (if i mod 4 = 0 \<or> i = 1 then d
     else dir_setPrev (of_nat (if i mod 4 = 1 then i - 2 else i - 1)) d)"

lemma slot_cases:
  obtains b where "i = 4 * b" | b where "i = 4 * b + 1" | b where "i = 4 * b + 2" | b where "i = 4 * b + (3::nat)"
proof -
  have e: "i = 4 * (i div 4) + i mod 4" and "i mod 4 < 4" by simp_all
  then consider "i mod 4 = 0" | "i mod 4 = 1" | "i mod 4 = 2" | "i mod 4 = 3" by linarith
  then show thesis
  proof cases
    case 1
    then show ?thesis using that(1) [of "i div 4"] e by simp
  next
    case 2
    then show ?thesis using that(2) [of "i div 4"] e by simp
  next
    case 3
    then show ?thesis using that(3) [of "i div 4"] e by simp
  next
    case 4
    then show ?thesis using that(4) [of "i div 4"] e by simp
  qed
qed

lemma slot_mod: "(4 * b + 1) mod 4 = 1" "(4 * b + 2) mod 4 = 2" "(4 * b + 3) mod 4 = (3::nat)"
  "Suc (4 * b) mod 4 = 1" "Suc (Suc (4 * b)) mod 4 = 2" "Suc (4 * b) div 4 = b" "Suc (Suc (4 * b)) div 4 = b"
  "(4 * b + 1) div 4 = b" "(4 * b + 2) div 4 = b" "(4 * b + 3) div 4 = b"
  by presburger+

lemma link_next_bucket_eq:
  "b < n \<Longrightarrow> link_next_bucket n b ds =
     (let d1 = ds[4 * b + 1 := dir_setNext (of_nat (4 * b + 2)) (ds ! (4 * b + 1))];
          d2 = d1[4 * b + 2 := dir_setNext (of_nat (4 * b + 3)) (d1 ! (4 * b + 2))]
      in if Suc b = n then d2 else d2[4 * b + 3 := dir_setNext (of_nat (4 * b + 5)) (d2 ! (4 * b + 3))])"
proof -
  assume "b < n"
  then have "b \<noteq> n - 1 \<longleftrightarrow> Suc b \<noteq> n" by auto
  moreover have "[1..<DirDepth - 1] = [1, 2]" by (simp add: DirDepth_def upt_rec)
  ultimately show "link_next_bucket n b ds =
     (let d1 = ds[4 * b + 1 := dir_setNext (of_nat (4 * b + 2)) (ds ! (4 * b + 1))];
          d2 = d1[4 * b + 2 := dir_setNext (of_nat (4 * b + 3)) (d1 ! (4 * b + 2))]
      in if Suc b = n then d2 else d2[4 * b + 3 := dir_setNext (of_nat (4 * b + 5)) (d2 ! (4 * b + 3))])"
    unfolding link_next_bucket_def by (simp only: DirDepth_def) (simp add: Let_def algebra_simps)
qed

lemma link_prev_bucket_eq:
  "link_prev_bucket b ds =
     (let d1 = ds[4 * b + 3 := dir_setPrev (of_nat (4 * b + 2)) (ds ! (4 * b + 3))];
          d2 = d1[4 * b + 2 := dir_setPrev (of_nat (4 * b + 1)) (d1 ! (4 * b + 2))]
      in if b = 0 then d2 else d2[4 * b + 1 := dir_setPrev (of_nat (4 * b - 1)) (d2 ! (4 * b + 1))])"
proof -
  have "rev [2..<DirDepth] = [3, 2]" by (simp add: DirDepth_def upt_rec)
  then show ?thesis unfolding link_prev_bucket_def by (simp only: DirDepth_def) (simp add: Let_def mult.commute)
qed

lemma length_link [simp]:
  "b < n \<Longrightarrow> length (link_next_bucket n b ds) = length ds" "length (link_prev_bucket b ds) = length ds"
  by (simp_all add: link_next_bucket_eq link_prev_bucket_eq Let_def)

lemma link_next_bucket_nth:
  assumes "length ds = 4 * n" "b < n" "i < length ds"
  shows "link_next_bucket n b ds ! i = (if i div 4 = b then next_of n i (ds ! i) else ds ! i)"
proof (cases i rule: slot_cases)
  case (1 c)
  then show ?thesis using assms by (auto simp: link_next_bucket_eq Let_def next_of_def nth_list_update; presburger)
next
  case (2 c)
  then show ?thesis using assms by (auto simp: link_next_bucket_eq Let_def next_of_def nth_list_update slot_mod)
next
  case (3 c)
  then show ?thesis using assms by (auto simp: link_next_bucket_eq Let_def next_of_def nth_list_update slot_mod add.commute)
next
  case (4 c)
  then show ?thesis using assms by (auto simp: link_next_bucket_eq Let_def next_of_def nth_list_update slot_mod add.commute)
qed

lemma link_prev_bucket_nth:
  assumes "length ds = 4 * n" "b < n" "i < length ds"
  shows "link_prev_bucket b ds ! i = (if i div 4 = b then prev_of i (ds ! i) else ds ! i)"
proof (cases i rule: slot_cases)
  case (1 c)
  then show ?thesis using assms by (auto simp: link_prev_bucket_eq Let_def prev_of_def nth_list_update; presburger)
next
  case (2 c)
  then show ?thesis using assms by (auto simp: link_prev_bucket_eq Let_def prev_of_def nth_list_update slot_mod; presburger)
next
  case (3 c)
  then show ?thesis using assms by (auto simp: link_prev_bucket_eq Let_def prev_of_def nth_list_update slot_mod; presburger)
next
  case (4 c)
  then show ?thesis using assms by (auto simp: link_prev_bucket_eq Let_def prev_of_def nth_list_update slot_mod; presburger)
qed

text \<open>A fold over the buckets that changes bucket \<open>b\<close> by \<open>f\<close> changes every slot once.\<close>

lemma bucket_fold:
  assumes nth: "\<And>b ds i. length ds = 4 * n \<Longrightarrow> b < n \<Longrightarrow> i < length ds \<Longrightarrow> g b ds ! i = (if i div 4 = b then f i (ds ! i) else ds ! i)"
    and len: "\<And>b ds. b < n \<Longrightarrow> length (g b ds) = length ds"
    and ds: "length ds = 4 * n" and k: "k \<le> n"
  shows "length (fold g [0..<k] ds) = 4 * n \<and>
    (\<forall>i<4 * n. fold g [0..<k] ds ! i = (if i div 4 < k then f i (ds ! i) else ds ! i))"
  using k
proof (induction k)
  case (Suc k)
  then have IH: "length (fold g [0..<k] ds) = 4 * n"
    "\<forall>i<4 * n. fold g [0..<k] ds ! i = (if i div 4 < k then f i (ds ! i) else ds ! i)" and kn: "k < n" by auto
  then show ?case using nth [OF IH(1) kn] len [OF kn] by (auto simp: less_Suc_eq)
qed (simp add: ds)

lemma linkEmptyDirs_nth:
  assumes "length ds = 4 * n"
  shows "\<exists>ds'. linkEmptyDirs ds = Inr ds' \<and> length ds' = 4 * n \<and>
    (\<forall>i<4 * n. ds' ! i = prev_of i (next_of n i (ds ! i)))"
proof -
  let ?d1 = "fold (link_next_bucket n) [0..<n] ds"
  have 1: "length ?d1 = 4 * n" "\<forall>i<4 * n. ?d1 ! i = (if i div 4 < n then next_of n i (ds ! i) else ds ! i)"
    using bucket_fold [of n "link_next_bucket n" "next_of n" ds n, OF link_next_bucket_nth length_link(1) assms] by auto
  have 2: "length (fold link_prev_bucket [0..<n] ?d1) = 4 * n"
    "\<forall>i<4 * n. fold link_prev_bucket [0..<n] ?d1 ! i = (if i div 4 < n then prev_of i (?d1 ! i) else ?d1 ! i)"
    using bucket_fold [of n link_prev_bucket prev_of ?d1 n, OF link_prev_bucket_nth length_link(2) 1(1)] by auto
  show ?thesis using assms 1 2
    by (intro exI [of _ "fold link_prev_bucket [0..<n] ?d1"]) (simp add: linkEmptyDirs_def DirDepth_def less_mult_imp_div_less)
qed

fun bucket_slots :: "nat \<Rightarrow> nat \<Rightarrow> nat list" where
  "bucket_slots b 0 = []"
| "bucket_slots b (Suc k) = (4 * b + 1) # (4 * b + 2) # (4 * b + 3) # bucket_slots (Suc b) k"

lemma slot_order_slots: "bucket_slots b k = concat (map (\<lambda>b. [4 * b + 1, 4 * b + 2, 4 * b + 3]) [b..<b + k])"
  by (induction k arbitrary: b) (auto simp: upt_rec)

lemma slot_order_bucket_slots: "slot_order n = bucket_slots 0 n"
proof -
  have "[1..<DirDepth] = [1, 2, 3]" by (simp add: DirDepth_def upt_rec)
  then show ?thesis by (simp add: slot_order_def slot_order_slots DirDepth_def mult.commute)
qed

definition linked :: "Dir list \<Rightarrow> nat \<Rightarrow> bool" where
  "linked ds n \<longleftrightarrow> length ds = 4 * n \<and> (\<forall>i<4 * n. \<not> used ds i \<and>
     nx ds i = (if i mod 4 = 0 \<or> i + 1 = 4 * n then 0 else if i mod 4 = 3 then i + 2 else i + 1) \<and>
     pv ds i = (if i mod 4 = 0 \<or> i = 1 then 0 else if i mod 4 = 1 then i - 2 else i - 1))"

lemma linked_lseg:
  "linked ds n \<Longrightarrow> b + k = n \<Longrightarrow> lseg ds (if k = 0 then 0 else 4 * b + 1) (bucket_slots b k) 0"
proof (induction k arbitrary: b)
  case (Suc k)
  let ?i = "4 * b + 3"
  have "lseg ds (if k = 0 then 0 else 4 * Suc b + 1) (bucket_slots (Suc b) k) 0"
    using Suc by auto
  moreover have "nx ds ?i = (if k = 0 then 0 else 4 * Suc b + 1)" "nx ds (4 * b + 1) = 4 * b + 2" "nx ds (4 * b + 2) = 4 * b + 3"
    using Suc.prems slot_mod [of b] by (auto simp: linked_def)
  ultimately show ?case using Suc.prems by (auto simp: linked_def)
qed simp

lemma linked_bseg:
  "linked ds n \<Longrightarrow> b + k = n \<Longrightarrow> bseg ds (if b = 0 then 0 else 4 * b - 1) (bucket_slots b k)"
proof (induction k arbitrary: b)
  case (Suc k)
  have "bseg ds (4 * b + 3) (bucket_slots (Suc b) k)" using Suc.IH [of "Suc b"] Suc.prems by (simp add: add.commute)
  moreover have "pv ds (4 * b + 3) = 4 * b + 2" "pv ds (4 * b + 2) = 4 * b + 1" "pv ds (4 * b + 1) = (if b = 0 then 0 else 4 * b - 1)"
    using Suc.prems slot_mod [of b] by (auto simp: linked_def)
  ultimately show ?case by simp
qed simp

lemma linkEmptyDirs_linked:
  assumes "0 < n" "4 * n \<le> 65536"
  shows "\<exists>ds. linkEmptyDirs (replicate (4 * n) dir_zero) = Inr ds \<and> linked ds n"
proof -
  obtain ds where ds: "linkEmptyDirs (replicate (4 * n) dir_zero) = Inr ds" "length ds = 4 * n"
    "\<And>i. i < 4 * n \<Longrightarrow> ds ! i = prev_of i (next_of n i dir_zero)"
    using linkEmptyDirs_nth [of "replicate (4 * n) dir_zero" n] by auto
  have "\<not> used ds i" "nx ds i = (if i mod 4 = 0 \<or> i + 1 = 4 * n then 0 else if i mod 4 = 3 then i + 2 else i + 1)"
    "pv ds i = (if i mod 4 = 0 \<or> i = 1 then 0 else if i mod 4 = 1 then i - 2 else i - 1)" if i: "i < 4 * n" for i
  proof -
    have b: "i + 1 < 65536" if "\<not> (i mod 4 = 0 \<or> i + 1 = 4 * n)" using that i assms by linarith
    have c: "i + 2 < 65536" if "i mod 4 = 3" "i + 1 \<noteq> 4 * n"
    proof -
      have "i + 2 \<noteq> 4 * n" "i + 3 \<noteq> 4 * n" using that by presburger+
      then show ?thesis using that i assms by linarith
    qed
    show "\<not> used ds i" using i ds(3) by (simp add: used_def prev_of_def next_of_def)
    show "nx ds i = (if i mod 4 = 0 \<or> i + 1 = 4 * n then 0 else if i mod 4 = 3 then i + 2 else i + 1)"
      using i ds(3) b c unat_of_nat_u16 [of "i + 1"] unat_of_nat_u16 [of "i + 2"]
      by (auto simp: nx_def prev_of_def next_of_def simp del: of_nat_add of_nat_Suc)
    show "pv ds i = (if i mod 4 = 0 \<or> i = 1 then 0 else if i mod 4 = 1 then i - 2 else i - 1)"
      using i assms ds(3) unat_of_nat_u16 [of "i - 1"] unat_of_nat_u16 [of "i - 2"]
      by (auto simp: pv_def prev_of_def next_of_def simp del: of_nat_add of_nat_Suc)
  qed
  then have "linked ds n" using ds(2) by (simp add: linked_def)
  then show ?thesis using ds(1) by blast
qed

lemma linked_seg_inv:
  assumes l: "linked ds n" and n: "0 < n" "4 * n \<le> 65536"
  shows "seg_inv ds 1 (\<lambda>_. []) (slot_order n) {}"
proof -
  have "lseg ds 1 (slot_order n) 0" "bseg ds 0 (slot_order n)"
    using linked_lseg [OF l, of 0 n] linked_bseg [OF l, of 0 n] n(1) by (simp_all add: slot_order_bucket_slots)
  moreover have "length ds = 4 * n" "\<forall>i<4 * n. \<not> used ds i" "\<forall>b<n. nx ds (4 * b) = 0"
    using l by (auto simp: linked_def)
  ultimately show ?thesis
    using n by (auto simp: seg_inv_def free_ok_def buckets_ok_def bucket_ok_def slot_order_set)
qed

end
