(* ===== verification/Dir_Contract.thy ===== *)
theory Dir_Contract
  imports Dir_Init
begin

text \<open>
  What one segment promises: a well-formed segment (\<open>seg_wf\<close>) answers \<open>seg_get\<close>, and writing or
  deleting an entry is a step of a map that may forget whole buckets (\<open>lossy_step\<close>). The chains of
  the proofs do not appear in these statements any more.
\<close>

section \<open>Well-formed segments\<close>

definition seg_ok :: "Segment \<Rightarrow> bool" where
  "seg_ok sg \<longleftrightarrow> (\<exists>C F. sg_inv sg C F {}) \<and> length (sg_ids sg) = length (sg_dirs sg)"

definition seg_wf :: "Segment \<Rightarrow> bool" where
  "seg_wf sg \<longleftrightarrow> (\<exists>C F. sg_inv sg C F {} \<and> tags_distinct sg C) \<and> length (sg_ids sg) = length (sg_dirs sg)"

lemma seg_wf_ok: "seg_wf sg \<Longrightarrow> seg_ok sg"
  by (auto simp: seg_wf_def seg_ok_def)

lemma find_map_cong:
  assumes "\<And>i. i \<in> set xs \<Longrightarrow> P (f i) = P (g i)" and "\<And>i. i \<in> set xs \<Longrightarrow> P (g i) \<Longrightarrow> f i = g i"
  shows "find P (map f xs) = find P (map g xs)"
  using assms by (induction xs) auto

lemma find_map_unique:
  assumes "x \<in> set xs" "P (f x)" "\<And>i. i \<in> set xs \<Longrightarrow> i \<noteq> x \<Longrightarrow> \<not> P (f i)"
  shows "find P (map f xs) = Some (f x)"
  using assms by (induction xs) auto

lemma find_snoc: "\<not> P y \<Longrightarrow> find P (xs @ [y]) = find P xs"
  by (induction xs) auto

lemma find_remove: "\<not> P y \<Longrightarrow> find P (xs @ y # ys) = find P (xs @ ys)"
  by (induction xs) auto

text \<open>Writing an entry and its identity, as \<^verbatim>\<open>Set\<close> does.\<close>

definition seg_set :: "(nat \<Rightarrow> nat) \<Rightarrow> u16 \<Rightarrow> nat \<Rightarrow> Dir \<Rightarrow> ident \<Rightarrow> Segment \<Rightarrow> (Segment \<times> nat) option" where
  "seg_set rnd t b d i sg = do {
     (sg', x) \<leftarrow> dirInsert rnd t b d sg;
     Some (sg'\<lparr>sg_ids := (sg_ids sg')[x := i]\<rparr>, x)
   }"

definition entry_ok :: "u16 \<Rightarrow> Dir \<Rightarrow> bool" where
  "entry_ok t d \<longleftrightarrow> dir_offset d \<noteq> 0 \<and> dir_next d = 0 \<and> dir_tag d = t"

definition lossy_step :: "Segment \<Rightarrow> nat \<Rightarrow> u16 \<Rightarrow> seg_entry option \<Rightarrow> Segment \<Rightarrow> bool" where
  "lossy_step sg b t e sg' \<longleftrightarrow> length (sg_dirs sg') = length (sg_dirs sg) \<and>
     seg_get sg' b t = e \<and>
     (\<forall>t'. t' \<noteq> t \<longrightarrow> seg_get sg' b t' = seg_get sg b t') \<and>
     (\<forall>c < sg_buckets sg. c \<noteq> b \<longrightarrow> (\<forall>t'. seg_get sg' c t' = seg_get sg c t') \<or> (\<forall>t'. seg_get sg' c t' = None))"

lemma dirInsert_cases:
  assumes inv: "sg_inv sg C F {}" and b: "b < sg_buckets sg" and d: "entry_ok t d"
    and r: "dirInsert rnd t b d sg = Some (sg', x)"
  shows "\<exists>C' F'. sg_inv sg' C' F' {} \<and> inserted sg C t b d sg' x C'"
proof (rule probe_cases [OF inv b, of t], goal_cases)
  case (1 A y B)
  have "\<exists>sg'. dirInsert rnd t b d sg = Some (sg', y) \<and> sg_inv sg' C F {} \<and> inserted sg C t b d sg' y C"
    by (rule dirInsert_hit [OF inv b _ 1(1) 1(3) 1(4)]) (use d in \<open>simp add: entry_ok_def\<close>)
  then show ?case using r by auto
next
  case (2 i p)
  show ?case
  proof (cases "owns_all sg (C b)")
    case True
    then show ?thesis using dirInsert_panic [OF inv b True 2(1)] r by simp
  next
    case False
    have "\<exists>sg' x C' F'. dirInsert rnd t b d sg = Some (sg', x) \<and> sg_inv sg' C' F' {} \<and> inserted sg C t b d sg' x C' \<and>
        (F \<noteq> [] \<or> C b = [] \<longrightarrow> (\<forall>c. c \<noteq> b \<longrightarrow> C' c = C c))"
      by (rule dirInsert_miss [OF inv b _ _ False 2(1) 2(2)]) (use d in \<open>auto simp: entry_ok_def\<close>)
    then show ?thesis using r by auto
  qed
qed

lemma strip_tag: "strip e = strip e' \<Longrightarrow> dir_tag e = dir_tag e'"
  by (metis strip_laws(1))

lemma insertedD:
  assumes "inserted sg C t b d sg' x C'"
  shows "length (sg_dirs sg') = length (sg_dirs sg)" "sg_ids sg' = sg_ids sg" "sg_buckets sg' = sg_buckets sg"
    "x \<in> set (C' b)" "strip (sg_dirs sg' ! x) = strip d" "x \<in> set (C b) \<Longrightarrow> dir_tag (sg_dirs sg ! x) = t"
    "C' b = C b \<or> C' b = C b @ [x] \<and> (\<forall>i\<in>set (C b). dir_tag (sg_dirs sg ! i) \<noteq> t)"
    "i \<in> set (C b) \<Longrightarrow> i \<noteq> x \<Longrightarrow> strip (sg_dirs sg' ! i) = strip (sg_dirs sg ! i)"
    "c < sg_buckets sg \<Longrightarrow> c \<noteq> b \<Longrightarrow> C' c = C c \<or> C' c = []"
    "c < sg_buckets sg \<Longrightarrow> c \<noteq> b \<Longrightarrow> x \<notin> set (C' c)"
    "c < sg_buckets sg \<Longrightarrow> c \<noteq> b \<Longrightarrow> i \<in> set (C' c) \<Longrightarrow> strip (sg_dirs sg' ! i) = strip (sg_dirs sg ! i)"
  using assms by (simp_all add: inserted_def sg_buckets_def)

lemma inserted_tags:
  assumes ins: "inserted sg C t b d sg' x C'" and dt: "dir_tag d = t" and t: "tags_distinct sg C" and b: "b < sg_buckets sg"
  shows "tags_distinct sg' C'" "\<And>i. i \<in> set (C' b) \<Longrightarrow> i \<noteq> x \<Longrightarrow> dir_tag (sg_dirs sg' ! i) \<noteq> t"
    "dir_tag (sg_dirs sg' ! x) = t"
proof -
  note I = insertedD [OF ins]
  show xt: "dir_tag (sg_dirs sg' ! x) = t" using strip_tag [OF I(5)] dt by simp
  have bb: "dir_tag (sg_dirs sg' ! i) = dir_tag (sg_dirs sg ! i)" if "i \<in> set (C b)" for i
    using xt I(6) that strip_tag [OF I(8) [OF that]] by (cases "i = x") auto
  have e: "map (\<lambda>i. dir_tag (sg_dirs sg' ! i)) (C b) = map (\<lambda>i. dir_tag (sg_dirs sg ! i)) (C b)"
    using bb by simp
  have db: "distinct (map (\<lambda>i. dir_tag (sg_dirs sg' ! i)) (C b))"
    unfolding e using t b by (simp add: tags_distinct_def)
  have dist': "distinct (map (\<lambda>i. dir_tag (sg_dirs sg' ! i)) (C' b))"
    using I(7)
  proof
    assume "C' b = C b @ [x] \<and> (\<forall>i\<in>set (C b). dir_tag (sg_dirs sg ! i) \<noteq> t)"
    then show ?thesis using db bb xt by auto
  qed (use db in simp)
  have "distinct (map (\<lambda>i. dir_tag (sg_dirs sg' ! i)) (C' c))" if c: "c < sg_buckets sg" "c \<noteq> b" for c
  proof -
    have e: "map (\<lambda>i. dir_tag (sg_dirs sg' ! i)) (C' c) = map (\<lambda>i. dir_tag (sg_dirs sg ! i)) (C' c)"
      using strip_tag [OF I(11) [OF c]] by simp
    show ?thesis unfolding e using I(9) [OF c] t c by (auto simp: tags_distinct_def)
  qed
  then have "distinct (map (\<lambda>i. dir_tag (sg_dirs sg' ! i)) (C' c))" if "c < sg_buckets sg" for c
    using dist' that by (cases "c = b") auto
  then show "tags_distinct sg' C'" using I(3) by (simp add: tags_distinct_def)
  show "dir_tag (sg_dirs sg' ! i) \<noteq> t" if "i \<in> set (C' b)" "i \<noteq> x" for i
  proof -
    have "inj_on (\<lambda>i. dir_tag (sg_dirs sg' ! i)) (set (C' b))" using dist' by (simp add: distinct_map)
    then show ?thesis using that xt I(4) by (auto dest: inj_onD)
  qed
qed

lemma seg_get_find:
  assumes "sg_inv sg C F {}" "c < sg_buckets sg"
  shows "seg_get sg c u = find (\<lambda>e. dir_tag (fst e) = u) (map (ent sg) (C c))"
  using seg_get_view [OF assms] by (simp add: view_def)

lemma inserted_get:
  assumes inv: "sg_inv sg C F {}" and inv': "sg_inv sg' C' F' {}" and ins: "inserted sg C t b d sg1 x C'"
    and dt: "dir_tag d = t" and t: "tags_distinct sg C" and b: "b < sg_buckets sg"
    and sg': "sg' = sg1\<lparr>sg_ids := (sg_ids sg1)[x := i]\<rparr>" and ids: "length (sg_ids sg) = length (sg_dirs sg)"
  shows "lossy_step sg b t (Some (strip d, i)) sg'"
proof -
  note I = insertedD [OF ins] and tg = inserted_tags [OF ins dt t b]
  have bs: "sg_buckets sg' = sg_buckets sg" using I(3) by (simp add: sg' sg_buckets_def)
  have xl: "x < length (sg_ids sg1)" using kept_inv_used(2) [OF inv', of b x] I(1,2,4) b bs ids by (simp add: sg')
  have ext: "dir_tag (fst (ent sg' j)) = dir_tag (sg_dirs sg1 ! j)" for j by (simp add: sg')
  have same: "ent sg' j = ent sg j" if "j \<noteq> x" "strip (sg_dirs sg1 ! j) = strip (sg_dirs sg ! j)" for j
    using that I(2) by (simp add: ent_def sg')
  have "seg_get sg' b t = Some (ent sg' x)"
    unfolding seg_get_find [OF inv' b [folded bs]]
    by (rule find_map_unique) (use I(4) tg(2,3) ext in auto)
  then have 1: "seg_get sg' b t = Some (strip d, i)"
    using I(5) xl by (simp add: ent_def sg')
  have 2: "seg_get sg' b t' = seg_get sg b t'" if "t' \<noteq> t" for t'
  proof -
    have "find (\<lambda>e. dir_tag (fst e) = t') (map (ent sg') (C b)) = find (\<lambda>e. dir_tag (fst e) = t') (map (ent sg) (C b))"
    proof (rule find_map_cong)
      fix j assume j: "j \<in> set (C b)"
      have c: "j = x \<or> ent sg' j = ent sg j" using same I(8) [OF j] by blast
      have "dir_tag (fst (ent sg' x)) = t" "x \<in> set (C b) \<Longrightarrow> dir_tag (fst (ent sg x)) = t"
        using tg(3) I(6) ext by auto
      then show "(dir_tag (fst (ent sg' j)) = t') = (dir_tag (fst (ent sg j)) = t')"
        using c that j by metis
      assume "dir_tag (fst (ent sg j)) = t'"
      then show "ent sg' j = ent sg j" using c I(6) j that by auto
    qed
    moreover have "find (\<lambda>e. dir_tag (fst e) = t') (map (ent sg') (C b @ [x])) = find (\<lambda>e. dir_tag (fst e) = t') (map (ent sg') (C b))"
      using tg(3) ext that find_snoc [of "\<lambda>e. dir_tag (fst e) = t'" "ent sg' x"] by simp
    ultimately show ?thesis
      using I(7) seg_get_find [OF inv' b [folded bs]] seg_get_find [OF inv b] by auto
  qed
  have 3: "(\<forall>t'. seg_get sg' c t' = seg_get sg c t') \<or> (\<forall>t'. seg_get sg' c t' = None)"
    if c: "c < sg_buckets sg" "c \<noteq> b" for c
  proof (cases "C' c = []")
    case True
    then show ?thesis using seg_get_find [OF inv', of c] c bs by simp
  next
    case False
    then have e: "C' c = C c" using I(9) [OF c] by blast
    have "ent sg' j = ent sg j" if "j \<in> set (C c)" for j
      using same [of j] I(10) [OF c] I(11) [OF c, of j] that e by auto
    then have "map (ent sg') (C' c) = map (ent sg) (C c)" using e by simp
    then show ?thesis using seg_get_find [OF inv', of c] seg_get_find [OF inv, of c] c bs by simp
  qed
  show ?thesis using 1 2 3 I(1) by (simp add: lossy_step_def sg')
qed

lemma seg_set_ok:
  assumes wf: "seg_wf sg" and b: "b < sg_buckets sg" and d: "entry_ok t d"
    and r: "seg_set rnd t b d i sg = Some (sg', x)"
  shows "seg_wf sg' \<and> lossy_step sg b t (Some (strip d, i)) sg'"
proof -
  obtain C F where inv: "sg_inv sg C F {}" and td: "tags_distinct sg C" and ids: "length (sg_ids sg) = length (sg_dirs sg)"
    using wf by (auto simp: seg_wf_def)
  obtain sg1 where r1: "dirInsert rnd t b d sg = Some (sg1, x)" and sg': "sg' = sg1\<lparr>sg_ids := (sg_ids sg1)[x := i]\<rparr>"
    using r by (auto simp: seg_set_def split: Option.bind_splits)
  obtain C' F' where inv1: "sg_inv sg1 C' F' {}" and ins: "inserted sg C t b d sg1 x C'"
    using dirInsert_cases [OF inv b d r1] by blast
  have dt: "dir_tag d = t" using d by (simp add: entry_ok_def)
  have inv': "sg_inv sg' C' F' {}" using inv1 by (simp add: sg')
  have "tags_distinct sg' C'" using inserted_tags(1) [OF ins dt td b] by (simp add: sg' tags_distinct_def sg_buckets_def)
  moreover have "length (sg_ids sg') = length (sg_dirs sg')" using insertedD(1,2) [OF ins] ids by (simp add: sg')
  ultimately have "seg_wf sg'" using inv' by (auto simp: seg_wf_def)
  then show ?thesis using inserted_get [OF inv inv' ins dt td b sg' ids] by blast
qed


text \<open>\<^verbatim>\<open>dirDelete\<close> writes to slot 0 when it returns a slot to an empty free chain; outside that case
  it only removes its entry.\<close>

definition del_safe :: "nat \<Rightarrow> Segment \<Rightarrow> bool" where
  "del_safe b sg \<longleftrightarrow> sg_free sg \<noteq> 0 \<or> dir_offset (sg_dirs sg ! 0) = 0 \<or> dir_next (sg_dirs sg ! (4 * b)) = 0"

lemma deleted_get:
  assumes inv: "sg_inv sg C F {}" and inv': "sg_inv sg' C' F' {}" and td: "tags_distinct sg C"
    and b: "b < sg_buckets sg" and del: "deleted sg C F b t sg' C'" and safe: "F \<noteq> [] \<or> \<not> used (sg_dirs sg) 0 \<or> C b = [4 * b]"
  shows "lossy_step sg b t None sg'" "tags_distinct sg' C'"
proof -
  have len: "length (sg_dirs sg') = length (sg_dirs sg)" "sg_buckets sg' = sg_buckets sg"
    using del by (auto simp: deleted_def sg_buckets_def)
  have oth: "view sg' C' c = view sg C c" if "c < sg_buckets sg" "c \<noteq> b" for c
    using del safe that by (auto simp: deleted_def)
  obtain A e B where v: "view sg C b = A @ e # B" "dir_tag (fst e) = t" "view sg' C' b = A @ B"
    using del safe by (auto simp: deleted_def)
  have tv: "map (\<lambda>i. dir_tag (sg_dirs s ! i)) (D c) = map (\<lambda>e. dir_tag (fst e)) (view s D c)" for s D c
    by (simp add: view_def)
  have tdv: "distinct (map (\<lambda>e. dir_tag (fst e)) (view sg C c))" if "c < sg_buckets sg" for c
    using td that by (simp add: tags_distinct_def tv)
  have d: "distinct (map (\<lambda>e. dir_tag (fst e)) (A @ e # B))" using tdv [OF b] v(1) by simp
  have "distinct (map (\<lambda>e. dir_tag (fst e)) (view sg' C' c))" if "c < sg_buckets sg" for c
    using tdv [OF that] oth [OF that] d v(3) by (cases "c = b") auto
  then show "tags_distinct sg' C'" by (simp add: tags_distinct_def tv len(2))
  have g: "seg_get sg' c u = find (\<lambda>e. dir_tag (fst e) = u) (view sg' C' c)"
    "seg_get sg c u = find (\<lambda>e. dir_tag (fst e) = u) (view sg C c)" if "c < sg_buckets sg" for c u
    using seg_get_view [OF inv', of c] seg_get_view [OF inv, of c] that len(2) by simp_all
  have "t \<notin> (\<lambda>e. dir_tag (fst e)) ` set (A @ B)" using d v(2) by auto
  then have "\<not> (\<exists>e. e \<in> set (A @ B) \<and> dir_tag (fst e) = t)" by blast
  then have "find (\<lambda>e. dir_tag (fst e) = t) (A @ B) = None" by (subst find_None_iff)
  then have "seg_get sg' b t = None" using g(1) [OF b] v(3) by simp
  moreover have "seg_get sg' b t' = seg_get sg b t'" if "t' \<noteq> t" for t'
    using g [OF b] v that find_remove [of "\<lambda>e. dir_tag (fst e) = t'" e A B] by simp
  moreover have "seg_get sg' c t' = seg_get sg c t'" if "c < sg_buckets sg" "c \<noteq> b" for c t'
    using g [OF that(1)] oth [OF that] by simp
  ultimately show "lossy_step sg b t None sg'" using len by (simp add: lossy_step_def)
qed

lemma deleted_ids: "deleted sg C F b t sg' C' \<Longrightarrow> length (sg_ids sg) = length (sg_dirs sg) \<Longrightarrow>
  length (sg_ids sg') = length (sg_dirs sg')"
  by (simp add: deleted_def)

lemma seg_delete_ok:
  assumes wf: "seg_wf sg" and b: "b < sg_buckets sg" and safe: "del_safe b sg"
  shows "\<exists>sg' x. dirDelete t b sg = Some (sg', x) \<and> seg_wf sg' \<and> lossy_step sg b t None sg'"
proof -
  obtain C F where inv: "sg_inv sg C F {}" and td: "tags_distinct sg C" and ids: "length (sg_ids sg) = length (sg_dirs sg)"
    using wf by (auto simp: seg_wf_def)
  obtain sg' x C' F' where r: "dirDelete t b sg = Some (sg', x)" and inv': "sg_inv sg' C' F' {}"
    and d: "if \<exists>i\<in>set (C b). dir_tag (sg_dirs sg ! i) = t then deleted sg C F b t sg' C' else sg' = sg \<and> C' = C"
    using dirDelete_ok [OF inv b ids, of t] by blast
  show ?thesis
  proof (cases "\<exists>i\<in>set (C b). dir_tag (sg_dirs sg ! i) = t")
    case True
    then have del: "deleted sg C F b t sg' C'" using d by simp
    have ok: "bucket_ok (sg_dirs sg) b (C b)" using sg_inv_bucket [OF inv b] .
    have "C b = [4 * b]" if "dir_next (sg_dirs sg ! (4 * b)) = 0"
    proof -
      obtain ys where ys: "C b = 4 * b # ys" using bucket_hd [OF ok] True by fastforce
      then have "lseg (sg_dirs sg) 0 ys 0" "\<forall>y\<in>set ys. y mod 4 \<noteq> 0" using ok that by (auto simp: bucket_ok_def nx_def)
      then show ?thesis using ys by (cases ys) auto
    qed
    then have s: "F \<noteq> [] \<or> \<not> used (sg_dirs sg) 0 \<or> C b = [4 * b]"
      using safe sg_free_zero [OF inv] by (auto simp: del_safe_def used_def)
    show ?thesis
      using r inv' deleted_get [OF inv inv' td b del s] deleted_ids [OF del ids] by (auto simp: seg_wf_def)
  next
    case False
    then have "sg' = sg" using d by simp
    moreover have "find (\<lambda>e. dir_tag (fst e) = t) (map (ent sg) (C b)) = None"
      using False by (auto simp: find_None_iff)
    then have "seg_get sg b t = None" using seg_get_find [OF inv b] by simp
    ultimately show ?thesis using r wf by (auto simp: lossy_step_def)
  qed
qed

lemma seg_delete_structure:
  assumes "seg_ok sg" "b < sg_buckets sg"
  shows "\<exists>sg' x. dirDelete t b sg = Some (sg', x) \<and> seg_ok sg' \<and> length (sg_dirs sg') = length (sg_dirs sg)"
proof -
  obtain C F where inv: "sg_inv sg C F {}" and ids: "length (sg_ids sg) = length (sg_dirs sg)"
    using assms by (auto simp: seg_ok_def)
  obtain sg' x C' F' where r: "dirDelete t b sg = Some (sg', x)" and inv': "sg_inv sg' C' F' {}"
    and d: "if \<exists>i\<in>set (C b). dir_tag (sg_dirs sg ! i) = t then deleted sg C F b t sg' C' else sg' = sg \<and> C' = C"
    using dirDelete_ok [OF inv assms(2) ids, of t] by blast
  have "length (sg_ids sg') = length (sg_dirs sg') \<and> length (sg_dirs sg') = length (sg_dirs sg)"
    using d ids by (auto simp: deleted_def split: if_splits)
  then show ?thesis using r inv' by (auto simp: seg_ok_def)
qed

lemma seg_set_structure:
  assumes "seg_ok sg" "b < sg_buckets sg" "entry_ok t d" "seg_set rnd t b d i sg = Some (sg', x)"
  shows "seg_ok sg' \<and> length (sg_dirs sg') = length (sg_dirs sg)"
proof -
  obtain C F where inv: "sg_inv sg C F {}" and ids: "length (sg_ids sg) = length (sg_dirs sg)"
    using assms by (auto simp: seg_ok_def)
  obtain sg1 where r1: "dirInsert rnd t b d sg = Some (sg1, x)" and sg': "sg' = sg1\<lparr>sg_ids := (sg_ids sg1)[x := i]\<rparr>"
    using assms(4) by (auto simp: seg_set_def split: Option.bind_splits)
  obtain C' F' where inv1: "sg_inv sg1 C' F' {}" and ins: "inserted sg C t b d sg1 x C'"
    using dirInsert_cases [OF inv assms(2,3) r1] by blast
  then show ?thesis using insertedD(1,2) [OF ins] ids inv1 by (auto simp: seg_ok_def sg')
qed

end
