(* ===== verification/Dir_Trie.thy ===== *)
theory Dir_Trie
  imports Razor_Prelude "HOL-Library.AList" "HOL-Library.List_Lexorder" "HOL-Library.Sublist" "HOL-Library.Multiset"
begin

text \<open>
  The identity index of \<^verbatim>\<open>cache/dir_trie.go\<close>: full representation keys mapped to URL selectors, with
  the reverse index from selectors to keys, bounded in entries and bytes. Go maps are association
  lists with distinct keys; what is read out of them is sorted by the code.
\<close>

definition MaxIndexKeyBytes :: nat where "MaxIndexKeyBytes = 16384"
definition MaxIndexBytes :: nat where "MaxIndexBytes = 16777216"
definition MaxIndexEntries :: nat where "MaxIndexEntries = 65536"

record IndexEntry =
  ie_Key :: bytes
  ie_Selector :: bytes

record DirTrie =
  dt_entries :: "(bytes \<times> bytes) list"
  dt_selectors :: "(bytes \<times> bytes list) list"
  dt_capacity :: nat
  dt_bytes :: int

definition NewDirTrie :: "int list \<Rightarrow> DirTrie" where
  "NewDirTrie capacity =
     (let limit = int MaxIndexEntries;
          limit = (if capacity \<noteq> [] \<and> hd capacity < limit then hd capacity else limit);
          limit = (if limit < 0 then 0 else limit)
      in \<lparr>dt_entries = [], dt_selectors = [], dt_capacity = nat limit, dt_bytes = 0\<rparr>)"

definition validateIdentity :: "bytes \<Rightarrow> bytes \<Rightarrow> unit result" where
  "validateIdentity key selector =
     (if length key = 0 \<or> length selector = 0 \<or> length key > MaxIndexKeyBytes \<or> length selector > MaxIndexKeyBytes
      then Inl (Err ''invalid cache identity length'') else Inr ())"

definition members :: "DirTrie \<Rightarrow> bytes \<Rightarrow> bytes list" where
  "members dt s = (case map_of (dt_selectors dt) s of None \<Rightarrow> [] | Some ks \<Rightarrow> ks)"

definition deleteLocked :: "bytes \<Rightarrow> DirTrie \<Rightarrow> DirTrie" where
  "deleteLocked key dt =
     (case map_of (dt_entries dt) key of
        None \<Rightarrow> dt
      | Some selector \<Rightarrow>
          let left = removeAll key (members dt selector) in
          dt\<lparr>dt_bytes := dt_bytes dt - int (length key + length selector),
             dt_entries := AList.delete key (dt_entries dt),
             dt_selectors := (if left = [] then AList.delete selector (dt_selectors dt)
                              else AList.update selector left (dt_selectors dt))\<rparr>)"

definition dt_Delete :: "bytes \<Rightarrow> DirTrie \<Rightarrow> DirTrie" where
  "dt_Delete key dt = deleteLocked key dt"

definition SetIdentity :: "bytes \<Rightarrow> bytes \<Rightarrow> DirTrie \<Rightarrow> DirTrie \<times> unit result" where
  "SetIdentity k s dt =
     (case validateIdentity k s of
        Inl e \<Rightarrow> (dt, Inl e)
      | Inr _ \<Rightarrow>
          let old = map_of (dt_entries dt) k;
              size = dt_bytes dt + int (length k) + int (length s);
              size = (case old of None \<Rightarrow> size | Some o' \<Rightarrow> size - int (length k + length o'))
          in if (old = None \<and> length (dt_entries dt) \<ge> dt_capacity dt) \<or> size > int MaxIndexBytes
             then (dt, Inl ErrIndexFull)
             else let dt = (if old \<noteq> None then deleteLocked k dt else dt)
                  in (dt\<lparr>dt_entries := AList.update k s (dt_entries dt),
                         dt_selectors := AList.update s (k # removeAll k (members dt s)) (dt_selectors dt),
                         dt_bytes := size\<rparr>, Inr ()))"

definition dt_Set :: "bytes \<Rightarrow> DirTrie \<Rightarrow> DirTrie" where
  "dt_Set key dt = fst (SetIdentity key key dt)"

primrec prefix_loop :: "bytes \<Rightarrow> int \<Rightarrow> (bytes \<times> bytes list) list \<Rightarrow> bytes list \<Rightarrow> bytes list result" where
  "prefix_loop pre limit [] keys = Inr keys"
| "prefix_loop pre limit (e # es) keys =
     (if prefix pre (fst e) then
        if int (length keys + length (snd e)) > limit then Inl ErrIndexFull
        else prefix_loop pre limit es (keys @ snd e)
      else prefix_loop pre limit es keys)"

definition KeysForPrefixLimit :: "DirTrie \<Rightarrow> bytes \<Rightarrow> int \<Rightarrow> bytes list result" where
  "KeysForPrefixLimit dt pre limit =
     (case prefix_loop pre limit (dt_selectors dt) [] of Inl e \<Rightarrow> Inl e | Inr keys \<Rightarrow> Inr (sort keys))"

definition KeysForSelectorLimit :: "DirTrie \<Rightarrow> bytes \<Rightarrow> int \<Rightarrow> bytes list result" where
  "KeysForSelectorLimit dt selector limit =
     (let entries = members dt selector in
      if int (length entries) > limit then Inl ErrIndexFull else Inr (sort entries))"

definition dt_Get :: "DirTrie \<Rightarrow> bytes \<Rightarrow> bytes list" where
  "dt_Get dt pre = (case KeysForPrefixLimit dt pre (int MaxIndexEntries) of Inl _ \<Rightarrow> [] | Inr ks \<Rightarrow> ks)"

definition KeysForSelector :: "DirTrie \<Rightarrow> bytes \<Rightarrow> bytes list" where
  "KeysForSelector dt selector =
     (case KeysForSelectorLimit dt selector (int MaxIndexEntries) of Inl _ \<Rightarrow> [] | Inr ks \<Rightarrow> ks)"

definition Snapshot :: "DirTrie \<Rightarrow> IndexEntry list" where
  "Snapshot dt = map (\<lambda>(k, s). \<lparr>ie_Key = k, ie_Selector = s\<rparr>) (sort_key fst (dt_entries dt))"

primrec restore_loop :: "IndexEntry list \<Rightarrow> DirTrie \<Rightarrow> DirTrie result" where
  "restore_loop [] r = Inr r"
| "restore_loop (e # es) r =
     (if map_of (dt_entries r) (ie_Key e) \<noteq> None then Inl (Err ''duplicate cache identity'')
      else case SetIdentity (ie_Key e) (ie_Selector e) r of
        (_, Inl err) \<Rightarrow> Inl err
      | (r, Inr _) \<Rightarrow> restore_loop es r)"

definition Restore :: "IndexEntry list \<Rightarrow> DirTrie \<Rightarrow> DirTrie \<times> unit result" where
  "Restore entries dt =
     (case restore_loop entries (NewDirTrie [int (dt_capacity dt)]) of
        Inl e \<Rightarrow> (dt, Inl e)
      | Inr r \<Rightarrow> (dt\<lparr>dt_entries := dt_entries r, dt_selectors := dt_selectors r, dt_bytes := dt_bytes r\<rparr>, Inr ()))"

section \<open>The index invariant\<close>

definition idx_bytes :: "(bytes \<times> bytes) list \<Rightarrow> int" where
  "idx_bytes es = sum_list (map (\<lambda>e. int (length (fst e) + length (snd e))) es)"

definition trie_index :: "DirTrie \<Rightarrow> bool" where
  "trie_index dt \<longleftrightarrow> distinct (map fst (dt_entries dt)) \<and> distinct (map fst (dt_selectors dt)) \<and>
     (\<forall>s. distinct (members dt s) \<and> set (members dt s) = {k. map_of (dt_entries dt) k = Some s}) \<and>
     dt_bytes dt = idx_bytes (dt_entries dt) \<and>
     (\<forall>e\<in>set (dt_entries dt). validateIdentity (fst e) (snd e) = Inr ())"

definition trie_inv :: "DirTrie \<Rightarrow> bool" where
  "trie_inv dt \<longleftrightarrow> trie_index dt \<and> dt_bytes dt \<le> int MaxIndexBytes \<and> length (dt_entries dt) \<le> dt_capacity dt \<and>
     dt_capacity dt \<le> MaxIndexEntries"

lemma idx_bytes_delete:
  "distinct (map fst es) \<Longrightarrow> map_of es k = Some s \<Longrightarrow> idx_bytes (AList.delete k es) = idx_bytes es - int (length k + length s)"
proof (induction es)
  case (Cons e es)
  show ?case
  proof (cases "fst e = k")
    case True
    then have "k \<notin> fst ` set es" using Cons.prems(1) by auto
    then have "AList.delete k es = es" by (force simp: AList.delete_eq filter_id_conv)
    then show ?thesis using True Cons.prems by (cases e) (simp add: idx_bytes_def AList.delete_eq)
  next
    case False
    then show ?thesis using Cons by (cases e) (simp add: idx_bytes_def AList.delete_eq)
  qed
qed simp

lemma idx_bytes_update:
  "map_of es k = None \<Longrightarrow> idx_bytes (AList.update k s es) = idx_bytes es + int (length k + length s)"
  by (induction es) (auto simp: idx_bytes_def split: if_splits)

lemma length_AList_update: "map_of es k = None \<Longrightarrow> length (AList.update k s es) = Suc (length es)"
  by (induction es) (auto split: if_splits)

lemma length_AList_delete:
  "map_of es k = Some s \<Longrightarrow> length (AList.delete k es) < length es"
proof (induction es)
  case (Cons e es)
  have "length (AList.delete k es) \<le> length es" by (simp add: AList.delete_eq)
  then show ?case using Cons by (auto simp: AList.delete_eq less_Suc_eq_le split: if_splits)
qed simp

lemma set_AList_update: "map_of es k = None \<Longrightarrow> set (AList.update k s es) = insert (k, s) (set es)"
  by (induction es) (auto split: if_splits)

lemma deleteLocked_index:
  assumes "trie_index dt"
  shows "trie_index (deleteLocked k dt) \<and> map_of (dt_entries (deleteLocked k dt)) = (map_of (dt_entries dt))(k := None) \<and>
    dt_capacity (deleteLocked k dt) = dt_capacity dt \<and> length (dt_entries (deleteLocked k dt)) \<le> length (dt_entries dt) \<and>
    (map_of (dt_entries dt) k \<noteq> None \<longrightarrow> length (dt_entries (deleteLocked k dt)) < length (dt_entries dt)) \<and>
    dt_bytes (deleteLocked k dt) \<le> dt_bytes dt"
proof (cases "map_of (dt_entries dt) k")
  case None
  then have "(map_of (dt_entries dt))(k := None) = map_of (dt_entries dt)" by auto
  then show ?thesis using assms None by (simp add: deleteLocked_def)
next
  case (Some s)
  let ?dt = "deleteLocked k dt"
  have e: "dt_entries ?dt = AList.delete k (dt_entries dt)" "dt_bytes ?dt = dt_bytes dt - int (length k + length s)"
    "dt_capacity ?dt = dt_capacity dt"
    using Some by (simp_all add: deleteLocked_def Let_def)
  have m: "members ?dt u = (if u = s then removeAll k (members dt s) else members dt u)" for u
    using Some by (auto simp: deleteLocked_def Let_def members_def AList.update_conv' AList.delete_conv' split: option.splits)
  have me: "map_of (dt_entries ?dt) = (map_of (dt_entries dt))(k := None)" by (simp add: e AList.delete_conv')
  have "distinct (members ?dt u) \<and> set (members ?dt u) = {x. map_of (dt_entries ?dt) x = Some u}" for u
    using assms Some by (auto simp: m me trie_index_def distinct_removeAll simp del: map_of_eq_Some_iff)
  moreover have "distinct (map fst (dt_selectors ?dt))"
    using assms Some by (auto simp: deleteLocked_def Let_def trie_index_def intro!: AList.distinct_update AList.distinct_delete)
  moreover have "\<forall>x\<in>set (dt_entries ?dt). validateIdentity (fst x) (snd x) = Inr ()"
    using assms by (auto simp: e AList.delete_eq trie_index_def)
  ultimately have "trie_index ?dt"
    using assms Some idx_bytes_delete [of "dt_entries dt" k s] by (auto simp: trie_index_def e intro: AList.distinct_delete)
  then show ?thesis
    using me e length_AList_delete [OF Some] by auto
qed

lemma SetIdentity_ok:
  assumes inv: "trie_inv dt" and ok: "SetIdentity k s dt = (dt', Inr ())"
  shows "trie_inv dt' \<and> map_of (dt_entries dt') = (map_of (dt_entries dt))(k \<mapsto> s) \<and> dt_capacity dt' = dt_capacity dt"
proof -
  define d1 where "d1 = (if map_of (dt_entries dt) k \<noteq> None then deleteLocked k dt else dt)"
  define size where "size = dt_bytes d1 + int (length k + length s)"
  have v: "validateIdentity k s = Inr ()"
    using ok by (auto simp: SetIdentity_def split: sum.splits)
  have ti: "trie_index dt" using inv by (simp add: trie_inv_def)
  have d1: "trie_index d1" "map_of (dt_entries d1) = (map_of (dt_entries dt))(k := None)" "dt_capacity d1 = dt_capacity dt"
    using ti deleteLocked_index [OF ti, of k] by (auto simp: d1_def)
  have sz: "dt_bytes dt + int (length k) + int (length s) -
      (case map_of (dt_entries dt) k of None \<Rightarrow> 0 | Some o' \<Rightarrow> int (length k + length o')) = size"
    by (auto simp: size_def d1_def deleteLocked_def Let_def split: option.splits)
  have r: "dt' = d1\<lparr>dt_entries := AList.update k s (dt_entries d1),
       dt_selectors := AList.update s (k # removeAll k (members d1 s)) (dt_selectors d1), dt_bytes := size\<rparr>"
    and lim: "size \<le> int MaxIndexBytes" "map_of (dt_entries dt) k = None \<Longrightarrow> length (dt_entries dt) < dt_capacity dt"
    using ok v sz by (auto simp: SetIdentity_def Let_def d1_def split: option.splits if_splits)
  have kn: "map_of (dt_entries d1) k = None" by (simp add: d1)
  have km: "k \<notin> set (members d1 u)" for u using d1(1) kn by (auto simp: trie_index_def)
  have m: "members dt' u = (if u = s then k # members d1 s else members d1 u)" for u
    using km by (auto simp: r members_def AList.update_conv' removeAll_id)
  have me: "map_of (dt_entries dt') = (map_of (dt_entries dt))(k \<mapsto> s)" by (simp add: r AList.update_conv' d1)
  have "distinct (members dt' u) \<and> set (members dt' u) = {x. map_of (dt_entries dt') x = Some u}" for u
  proof -
    have "distinct (members d1 u)" "set (members d1 u) = {x. map_of (dt_entries d1) x = Some u}"
      "distinct (members d1 s)" "set (members d1 s) = {x. map_of (dt_entries d1) x = Some s}"
      using d1(1) by (auto simp: trie_index_def)
    then show ?thesis using km by (auto simp: m me d1(2) simp del: map_of_eq_Some_iff)
  qed
  moreover have "distinct (map fst (dt_entries dt'))" "distinct (map fst (dt_selectors dt'))"
    using d1(1) by (auto simp: r trie_index_def intro!: AList.distinct_update)
  moreover have "dt_bytes dt' = idx_bytes (dt_entries dt')"
    using d1(1) idx_bytes_update [OF kn] by (simp add: r size_def trie_index_def)
  moreover have "\<forall>e\<in>set (dt_entries dt'). validateIdentity (fst e) (snd e) = Inr ()"
    using d1(1) v set_AList_update [OF kn] by (auto simp: r trie_index_def)
  ultimately have "trie_index dt'" by (simp add: trie_index_def)
  moreover have "length (dt_entries d1) < dt_capacity dt"
    using lim(2) deleteLocked_index [OF ti, of k] inv by (auto simp: d1_def trie_inv_def)
  ultimately show ?thesis
    using me lim(1) inv length_AList_update [OF kn, of s] d1(3) by (simp add: trie_inv_def r)
qed

lemma SetIdentity_err:
  assumes "SetIdentity k s dt = (dt', Inl e)"
  shows "dt' = dt"
  using assms by (auto simp: SetIdentity_def Let_def split: sum.splits if_splits)

lemma trie_inv_NewDirTrie: "trie_inv (NewDirTrie c)"
  by (auto simp: NewDirTrie_def Let_def trie_inv_def trie_index_def members_def idx_bytes_def MaxIndexBytes_def MaxIndexEntries_def)

lemma trie_inv_deleteLocked: "trie_inv dt \<Longrightarrow> trie_inv (deleteLocked k dt)"
  using deleteLocked_index [of dt k] by (auto simp: trie_inv_def)

lemma members_sorted:
  assumes "trie_index dt"
  shows "set (sort (members dt s)) = {k. map_of (dt_entries dt) k = Some s}" "sorted (sort (members dt s))"
    "distinct (sort (members dt s))" "length (members dt s) = card {k. map_of (dt_entries dt) k = Some s}"
  using assms distinct_card [of "members dt s"] by (auto simp: trie_index_def)

definition entry_pairs :: "IndexEntry list \<Rightarrow> (bytes \<times> bytes) list" where
  "entry_pairs es = map (\<lambda>e. (ie_Key e, ie_Selector e)) es"

lemma restore_loop_ok:
  assumes "trie_inv r" "restore_loop es r = Inr r'"
  shows "trie_inv r' \<and> dt_capacity r' = dt_capacity r \<and>
    map_of (dt_entries r') = (map_of (dt_entries r)) ++ map_of (entry_pairs es) \<and>
    distinct (map ie_Key es) \<and> (\<forall>e\<in>set es. map_of (dt_entries r) (ie_Key e) = None)"
  using assms
proof (induction es arbitrary: r)
  case (Cons e es)
  obtain r1 where n: "map_of (dt_entries r) (ie_Key e) = None" and s: "SetIdentity (ie_Key e) (ie_Selector e) r = (r1, Inr ())"
    and l: "restore_loop es r1 = Inr r'"
    using Cons.prems(2) by (auto split: if_splits prod.splits sum.splits)
  have f: "trie_inv r1" "map_of (dt_entries r1) = (map_of (dt_entries r))(ie_Key e \<mapsto> ie_Selector e)" "dt_capacity r1 = dt_capacity r"
    using SetIdentity_ok [OF Cons.prems(1) s] by auto
  have IH: "trie_inv r'" "dt_capacity r' = dt_capacity r1" "distinct (map ie_Key es)"
    "map_of (dt_entries r') = map_of (dt_entries r1) ++ map_of (entry_pairs es)"
    "\<forall>e\<in>set es. map_of (dt_entries r1) (ie_Key e) = None"
    using Cons.IH [OF f(1) l] by blast+
  have ne: "ie_Key e \<notin> ie_Key ` set es" "\<forall>e\<in>set es. map_of (dt_entries r) (ie_Key e) = None"
    using IH(5) f(2) by (auto split: if_splits)
  have "map_of (entry_pairs es) (ie_Key e) = None"
    using ne(1) by (auto simp: map_of_eq_None_iff entry_pairs_def)
  then have "map_of (dt_entries r') = map_of (dt_entries r) ++ map_of (entry_pairs (e # es))"
    unfolding IH(4) f(2) by (auto simp: entry_pairs_def map_add_def fun_eq_iff split: option.splits)
  then show ?case using IH f(3) ne n by auto
qed (simp add: entry_pairs_def)

lemma restore_loop_complete:
  assumes "trie_inv r" "distinct (map ie_Key es)" "\<forall>e\<in>set es. map_of (dt_entries r) (ie_Key e) = None"
    "\<forall>e\<in>set es. validateIdentity (ie_Key e) (ie_Selector e) = Inr ()"
    "dt_bytes r + idx_bytes (entry_pairs es) \<le> int MaxIndexBytes" "length (dt_entries r) + length es \<le> dt_capacity r"
  shows "\<exists>r'. restore_loop es r = Inr r'"
  using assms
proof (induction es arbitrary: r)
  case (Cons e es)
  let ?k = "ie_Key e" and ?s = "ie_Selector e"
  have n: "map_of (dt_entries r) ?k = None" and v: "validateIdentity ?k ?s = Inr ()" using Cons.prems by auto
  have nn: "0 \<le> idx_bytes (entry_pairs es)" unfolding idx_bytes_def by (intro sum_list_nonneg) auto
  define r1 where "r1 = fst (SetIdentity ?k ?s r)"
  have b: "dt_bytes r + (int (length ?k) + int (length ?s)) \<le> int MaxIndexBytes"
    using Cons.prems(5) nn by (simp add: entry_pairs_def idx_bytes_def)
  then have s: "SetIdentity ?k ?s r = (r1, Inr ())" and r1: "dt_bytes r1 = dt_bytes r + (int (length ?k) + int (length ?s))"
    "length (dt_entries r1) = Suc (length (dt_entries r))"
    using n v Cons.prems(6) length_AList_update [OF n] by (auto simp: r1_def SetIdentity_def Let_def)
  have f: "trie_inv r1" "map_of (dt_entries r1) = (map_of (dt_entries r))(?k \<mapsto> ?s)" "dt_capacity r1 = dt_capacity r"
    using SetIdentity_ok [OF Cons.prems(1) s] by auto
  have "\<exists>r'. restore_loop es r1 = Inr r'"
  proof (rule Cons.IH [OF f(1)])
    have "ie_Key x \<noteq> ?k" if "x \<in> set es" for x using Cons.prems(2) imageI [OF that, of ie_Key] by auto
    then show "\<forall>e\<in>set es. map_of (dt_entries r1) (ie_Key e) = None" using Cons.prems(3) f(2) by simp
  qed (use Cons.prems r1 f(3) in \<open>auto simp: entry_pairs_def idx_bytes_def\<close>)
  then show ?case using n s by simp
qed simp

lemma idx_bytes_perm: "mset xs = mset ys \<Longrightarrow> idx_bytes xs = idx_bytes ys"
  unfolding idx_bytes_def by (simp flip: sum_mset_sum_list)

text \<open>C23. The index never exceeds its bounds and its two directions agree: from an empty index,
  whatever sequence of registrations and deletions, the number of entries stays within the capacity,
  the keys and selectors within 16 MiB, and the keys listed for a selector are exactly the keys
  registered under it, sorted.\<close>

datatype trie_op = TSet bytes bytes | TDelete bytes

primrec trie_run :: "trie_op list \<Rightarrow> DirTrie \<Rightarrow> DirTrie" where
  "trie_run [] dt = dt"
| "trie_run (x # xs) dt = trie_run xs (case x of TSet k s \<Rightarrow> fst (SetIdentity k s dt) | TDelete k \<Rightarrow> dt_Delete k dt)"

lemma trie_inv_step: "trie_inv dt \<Longrightarrow> trie_inv (case x of TSet k s \<Rightarrow> fst (SetIdentity k s dt) | TDelete k \<Rightarrow> dt_Delete k dt)"
proof (cases x)
  case (TSet k s)
  assume inv: "trie_inv dt"
  obtain dt' r where r: "SetIdentity k s dt = (dt', r)" by fastforce
  then have "trie_inv dt'" using SetIdentity_ok [OF inv, of k s dt'] SetIdentity_err [of k s dt dt'] inv
    by (cases r) auto
  then show ?thesis using r TSet by simp
qed (simp add: dt_Delete_def trie_inv_deleteLocked)

lemma trie_inv_run: "trie_inv dt \<Longrightarrow> trie_inv (trie_run xs dt)"
  by (induction xs arbitrary: dt) (simp_all add: trie_inv_step)

theorem trie_index_consistent:
  fixes xs c s
  defines "dt \<equiv> trie_run xs (NewDirTrie c)"
  shows "length (dt_entries dt) \<le> dt_capacity dt \<and> dt_capacity dt \<le> MaxIndexEntries \<and>
    dt_bytes dt = idx_bytes (dt_entries dt) \<and> dt_bytes dt \<le> int MaxIndexBytes \<and>
    set (KeysForSelector dt s) = {k. map_of (dt_entries dt) k = Some s} \<and>
    sorted (KeysForSelector dt s) \<and> distinct (KeysForSelector dt s)"
proof -
  have inv: "trie_inv dt" unfolding dt_def by (intro trie_inv_run trie_inv_NewDirTrie)
  then have ti: "trie_index dt" by (simp add: trie_inv_def)
  have "set (members dt s) \<subseteq> fst ` set (dt_entries dt)"
  proof
    fix k assume "k \<in> set (members dt s)"
    then have "map_of (dt_entries dt) k = Some s" using ti unfolding trie_index_def by blast
    then show "k \<in> fst ` set (dt_entries dt)" by (auto dest: map_of_SomeD intro: rev_image_eqI)
  qed
  then have "length (members dt s) \<le> length (dt_entries dt)"
    using ti distinct_card [of "members dt s"] card_mono [of "fst ` set (dt_entries dt)" "set (members dt s)"]
      card_length [of "map fst (dt_entries dt)"] by (auto simp: trie_index_def)
  then have "length (members dt s) \<le> MaxIndexEntries" using inv by (auto simp: trie_inv_def)
  then have "KeysForSelector dt s = sort (members dt s)"
    by (simp add: KeysForSelector_def KeysForSelectorLimit_def Let_def)
  then show ?thesis using inv members_sorted [OF ti, of s] by (simp add: trie_inv_def trie_index_def)
qed



end
