(* ===== verification/Hashes.thy ===== *)
theory Hashes
  imports Razor_Prelude
begin

text \<open>
  The hash functions of the Go standard library the cache uses, on byte strings:
  \<^verbatim>\<open>crypto/md5\<close> places a key in the directory, \<^verbatim>\<open>crypto/sha256\<close> gives the on-disk
  identity of a key (\<^verbatim>\<open>docKey\<close>, \<^verbatim>\<open>cache/identity.go\<close>) and \<^verbatim>\<open>hash/crc32\<close>
  (IEEE polynomial) is the checksum of documents and checkpoints.
\<close>

unbundle bit_operations_syntax

section \<open>Padding and blocks\<close>

definition zero_pad :: "nat \<Rightarrow> bytes" where
  "zero_pad len = replicate (if len mod 64 < 56 then 55 - len mod 64 else 119 - len mod 64) 0"

fun chunks :: "nat \<Rightarrow> nat \<Rightarrow> 'a list \<Rightarrow> 'a list list" where
  "chunks 0 k xs = []"
| "chunks (Suc n) k xs = take k xs # chunks n k (drop k xs)"

section \<open>MD5\<close>

definition md5_K :: "u32 list" where
  "md5_K = [
    0xd76aa478, 0xe8c7b756, 0x242070db, 0xc1bdceee, 0xf57c0faf, 0x4787c62a,
    0xa8304613, 0xfd469501, 0x698098d8, 0x8b44f7af, 0xffff5bb1, 0x895cd7be,
    0x6b901122, 0xfd987193, 0xa679438e, 0x49b40821, 0xf61e2562, 0xc040b340,
    0x265e5a51, 0xe9b6c7aa, 0xd62f105d, 0x02441453, 0xd8a1e681, 0xe7d3fbc8,
    0x21e1cde6, 0xc33707d6, 0xf4d50d87, 0x455a14ed, 0xa9e3e905, 0xfcefa3f8,
    0x676f02d9, 0x8d2a4c8a, 0xfffa3942, 0x8771f681, 0x6d9d6122, 0xfde5380c,
    0xa4beea44, 0x4bdecfa9, 0xf6bb4b60, 0xbebfbc70, 0x289b7ec6, 0xeaa127fa,
    0xd4ef3085, 0x04881d05, 0xd9d4d039, 0xe6db99e5, 0x1fa27cf8, 0xc4ac5665,
    0xf4292244, 0x432aff97, 0xab9423a7, 0xfc93a039, 0x655b59c3, 0x8f0ccc92,
    0xffeff47d, 0x85845dd1, 0x6fa87e4f, 0xfe2ce6e0, 0xa3014314, 0x4e0811a1,
    0xf7537e82, 0xbd3af235, 0x2ad7d2bb, 0xeb86d391]"

definition md5_s :: "nat list" where
  "md5_s = concat (map (\<lambda>r. concat (replicate 4 r)) [[7, 12, 17, 22], [5, 9, 14, 20], [4, 11, 16, 23], [6, 10, 15, 21]])"

type_synonym md5_state = "u32 \<times> u32 \<times> u32 \<times> u32"

definition md5_round :: "u32 list \<Rightarrow> nat \<times> u32 \<times> nat \<Rightarrow> md5_state \<Rightarrow> md5_state" where
  "md5_round M = (\<lambda>(i, k, s) (a, b, c, d).
     let (f, g) =
       (if i < 16 then ((b AND c) OR (NOT b AND d), i)
        else if i < 32 then ((d AND b) OR (NOT d AND c), (5 * i + 1) mod 16)
        else if i < 48 then (b XOR c XOR d, (3 * i + 5) mod 16)
        else (c XOR (b OR NOT d), (7 * i) mod 16))
     in (d, b + word_rotl s (f + a + k + M ! g), b, c))"

definition md5_block :: "bytes \<Rightarrow> md5_state \<Rightarrow> md5_state" where
  "md5_block blk = (\<lambda>(a, b, c, d).
     let M = map (\<lambda>w. of_nat (le_dec w)) (chunks 16 4 blk);
         (a', b', c', d') = fold (md5_round M) (zip [0..<64] (zip md5_K md5_s)) (a, b, c, d)
     in (a + a', b + b', c + c', d + d'))"

definition md5_pad :: "bytes \<Rightarrow> bytes" where
  "md5_pad m = m @ [0x80] @ zero_pad (length m) @ le_enc 8 (8 * length m)"

definition md5 :: "bytes \<Rightarrow> bytes" where
  "md5 m = (let p = md5_pad m;
       (a, b, c, d) = fold md5_block (chunks (length p div 64) 64 p) (0x67452301, 0xefcdab89, 0x98badcfe, 0x10325476)
     in concat (map (\<lambda>w. le_enc 4 (unat w)) [a, b, c, d]))"

section \<open>SHA-256\<close>

definition sha256_K :: "u32 list" where
  "sha256_K =
     [1116352408, 1899447441, 3049323471, 3921009573, 961987163, 1508970993, 2453635748, 2870763221,
      3624381080, 310598401, 607225278, 1426881987, 1925078388, 2162078206, 2614888103, 3248222580,
      3835390401, 4022224774, 264347078, 604807628, 770255983, 1249150122, 1555081692, 1996064986,
      2554220882, 2821834349, 2952996808, 3210313671, 3336571891, 3584528711, 113926993, 338241895,
      666307205, 773529912, 1294757372, 1396182291, 1695183700, 1986661051, 2177026350, 2456956037,
      2730485921, 2820302411, 3259730800, 3345764771, 3516065817, 3600352804, 4094571909, 275423344,
      430227734, 506948616, 659060556, 883997877, 958139571, 1322822218, 1537002063, 1747873779,
      1955562222, 2024104815, 2227730452, 2361852424, 2428436474, 2756734187, 3204031479, 3329325298]"

definition sha256_H0 :: "u32 list" where
  "sha256_H0 = [1779033703, 3144134277, 1013904242, 2773480762, 1359893119, 2600822924, 528734635, 1541459225]"

fun sha256_extend :: "nat \<Rightarrow> u32 list \<Rightarrow> u32 list" where
  "sha256_extend 0 w = w"
| "sha256_extend (Suc n) w =
     (let i = length w; x = w ! (i - 15); y = w ! (i - 2);
          s0 = word_rotr 7 x XOR word_rotr 18 x XOR drop_bit 3 x;
          s1 = word_rotr 17 y XOR word_rotr 19 y XOR drop_bit 10 y
      in sha256_extend n (w @ [w ! (i - 16) + s0 + w ! (i - 7) + s1]))"

definition sha256_round :: "u32 \<times> u32 \<Rightarrow> u32 list \<Rightarrow> u32 list" where
  "sha256_round = (\<lambda>(k, w) st. case st of [a, b, c, d, e, f, g, h] \<Rightarrow>
       let s1 = word_rotr 6 e XOR word_rotr 11 e XOR word_rotr 25 e;
           ch = (e AND f) XOR (NOT e AND g);
           t1 = h + s1 + ch + k + w;
           s0 = word_rotr 2 a XOR word_rotr 13 a XOR word_rotr 22 a;
           maj = (a AND b) XOR (a AND c) XOR (b AND c)
       in [t1 + s0 + maj, a, b, c, d + t1, e, f, g]
     | _ \<Rightarrow> st)"

definition sha256_block :: "bytes \<Rightarrow> u32 list \<Rightarrow> u32 list" where
  "sha256_block blk st =
     (let w = sha256_extend 48 (map (\<lambda>w. of_nat (be_dec w)) (chunks 16 4 blk))
      in map (\<lambda>(x, y). x + y) (zip st (fold sha256_round (zip sha256_K w) st)))"

definition sha256_pad :: "bytes \<Rightarrow> bytes" where
  "sha256_pad m = m @ [0x80] @ zero_pad (length m) @ be_enc 8 (8 * length m)"

definition sha256 :: "bytes \<Rightarrow> bytes" where
  "sha256 m = (let p = sha256_pad m
     in concat (map (\<lambda>w. be_enc 4 (unat w)) (fold sha256_block (chunks (length p div 64) 64 p) sha256_H0)))"

section \<open>CRC-32\<close>

definition crc_step :: "u32 \<Rightarrow> u32" where
  "crc_step c = (if bit c 0 then drop_bit 1 c XOR 0xedb88320 else drop_bit 1 c)"

definition crc_byte :: "u8 \<Rightarrow> u32 \<Rightarrow> u32" where
  "crc_byte b c = (crc_step ^^ 8) (c XOR ucast b)"

definition crc32_Update :: "u32 \<Rightarrow> bytes \<Rightarrow> u32" where
  "crc32_Update crc p = NOT (fold crc_byte p (NOT crc))"

definition crc32_ChecksumIEEE :: "bytes \<Rightarrow> u32" where
  "crc32_ChecksumIEEE data = crc32_Update 0 data"

lemma crc32_Update_append:
  "crc32_Update (crc32_Update c xs) ys = crc32_Update c (xs @ ys)"
  by (simp add: crc32_Update_def)

lemma crc32_Update_Nil [simp]: "crc32_Update c [] = c"
  by (simp add: crc32_Update_def)

section \<open>The identity of a key\<close>

definition docKey :: "bytes \<Rightarrow> bytes" where
  "docKey key = take 16 (sha256 key)"

lemma length_fold_inv:
  assumes "\<And>x s. length s = n \<Longrightarrow> length (f x s) = n" and "length s = n"
  shows "length (fold f xs s) = n"
  using assms(2) by (induction xs arbitrary: s) (auto simp: assms(1))

lemma length_sha256_round: "length (sha256_round p st) = length st"
  by (auto simp: sha256_round_def Let_def split: prod.splits list.splits)

lemma length_sha256 [simp]: "length (sha256 m) = 32"
proof -
  have blk: "length (sha256_block blk st) = 8" if "length st = 8" for blk st
  proof -
    have "length (fold sha256_round ps st) = 8" for ps
      by (rule length_fold_inv) (simp_all add: length_sha256_round that)
    then show ?thesis using that by (simp add: sha256_block_def Let_def)
  qed
  have h: "length sha256_H0 = 8" by (simp add: sha256_H0_def)
  have "length (fold sha256_block bs sha256_H0) = 8" for bs
    by (rule length_fold_inv) (simp_all add: blk h)
  then show ?thesis
    by (simp add: sha256_def Let_def length_concat comp_def sum_list_triv)
qed

lemma length_docKey [simp]: "length (docKey key) = 16"
  by (simp add: docKey_def)

lemma length_md5 [simp]: "length (md5 m) = 16"
  by (simp add: md5_def Let_def split: prod.splits)

end
