(* ===== verification/Lossy_Map.thy ===== *)
theory Lossy_Map
  imports Main
begin

text \<open>
  The contract of a cache: a map that may forget. After a write the key has the written value or
  none, every other key keeps its value or disappears, a delete removes its key (\<open>forgetful_map\<close>).
  What the cache then answers is always part of what an exact map would answer (\<open>\<subseteq>\<^sub>m\<close>), over any
  sequence of operations. \<open>lossy_map\<close> adds that a write makes its key visible. The directory manager is
  a \<open>lossy_map\<close>, the RAM cache a \<open>forgetful_map\<close>.
\<close>

datatype ('k, 'v) map_op = Put 'k 'v | Del 'k | Peek 'k

definition effect :: "('k, 'v) map_op \<Rightarrow> ('k \<rightharpoonup> 'v) \<Rightarrow> ('k \<rightharpoonup> 'v)" where
  "effect x m = (case x of Put k v \<Rightarrow> m(k \<mapsto> v) | Del k \<Rightarrow> m(k := None) | Peek k \<Rightarrow> m)"

primrec exact :: "('k, 'v) map_op list \<Rightarrow> ('k \<rightharpoonup> 'v) \<Rightarrow> ('k \<rightharpoonup> 'v)" where
  "exact [] m = m"
| "exact (x # xs) m = exact xs (effect x m)"

text \<open>A run of the operations; \<open>None\<close> when one of them panics or is refused. A lookup may change the
  bookkeeping of the cache.\<close>

definition apply_op :: "('k \<Rightarrow> 'v \<Rightarrow> 's \<Rightarrow> 's option) \<Rightarrow> ('k \<Rightarrow> 's \<Rightarrow> 's option) \<Rightarrow> ('k \<Rightarrow> 's \<Rightarrow> 's) \<Rightarrow> ('k, 'v) map_op \<Rightarrow> 's \<Rightarrow> 's option" where
  "apply_op put del peek x s = (case x of Put k v \<Rightarrow> put k v s | Del k \<Rightarrow> del k s | Peek k \<Rightarrow> Some (peek k s))"

primrec run_ops :: "('k \<Rightarrow> 'v \<Rightarrow> 's \<Rightarrow> 's option) \<Rightarrow> ('k \<Rightarrow> 's \<Rightarrow> 's option) \<Rightarrow> ('k \<Rightarrow> 's \<Rightarrow> 's) \<Rightarrow> ('k, 'v) map_op list \<Rightarrow> 's \<Rightarrow> 's option" where
  "run_ops put del peek [] s = Some s"
| "run_ops put del peek (x # xs) s = (case apply_op put del peek x s of None \<Rightarrow> None | Some s' \<Rightarrow> run_ops put del peek xs s')"

lemma effect_mono: "m \<subseteq>\<^sub>m m' \<Longrightarrow> effect x m \<subseteq>\<^sub>m effect x m'"
  by (cases x) (auto simp: map_le_def effect_def)

lemma exact_mono: "m \<subseteq>\<^sub>m m' \<Longrightarrow> exact xs m \<subseteq>\<^sub>m exact xs m'"
  by (induction xs arbitrary: m m') (auto intro: effect_mono)

lemma exact_append: "exact (xs @ ys) m = exact ys (exact xs m)"
  by (induction xs arbitrary: m) auto

lemma run_ops_append:
  "run_ops put del peek (xs @ ys) s =
     (case run_ops put del peek xs s of None \<Rightarrow> None | Some s' \<Rightarrow> run_ops put del peek ys s')"
  by (induction xs arbitrary: s) (auto split: option.splits)

locale forgetful_map =
  fixes inv :: "'s \<Rightarrow> bool"
    and get :: "'s \<Rightarrow> 'k \<rightharpoonup> 'v"
    and put :: "'k \<Rightarrow> 'v \<Rightarrow> 's \<Rightarrow> 's option"
    and del :: "'k \<Rightarrow> 's \<Rightarrow> 's option"
    and peek :: "'k \<Rightarrow> 's \<Rightarrow> 's"
  assumes put_inv: "inv s \<Longrightarrow> put k v s = Some s' \<Longrightarrow> inv s'"
    and put_others: "inv s \<Longrightarrow> put k v s = Some s' \<Longrightarrow> get s' \<subseteq>\<^sub>m (get s)(k \<mapsto> v)"
    and del_inv: "inv s \<Longrightarrow> del k s = Some s' \<Longrightarrow> inv s'"
    and del_others: "inv s \<Longrightarrow> del k s = Some s' \<Longrightarrow> get s' \<subseteq>\<^sub>m (get s)(k := None)"
    and peek_inv: "inv s \<Longrightarrow> inv (peek k s)"
    and peek_same: "inv s \<Longrightarrow> get (peek k s) = get s"
begin

lemma del_hides:
  assumes "inv s" "del k s = Some s'"
  shows "get s' k = None"
proof (cases "get s' k")
  case (Some v)
  then have "k \<in> dom (get s')" by auto
  then have "get s' k = ((get s)(k := None)) k" using del_others [OF assms] unfolding map_le_def by blast
  then show ?thesis by simp
qed simp

lemma apply_refines:
  assumes "inv s" "apply_op put del peek x s = Some s'"
  shows "inv s' \<and> get s' \<subseteq>\<^sub>m effect x (get s)"
proof (cases x)
  case (Put k v)
  then have "put k v s = Some s'" using assms(2) by (simp add: apply_op_def)
  then show ?thesis using put_inv [OF assms(1)] put_others [OF assms(1)] Put by (simp add: effect_def)
next
  case (Del k)
  then have "del k s = Some s'" using assms(2) by (simp add: apply_op_def)
  then show ?thesis using del_inv [OF assms(1)] del_others [OF assms(1)] Del by (simp add: effect_def)
next
  case (Peek k)
  then have "s' = peek k s" using assms(2) by (simp add: apply_op_def)
  then show ?thesis using peek_inv [OF assms(1)] peek_same [OF assms(1)] Peek by (simp add: effect_def)
qed

lemma run_refines:
  assumes "inv s" and "run_ops put del peek xs s = Some s'"
  shows "inv s' \<and> get s' \<subseteq>\<^sub>m exact xs (get s)"
  using assms
proof (induction xs arbitrary: s)
  case (Cons x xs)
  obtain s1 where s1: "apply_op put del peek x s = Some s1" and r: "run_ops put del peek xs s1 = Some s'"
    using Cons.prems(2) by (cases "apply_op put del peek x s") auto
  have i: "inv s1" and m: "get s1 \<subseteq>\<^sub>m effect x (get s)" using apply_refines [OF Cons.prems(1) s1] by auto
  have "inv s'" "get s' \<subseteq>\<^sub>m exact xs (get s1)" using Cons.IH [OF i r] by auto
  moreover have "exact xs (get s1) \<subseteq>\<^sub>m exact (x # xs) (get s)" using exact_mono [OF m] by simp
  ultimately show ?case using map_le_trans by blast
qed simp

lemma run_inv: "inv s \<Longrightarrow> run_ops put del peek xs s = Some s' \<Longrightarrow> inv s'"
  using run_refines by blast

end

text \<open>A map that keeps at least what was written last.\<close>

locale lossy_map = forgetful_map +
  assumes put_visible: "inv s \<Longrightarrow> put k v s = Some s' \<Longrightarrow> get s' k = Some v"
begin

lemma run_reads_last_write:
  assumes "inv s" and "run_ops put del peek (xs @ [Put k v]) s = Some s'"
  shows "get s' k = Some v"
proof -
  obtain s1 where s1: "run_ops put del peek xs s = Some s1" "put k v s1 = Some s'"
    using assms(2) by (auto simp: run_ops_append apply_op_def split: option.splits)
  then show ?thesis using put_visible run_inv [OF assms(1) s1(1)] by blast
qed

end

end
