(* ===== verification/Dir_Manager.thy ===== *)
theory Dir_Manager
  imports Dir_Contract Dir_Trie Hashes Lossy_Map
begin

text \<open>
  The directory manager of \<^verbatim>\<open>cache/dir_manager.go\<close>: the flat arrays of entries and identities, cut into
  segments, and the operations on keys. A key's place is computed from its MD5 digest, its identity
  is \<^verbatim>\<open>docKey\<close>. The segment slices of the code alias the flat arrays; the model reads a segment out
  (\<open>get_seg\<close>) and writes it back (\<open>put_seg\<close>). The per-segment locks serialize the operations, so a
  run of the manager is a sequence of them.
\<close>

record DirManager =
  FragmentsNum :: nat
  SegmentsNum :: nat
  BucketsNum :: nat
  BucketsNumPerSegment :: nat
  Dirs :: "Dir list"
  DirFreeStart :: "u16 list"
  identities :: "ident list"
  dm_trie :: DirTrie

definition seg_len :: "DirManager \<Rightarrow> nat" where
  "seg_len dm = BucketsNumPerSegment dm * DirDepth"

definition slice :: "nat \<Rightarrow> nat \<Rightarrow> 'a list \<Rightarrow> 'a list" where
  "slice i n xs = take n (drop i xs)"

definition splice :: "nat \<Rightarrow> 'a list \<Rightarrow> 'a list \<Rightarrow> 'a list" where
  "splice i ys xs = take i xs @ ys @ drop (i + length ys) xs"

definition getSegmentDirs :: "DirManager \<Rightarrow> nat \<Rightarrow> Dir list" where
  "getSegmentDirs dm seg = slice (seg * seg_len dm) (seg_len dm) (Dirs dm)"

definition get_seg :: "DirManager \<Rightarrow> nat \<Rightarrow> Segment" where
  "get_seg dm seg = \<lparr>sg_dirs = getSegmentDirs dm seg, sg_free = DirFreeStart dm ! seg,
     sg_ids = slice (seg * seg_len dm) (seg_len dm) (identities dm)\<rparr>"

definition put_seg :: "nat \<Rightarrow> Segment \<Rightarrow> DirManager \<Rightarrow> DirManager" where
  "put_seg seg sg dm = dm\<lparr>Dirs := splice (seg * seg_len dm) (sg_dirs sg) (Dirs dm),
     DirFreeStart := (DirFreeStart dm)[seg := sg_free sg],
     identities := splice (seg * seg_len dm) (sg_ids sg) (identities dm)\<rparr>"

section \<open>Initialization\<close>

text \<open>The error branch is \<^verbatim>\<open>logger.Fatal\<close>; the segment length is a multiple of \<open>DirDepth\<close>, so it is not taken.\<close>

definition init_seg :: "nat \<Rightarrow> DirManager \<Rightarrow> DirManager" where
  "init_seg seg dm =
     (case linkEmptyDirs (replicate (length (getSegmentDirs dm seg)) dir_zero) of
        Inl _ \<Rightarrow> dm
      | Inr dirs \<Rightarrow> put_seg seg ((get_seg dm seg)\<lparr>sg_dirs := dirs, sg_free := 1\<rparr>) dm)"

definition InitEmptyDirs :: "DirManager \<Rightarrow> DirManager" where
  "InitEmptyDirs dm =
     (let dm = dm\<lparr>identities := replicate (length (identities dm)) zero_ident\<rparr>
      in fold init_seg [0..<SegmentsNum dm] dm)"

text \<open>\<open>None\<close>: with fewer than four entries there is no segment and the code divides by zero.\<close>

definition dm_Init :: "nat \<Rightarrow> (DirManager \<times> nat) option" where
  "dm_Init dirNum =
     (let buckets = dirNum div DirDepth;
          segments = (buckets + MaxBucketsPerSegment - 1) div MaxBucketsPerSegment
      in if segments = 0 then None
         else let per = (buckets + segments - 1) div segments;
                  frags = per * DirDepth * segments;
                  dm = \<lparr>FragmentsNum = frags, SegmentsNum = segments, BucketsNum = buckets,
                        BucketsNumPerSegment = per, Dirs = replicate frags dir_zero,
                        DirFreeStart = replicate segments 0, identities = replicate frags zero_ident,
                        dm_trie = NewDirTrie [int frags]\<rparr>
              in Some (InitEmptyDirs dm, frags))"

section \<open>Lookup, insertion, deletion\<close>

definition calcDirHashPosition :: "bytes \<Rightarrow> nat \<Rightarrow> nat \<Rightarrow> u16 \<times> nat \<times> nat" where
  "calcDirHashPosition key segs buckets =
     (let keyInt64 = be_dec (take 8 (md5 key))
      in (of_nat (keyInt64 div 2 ^ 52), (keyInt64 div 2 ^ 32) mod segs, (keyInt64 mod 2 ^ 32) mod buckets))"

definition position :: "DirManager \<Rightarrow> bytes \<Rightarrow> u16 \<times> nat \<times> nat" where
  "position dm key = calcDirHashPosition key (SegmentsNum dm) (BucketsNumPerSegment dm)"

text \<open>The identity of the slot belongs to another key.\<close>

definition foreign :: "ident \<Rightarrow> ident \<Rightarrow> bool" where
  "foreign slot key \<longleftrightarrow> slot \<noteq> zero_ident \<and> slot \<noteq> key"

definition dm_Get :: "DirManager \<Rightarrow> bytes \<Rightarrow> bool \<times> nat \<times> Dir" where
  "dm_Get dm key =
     (let (keyInt12, segmentId, bucketId) = position dm key;
          (hit, dirOffset, _, d) = dirProbe keyInt12 bucketId (getSegmentDirs dm segmentId);
          global = seg_len dm * segmentId + dirOffset
      in if hit \<and> foreign (identities dm ! global) (docKey key) then (False, dirOffset, dir_zero)
         else (hit, global, d))"

definition new_entry :: "u16 \<Rightarrow> nat \<Rightarrow> int \<Rightarrow> bool \<Rightarrow> Dir option" where
  "new_entry keyInt12 off sz phase =
     map_option (\<lambda>d. dir_setPhase phase (dir_setTag keyInt12 (dir_setHead True d)))
       (dir_setApproxSize (of_int sz) (dir_setOffset (of_nat off) dir_zero))"

definition dm_Set :: "(nat \<Rightarrow> nat) \<Rightarrow> bytes \<Rightarrow> nat \<Rightarrow> int \<Rightarrow> bool \<Rightarrow> DirManager \<Rightarrow> (DirManager \<times> nat) option" where
  "dm_Set rnd key off sz phase dm =
     (let (keyInt12, segmentId, bucketId) = position dm key in do {
        dir \<leftarrow> new_entry keyInt12 off sz phase;
        (sg, offset) \<leftarrow> seg_set rnd keyInt12 bucketId dir (docKey key) (get_seg dm segmentId);
        Some (put_seg segmentId sg dm, seg_len dm * segmentId + offset)
      })"

definition dm_Delete :: "bytes \<Rightarrow> DirManager \<Rightarrow> (DirManager \<times> nat) option" where
  "dm_Delete key dm =
     (let (keyInt12, segmentId, bucketId) = position dm key;
          (hit, index, _, _) = dirProbe keyInt12 bucketId (getSegmentDirs dm segmentId)
      in if hit \<and> foreign (identities dm ! (seg_len dm * segmentId + index)) (docKey key) then Some (dm, 0)
         else do {
           (sg, offset) \<leftarrow> dirDelete keyInt12 bucketId (get_seg dm segmentId);
           Some (put_seg segmentId sg dm, seg_len dm * segmentId + offset)
         })"

definition deleteAt :: "bytes \<Rightarrow> int \<Rightarrow> DirManager \<Rightarrow> (DirManager \<times> bool) option" where
  "deleteAt key expected dm =
     (let (tag, segment, bucket) = position dm key;
          (hit, index, _, dir) = dirProbe tag bucket (getSegmentDirs dm segment)
      in if hit \<and> foreign (identities dm ! (seg_len dm * segment + index)) (docKey key) then Some (dm, False)
         else if \<not> hit then Some (dm, True)
         else if int (unat (dir_offset dir)) \<noteq> expected then Some (dm, False)
         else do {
           (sg, _) \<leftarrow> dirDelete tag bucket (get_seg dm segment);
           Some (put_seg segment sg dm, True)
         })"

section \<open>Removing a phase\<close>

text \<open>The walk restarts at the bucket head after each deletion. It ends when every deletion removes
  an entry; \<open>None\<close> stands for a walk that does not end, leaves the segment or panics.\<close>

partial_function (option) remove_walk :: "bool \<Rightarrow> nat \<Rightarrow> nat \<Rightarrow> Segment \<Rightarrow> Segment option" where
  "remove_walk phase bucket index sg =
     (if index < length (sg_dirs sg) then
        let d = sg_dirs sg ! index in
        if dir_offset d = 0 then Some sg
        else if dir_phase d = phase then
          (case dirDelete (dir_tag d) bucket sg of None \<Rightarrow> None
           | Some r \<Rightarrow> remove_walk phase bucket (bucket * DirDepth) (fst r))
        else if dir_next d = 0 then Some sg
        else remove_walk phase bucket (unat (dir_next d)) sg
      else None)"

primrec remove_buckets :: "bool \<Rightarrow> nat list \<Rightarrow> Segment \<Rightarrow> Segment option" where
  "remove_buckets phase [] sg = Some sg"
| "remove_buckets phase (b # bs) sg = do { sg \<leftarrow> remove_walk phase b (b * DirDepth) sg; remove_buckets phase bs sg }"

primrec remove_segs :: "bool \<Rightarrow> nat list \<Rightarrow> DirManager \<Rightarrow> DirManager option" where
  "remove_segs phase [] dm = Some dm"
| "remove_segs phase (s # ss) dm = do {
     sg \<leftarrow> remove_buckets phase [0..<BucketsNumPerSegment dm] (get_seg dm s);
     remove_segs phase ss (put_seg s sg dm)
   }"

definition removePhase :: "bool \<Rightarrow> DirManager \<Rightarrow> DirManager option" where
  "removePhase phase dm = remove_segs phase [0..<SegmentsNum dm] dm"

section \<open>The stored form\<close>

definition BinarySize :: "DirManager \<Rightarrow> nat" where
  "BinarySize dm = SegmentsNum dm * (seg_len dm * 10 + 2)"

definition marshal_seg :: "Dir list \<Rightarrow> u16 \<Rightarrow> bytes" where
  "marshal_seg dirs free =
     concat (map (\<lambda>d. put_le16 (raw0 d) @ put_le16 (raw1 d) @ put_le16 (raw2 d) @ put_le16 (raw3 d) @ put_le16 (raw4 d)) dirs) @
     put_le16 free"

definition dm_MarshalBinary :: "DirManager \<Rightarrow> bytes" where
  "dm_MarshalBinary dm = concat (map (\<lambda>s. marshal_seg (getSegmentDirs dm s) (DirFreeStart dm ! s)) [0..<SegmentsNum dm])"

definition unmarshal_dir :: "bytes \<Rightarrow> Dir" where
  "unmarshal_dir bs = \<lparr>raw0 = get_le16 (slice 0 2 bs), raw1 = get_le16 (slice 2 2 bs), raw2 = get_le16 (slice 4 2 bs),
     raw3 = get_le16 (slice 6 2 bs), raw4 = get_le16 (slice 8 2 bs)\<rparr>"

definition unmarshal_seg :: "nat \<Rightarrow> bytes \<Rightarrow> Dir list \<times> u16" where
  "unmarshal_seg cnt bs = (map (\<lambda>i. unmarshal_dir (slice (10 * i) 10 bs)) [0..<cnt], get_le16 (slice (10 * cnt) 2 bs))"

primrec unmarshal_segs :: "nat \<Rightarrow> nat \<Rightarrow> bytes \<Rightarrow> (Dir list \<times> u16) list result" where
  "unmarshal_segs cnt 0 bs = Inr []"
| "unmarshal_segs cnt (Suc n) bs =
     (let (dirs, free) = unmarshal_seg cnt bs in
      case validateDirectory dirs free of
        Inl e \<Rightarrow> Inl e
      | Inr _ \<Rightarrow> (case unmarshal_segs cnt n (drop (10 * cnt + 2) bs) of
          Inl e \<Rightarrow> Inl e | Inr rest \<Rightarrow> Inr ((dirs, free) # rest)))"

definition dm_UnmarshalBinary :: "bytes \<Rightarrow> DirManager \<Rightarrow> DirManager \<times> unit result" where
  "dm_UnmarshalBinary data dm =
     (if length data \<noteq> BinarySize dm then (dm, Inl (Err ''invalid directory size''))
      else case unmarshal_segs (seg_len dm) (length (DirFreeStart dm)) data of
        Inl e \<Rightarrow> (dm, Inl e)
      | Inr segs \<Rightarrow> (dm\<lparr>Dirs := concat (map fst segs), DirFreeStart := map snd segs,
                        identities := replicate (length (identities dm)) zero_ident\<rparr>, Inr ()))"

definition UnmarshalBinaryConcurrency :: "bytes \<Rightarrow> DirManager \<Rightarrow> DirManager \<times> unit result" where
  "UnmarshalBinaryConcurrency data dm = dm_UnmarshalBinary data dm"

section \<open>Segments of the flat arrays\<close>

definition dm_shape :: "DirManager \<Rightarrow> bool" where
  "dm_shape dm \<longleftrightarrow> 0 < SegmentsNum dm \<and> 0 < BucketsNumPerSegment dm \<and> BucketsNumPerSegment dm \<le> MaxBucketsPerSegment \<and>
     length (Dirs dm) = SegmentsNum dm * seg_len dm \<and> length (DirFreeStart dm) = SegmentsNum dm \<and>
     length (identities dm) = SegmentsNum dm * seg_len dm"

definition dm_wf :: "DirManager \<Rightarrow> bool" where
  "dm_wf dm \<longleftrightarrow> dm_shape dm \<and> (\<forall>s < SegmentsNum dm. seg_wf (get_seg dm s))"

definition dm_ok :: "DirManager \<Rightarrow> bool" where
  "dm_ok dm \<longleftrightarrow> dm_shape dm \<and> (\<forall>s < SegmentsNum dm. seg_ok (get_seg dm s))"

lemma seg_end: "s < n \<Longrightarrow> s * k + k \<le> n * (k :: nat)"
proof -
  assume "s < n"
  then have "(s + 1) * k \<le> n * k" by (intro mult_le_mono1) simp
  then show ?thesis by (simp add: algebra_simps)
qed

lemma length_slice: "i + n \<le> length xs \<Longrightarrow> length (slice i n xs) = n"
  by (simp add: slice_def)

lemma length_splice: "i + length ys \<le> length xs \<Longrightarrow> length (splice i ys xs) = length xs"
  by (simp add: splice_def)

lemma slice_splice_same: "i + length ys \<le> length xs \<Longrightarrow> slice i (length ys) (splice i ys xs) = ys"
  by (simp add: slice_def splice_def)

lemma nth_splice:
  assumes "i + length ys \<le> length xs" "j < length xs"
  shows "splice i ys xs ! j = (if i \<le> j \<and> j < i + length ys then ys ! (j - i) else xs ! j)"
  using assms by (auto simp: splice_def nth_append)

lemma slice_splice_other:
  assumes "i + length ys \<le> length xs" "j + n \<le> length xs" "j + n \<le> i \<or> i + length ys \<le> j"
  shows "slice j n (splice i ys xs) = slice j n xs"
proof (rule nth_equalityI)
  show "length (slice j n (splice i ys xs)) = length (slice j n xs)"
    using assms by (simp add: slice_def length_splice)
  fix k assume "k < length (slice j n (splice i ys xs))"
  then have "k < n" "j + k < length xs" using assms by (auto simp: slice_def length_splice)
  then show "slice j n (splice i ys xs) ! k = slice j n xs ! k"
    using assms nth_splice [OF assms(1), of "j + k"] by (auto simp: slice_def length_splice)
qed

lemma get_seg_lengths:
  assumes "dm_shape dm" "s < SegmentsNum dm"
  shows "length (sg_dirs (get_seg dm s)) = seg_len dm" "length (sg_ids (get_seg dm s)) = seg_len dm"
    "sg_buckets (get_seg dm s) = BucketsNumPerSegment dm"
  using assms seg_end [OF assms(2), of "seg_len dm"]
  by (simp_all add: dm_shape_def get_seg_def getSegmentDirs_def length_slice sg_buckets_def)
    (simp add: seg_len_def DirDepth_def)

lemma put_seg_shape:
  assumes "dm_shape dm" "s < SegmentsNum dm" "length (sg_dirs sg) = seg_len dm" "length (sg_ids sg) = seg_len dm"
  shows "dm_shape (put_seg s sg dm)" "SegmentsNum (put_seg s sg dm) = SegmentsNum dm" "seg_len (put_seg s sg dm) = seg_len dm"
    "BucketsNumPerSegment (put_seg s sg dm) = BucketsNumPerSegment dm"
  using assms seg_end [OF assms(2), of "seg_len dm"]
  by (simp_all add: dm_shape_def put_seg_def seg_len_def length_splice)

lemma get_put_seg:
  assumes "dm_shape dm" "s < SegmentsNum dm" "length (sg_dirs sg) = seg_len dm" "length (sg_ids sg) = seg_len dm"
    "s' < SegmentsNum dm"
  shows "get_seg (put_seg s sg dm) s' = (if s' = s then sg else get_seg dm s')"
proof -
  let ?k = "seg_len dm"
  have len: "length (Dirs dm) = SegmentsNum dm * ?k" "length (identities dm) = SegmentsNum dm * ?k"
    "length (DirFreeStart dm) = SegmentsNum dm" "seg_len (put_seg s sg dm) = ?k"
    using assms(1) by (auto simp: dm_shape_def put_seg_def seg_len_def)
  note e = seg_end [OF assms(2), of ?k] seg_end [OF assms(5), of ?k]
  show ?thesis
  proof (cases "s' = s")
    case True
    then show ?thesis
      using assms len e slice_splice_same [of "s * ?k" "sg_dirs sg" "Dirs dm"] slice_splice_same [of "s * ?k" "sg_ids sg" "identities dm"]
      by (simp add: get_seg_def getSegmentDirs_def put_seg_def seg_len_def)
  next
    case False
    then consider "s' + 1 \<le> s" | "s + 1 \<le> s'" by linarith
    then have "s' * ?k + ?k \<le> s * ?k \<or> s * ?k + ?k \<le> s' * ?k"
      by cases (auto dest: mult_le_mono1 [where k = ?k] simp: algebra_simps)
    then show ?thesis
      using False assms len e slice_splice_other [of "s * ?k" "sg_dirs sg" "Dirs dm" "s' * ?k" ?k]
        slice_splice_other [of "s * ?k" "sg_ids sg" "identities dm" "s' * ?k" ?k]
      by (simp add: get_seg_def getSegmentDirs_def put_seg_def seg_len_def)
  qed
qed

lemma nth_identities:
  assumes "dm_shape dm" "s < SegmentsNum dm" "i < seg_len dm"
  shows "identities dm ! (seg_len dm * s + i) = sg_ids (get_seg dm s) ! i"
  using assms seg_end [OF assms(2), of "seg_len dm"] by (simp add: get_seg_def slice_def dm_shape_def mult.commute)

lemma position_bounds:
  assumes "dm_shape dm" "position dm key = (t, s, b)"
  shows "s < SegmentsNum dm" "b < BucketsNumPerSegment dm"
  using assms by (auto simp: position_def calcDirHashPosition_def Let_def dm_shape_def)

section \<open>New entries\<close>

lemma setOffset_raw1: "\<not> bit (raw1 (dir_setOffset off dir_zero)) 15"
  by (auto simp: dir_setOffset_def dir_zero_def bit_simps)

lemma setOffset_raw3 [simp]: "raw3 (dir_setOffset off d) = raw3 d"
  by (simp add: dir_setOffset_def)

lemma strip_id: "dir_next d = 0 \<Longrightarrow> strip d = d"
  by (simp add: strip_def dir_next_def)

lemma tag_mask: "k < 4096 \<Longrightarrow> (of_nat k :: u16) AND 0xfff = of_nat k"
proof -
  assume k: "k < 4096"
  have "(of_nat k :: u16) AND 0xfff = take_bit 12 (of_nat k)"
    by (simp add: take_bit_eq_mask mask_eq_exp_minus_1)
  also have "\<dots> = of_nat k"
    using k by (simp add: word_unat_eq_iff unsigned_take_bit_eq unat_of_nat take_bit_nat_eq_self)
  finally show ?thesis .
qed

lemma position_tag:
  assumes "position dm key = (t, s, b)"
  shows "t AND 0xfff = t"
proof -
  have "be_dec (take 8 (md5 key)) < 256 ^ 8"
    using be_dec_less [of "take 8 (md5 key)"] by simp
  then have "be_dec (take 8 (md5 key)) div 2 ^ 52 < 4096" by (simp add: less_mult_imp_div_less)
  then show ?thesis
    using assms tag_mask by (auto simp: position_def calcDirHashPosition_def Let_def)
qed

lemma new_entry_ok:
  assumes off: "0 < off" "off < 2 ^ 40" and sz: "0 < sz" "sz \<le> int DirMaxDataSize" and t: "t AND 0xfff = t"
  shows "\<exists>d. new_entry t off sz ph = Some d \<and> entry_ok t d \<and> unat (dir_offset d) = off \<and> dir_phase d = ph \<and>
    sz \<le> int (unat (dir_approxSize d)) \<and> int (unat (dir_approxSize d)) < sz + int DirDataSizeLv3 \<and> strip d = d"
proof -
  let ?d0 = "dir_setOffset (of_nat off) dir_zero" and ?sz = "of_int sz :: u64"
  have us: "int (unat ?sz) = sz"
    using sz by (simp add: DirMaxDataSize_def uint_word_of_int)
  have pos: "0 < unat ?sz" "unat ?sz \<le> DirMaxDataSize" using us sz by linarith+
  obtain d' where d': "dir_setApproxSize ?sz ?d0 = Some d'" "unat ?sz \<le> unat (dir_approxSize d')"
    "unat (dir_approxSize d') < unat ?sz + DirDataSizeLv3"
    using approxSize_bounds [of ?d0 ?sz] setOffset_raw1 pos by blast
  let ?d = "dir_setPhase ph (dir_setTag t (dir_setHead True d'))"
  note f = setApproxSize_frame [OF d'(1)]
  have o: "dir_offset d' = of_nat off"
    using off unfolding f(1) offset_setOffset
    by (simp add: word_unat_eq_iff unsigned_take_bit_eq unat_of_nat take_bit_nat_eq_self)
  have uo: "unat (of_nat off :: u64) = off" using off by (simp add: unat_of_nat)
  have n: "dir_next ?d = 0" using f(3) by (simp add: dir_next_def dir_zero_def)
  have "dir_offset d' \<noteq> 0" using o uo off(1) by (metis unat_0 less_irrefl)
  then have "entry_ok t ?d" using n t by (simp add: entry_ok_def)
  moreover have "int (unat (dir_approxSize d')) < sz + int DirDataSizeLv3" using d'(3) us by linarith
  moreover have "sz \<le> int (unat (dir_approxSize d'))" using d'(2) us by linarith
  ultimately show ?thesis
    using d'(1) o uo n by (intro exI [of _ ?d]) (simp add: new_entry_def strip_id)
qed

section \<open>The manager as a map\<close>

text \<open>A key is known to the manager by its segment, bucket, tag and identity.\<close>

type_synonym slot = "nat \<times> nat \<times> u16 \<times> ident"

definition slot_of :: "DirManager \<Rightarrow> bytes \<Rightarrow> slot" where
  "slot_of dm key = (let (t, s, b) = position dm key in (s, b, t, docKey key))"

definition in_range :: "DirManager \<Rightarrow> slot \<Rightarrow> bool" where
  "in_range dm k \<longleftrightarrow> (case k of (s, b, t, i) \<Rightarrow> s < SegmentsNum dm \<and> b < BucketsNumPerSegment dm)"

definition dm_find :: "DirManager \<Rightarrow> slot \<rightharpoonup> Dir" where
  "dm_find dm k = (case k of (s, b, t, i) \<Rightarrow>
     if in_range dm k then
       (case seg_get (get_seg dm s) b t of
          Some (d, i') \<Rightarrow> if foreign i' i then None else Some d
        | None \<Rightarrow> None)
     else None)"

lemma dm_find_simp:
  "in_range dm (s, b, t, i) \<Longrightarrow> dm_find dm (s, b, t, i) =
     (case seg_get (get_seg dm s) b t of Some (d, i') \<Rightarrow> if foreign i' i then None else Some d | None \<Rightarrow> None)"
  by (simp add: dm_find_def)

lemma slot_of_range: "dm_shape dm \<Longrightarrow> in_range dm (slot_of dm key)"
  using position_bounds [of dm key] by (auto simp: slot_of_def in_range_def split: prod.splits)

lemma seg_probe_bound:
  assumes "seg_ok sg" "b < sg_buckets sg" "dirProbe t b (sg_dirs sg) = (True, x, p, d)"
  shows "x < length (sg_dirs sg)"
proof -
  obtain C F where inv: "sg_inv sg C F {}" using assms(1) by (auto simp: seg_ok_def)
  show ?thesis
    by (rule probe_cases [OF inv assms(2), of t]) (use assms kept_inv_used(2) [OF inv assms(2)] in auto)
qed

lemma dirProbe_miss_zero:
  assumes "seg_ok sg" "b < sg_buckets sg" "dirProbe t b (sg_dirs sg) = (False, x, p, d)"
  shows "d = dir_zero"
proof -
  obtain C F where inv: "sg_inv sg C F {}" using assms(1) by (auto simp: seg_ok_def)
  show ?thesis
    by (rule probe_cases [OF inv assms(2), of t]) (use assms in auto)
qed

lemma dm_Get_find:
  assumes "dm_ok dm"
  shows "case dm_find dm (slot_of dm key) of
      None \<Rightarrow> \<exists>g. dm_Get dm key = (False, g, dir_zero)
    | Some d \<Rightarrow> \<exists>g d'. dm_Get dm key = (True, g, d') \<and> strip d' = d"
proof -
  obtain t s b where p: "position dm key = (t, s, b)" by (metis prod_cases3)
  have sh: "dm_shape dm" using assms by (simp add: dm_ok_def)
  note bd = position_bounds [OF sh p]
  obtain hit x q d where pr: "dirProbe t b (sg_dirs (get_seg dm s)) = (hit, x, q, d)" by (metis prod_cases4)
  have sl: "slot_of dm key = (s, b, t, docKey key)" using p by (simp add: slot_of_def)
  have r: "in_range dm (s, b, t, docKey key)" using bd by (simp add: in_range_def)
  have ok: "seg_ok (get_seg dm s)" using assms bd by (simp add: dm_ok_def)
  note gl = get_seg_lengths [OF sh bd(1)]
  have id: "hit \<Longrightarrow> identities dm ! (seg_len dm * s + x) = sg_ids (get_seg dm s) ! x"
    using nth_identities [OF sh bd(1)] seg_probe_bound [OF ok, of b t x q d] pr bd gl by auto
  have z: "\<not> hit \<Longrightarrow> d = dir_zero"
    using dirProbe_miss_zero [OF ok, of b t x q d] pr bd gl by auto
  show ?thesis
    unfolding sl dm_find_simp [OF r]
    using pr id z p by (auto simp: dm_Get_def seg_get_def getSegmentDirs_def get_seg_def)
qed

text \<open>An all-zero identity in a slot means that the identity is not known, so the slot answers to every
  key of its place. A key whose own identity is zero is therefore kept apart from the others: the map
  with \<open>z = False\<close> holds the keys with an identity, the map with \<open>z = True\<close> those without.\<close>

definition dm_sees :: "bool \<Rightarrow> DirManager \<Rightarrow> slot \<rightharpoonup> Dir" where
  "dm_sees z dm k = (case k of (s, b, t, i) \<Rightarrow> if (i = zero_ident) = z then dm_find dm k else None)"

text \<open>Writing and deleting by slot. The first component of the state is the outcome of the random
  numbers that the coming insertions draw.\<close>

type_synonym dir_state = "(nat \<Rightarrow> nat \<Rightarrow> nat) \<times> DirManager"

definition dm_put :: "bool \<Rightarrow> slot \<Rightarrow> Dir \<Rightarrow> dir_state \<Rightarrow> dir_state option" where
  "dm_put z k d st = (case k of (s, b, t, i) \<Rightarrow>
     if in_range (snd st) k \<and> entry_ok t d \<and> strip d = d \<and> (i = zero_ident) = z then
       map_option (\<lambda>(sg, _). (\<lambda>n. fst st (Suc n), put_seg s sg (snd st)))
         (seg_set (fst st 0) t b d i (get_seg (snd st) s))
     else None)"

definition dm_del :: "bool \<Rightarrow> slot \<Rightarrow> dir_state \<Rightarrow> dir_state option" where
  "dm_del z k st = (case k of (s, b, t, i) \<Rightarrow>
     if in_range (snd st) k \<and> del_safe b (get_seg (snd st) s) \<and> (i = zero_ident) = z then
       (case seg_get (get_seg (snd st) s) b t of
          Some (d, i') \<Rightarrow>
            if foreign i' i then Some st
            else map_option (\<lambda>(sg, _). (fst st, put_seg s sg (snd st))) (dirDelete t b (get_seg (snd st) s))
        | None \<Rightarrow> map_option (\<lambda>(sg, _). (fst st, put_seg s sg (snd st))) (dirDelete t b (get_seg (snd st) s)))
     else None)"

lemma seg_wf_len: "seg_wf sg \<Longrightarrow> length (sg_ids sg) = length (sg_dirs sg)"
  by (simp add: seg_wf_def)

lemma put_seg_wf:
  assumes "dm_wf dm" "s < SegmentsNum dm" "seg_wf sg" "length (sg_dirs sg) = seg_len dm"
  shows "dm_wf (put_seg s sg dm)"
  using assms put_seg_shape [of dm s sg] seg_wf_len [OF assms(3)] get_put_seg [of dm s sg]
  by (auto simp: dm_wf_def)

lemma lossy_stepD:
  assumes "lossy_step sg b t e sg'"
  shows "length (sg_dirs sg') = length (sg_dirs sg)" "seg_get sg' b t = e" "t' \<noteq> t \<Longrightarrow> seg_get sg' b t' = seg_get sg b t'"
    "c < sg_buckets sg \<Longrightarrow> c \<noteq> b \<Longrightarrow> seg_get sg' c t' = seg_get sg c t' \<or> seg_get sg' c t' = None"
  using assms unfolding lossy_step_def by auto

lemma map_le_updI:
  assumes "m' k = v" "\<And>k' d. m' k' = Some d \<Longrightarrow> k' \<noteq> k \<Longrightarrow> m k' = Some d"
  shows "m' \<subseteq>\<^sub>m m(k := v)"
  unfolding map_le_def
proof
  fix a assume "a \<in> dom m'"
  then obtain d where "m' a = Some d" by auto
  then show "m' a = (m(k := v)) a" using assms by (cases "a = k") auto
qed

lemma dm_find_step:
  assumes wf: "dm_wf dm" and r: "in_range dm (s, b, t, i)" and st: "lossy_step (get_seg dm s) b t e sg" and sg: "seg_wf sg"
    and e: "e = None \<or> (\<exists>d. e = Some (d, i))" and z: "(i = zero_ident) = z"
  shows "dm_sees z (put_seg s sg dm) \<subseteq>\<^sub>m (dm_sees z dm)((s, b, t, i) := map_option fst e)"
    "dm_sees z (put_seg s sg dm) (s, b, t, i) = map_option fst e"
proof -
  have sh: "dm_shape dm" and s: "s < SegmentsNum dm" and b: "b < BucketsNumPerSegment dm"
    using wf r by (auto simp: dm_wf_def in_range_def)
  note gl = get_seg_lengths [OF sh s]
  have len: "length (sg_dirs sg) = seg_len dm" "length (sg_ids sg) = seg_len dm"
    using st gl seg_wf_len [OF sg] by (auto simp: lossy_step_def)
  note ps = put_seg_shape [OF sh s len] and gp = get_put_seg [OF sh s len]
  have ir: "in_range (put_seg s sg dm) k = in_range dm k" for k by (simp add: in_range_def ps)
  have rr: "in_range (put_seg s sg dm) (s, b, t, i)" using r ir by simp
  have g: "seg_get sg b t = e" using st by (simp add: lossy_step_def)
  show 1: "dm_sees z (put_seg s sg dm) (s, b, t, i) = map_option fst e"
    using gp [OF s] g e z by (auto simp: foreign_def dm_sees_def dm_find_simp [OF rr])
  have "dm_find dm (s', b', t', i') = Some d"
    if "dm_find (put_seg s sg dm) (s', b', t', i') = Some d" "(i' = zero_ident) = z" "(s', b', t', i') \<noteq> (s, b, t, i)" for s' b' t' i' d
  proof -
    have r': "in_range (put_seg s sg dm) (s', b', t', i')" using that(1) by (auto simp: dm_find_def split: if_splits)
    then have r'': "in_range dm (s', b', t', i')" and s': "s' < SegmentsNum dm" and b': "b' < sg_buckets (get_seg dm s)"
      using ir gl by (auto simp: in_range_def)
    note f = that(1) [unfolded dm_find_simp [OF r']]
    note ne = that(3) and z' = that(2)
    consider "s' \<noteq> s" | "s' = s" "b' \<noteq> b" | "s' = s" "b' = b" "t' \<noteq> t" | "s' = s" "b' = b" "t' = t" "i' \<noteq> i" using ne by blast
    then show ?thesis
    proof cases
      case 1
      then show ?thesis using f gp [OF s'] unfolding dm_find_simp [OF r''] by simp
    next
      case 2
      then have "seg_get sg b' t' = seg_get (get_seg dm s) b' t' \<or> seg_get sg b' t' = None"
        by (intro lossy_stepD(4) [OF st b'])
      then show ?thesis using f gp [OF s'] 2 unfolding dm_find_simp [OF r''] by auto
    next
      case 3
      then have "seg_get sg b' t' = seg_get (get_seg dm s) b' t'" using lossy_stepD(3) [OF st] by blast
      then show ?thesis using f gp [OF s'] 3 unfolding dm_find_simp [OF r''] by simp
    next
      case 4
      then show ?thesis using f gp [OF s'] g e z z' by (auto simp: foreign_def split: if_splits)
    qed
  qed
  then have "dm_sees z dm k = Some d" if "dm_sees z (put_seg s sg dm) k = Some d" "k \<noteq> (s, b, t, i)" for k d
    using that by (auto simp: dm_sees_def split: prod.splits if_splits)
  then show "dm_sees z (put_seg s sg dm) \<subseteq>\<^sub>m (dm_sees z dm)((s, b, t, i) := map_option fst e)"
    by (intro map_le_updI, goal_cases) (use 1 in simp, blast)
qed

lemma dm_put_step:
  assumes wf: "dm_wf (snd st)" and p: "dm_put z k d st = Some st'"
  shows "dm_wf (snd st') \<and> dm_sees z (snd st') \<subseteq>\<^sub>m (dm_sees z (snd st))(k \<mapsto> d) \<and> dm_sees z (snd st') k = Some d"
proof -
  obtain s b t i where k: "k = (s, b, t, i)" by (metis prod_cases4)
  have r: "in_range (snd st) (s, b, t, i)" and e: "entry_ok t d" "strip d = d" "(i = zero_ident) = z"
    using p unfolding dm_put_def k by (auto split: if_splits)
  obtain sg x where sg: "seg_set (fst st 0) t b d i (get_seg (snd st) s) = Some (sg, x)"
    and st': "snd st' = put_seg s sg (snd st)"
    using p r e unfolding dm_put_def k by auto
  have s: "s < SegmentsNum (snd st)" and b: "b < sg_buckets (get_seg (snd st) s)"
    using r get_seg_lengths(3) [of "snd st" s] wf by (auto simp: in_range_def dm_wf_def)
  have w: "seg_wf (get_seg (snd st) s)" using wf s by (simp add: dm_wf_def)
  have o: "seg_wf sg" "lossy_step (get_seg (snd st) s) b t (Some (d, i)) sg"
    using seg_set_ok [OF w b e(1) sg] e(2) by auto
  have "length (sg_dirs sg) = seg_len (snd st)"
    using o(2) get_seg_lengths(1) [of "snd st" s] wf s by (simp add: lossy_step_def dm_wf_def)
  then show ?thesis
    using dm_find_step [OF wf r o(2,1) _ e(3)] put_seg_wf [OF wf s o(1)] by (simp add: st' k)
qed

lemma dm_del_step:
  assumes wf: "dm_wf (snd st)" and p: "dm_del z k st = Some st'"
  shows "dm_wf (snd st') \<and> dm_sees z (snd st') \<subseteq>\<^sub>m (dm_sees z (snd st))(k := None)"
proof -
  obtain s b t i where k: "k = (s, b, t, i)" by (metis prod_cases4)
  have r: "in_range (snd st) (s, b, t, i)" and sf: "del_safe b (get_seg (snd st) s)" and z: "(i = zero_ident) = z"
    using p unfolding dm_del_def k by (auto split: if_splits)
  have s: "s < SegmentsNum (snd st)" and b: "b < sg_buckets (get_seg (snd st) s)"
    using r get_seg_lengths(3) [of "snd st" s] wf by (auto simp: in_range_def dm_wf_def)
  have w: "seg_wf (get_seg (snd st) s)" using wf s by (simp add: dm_wf_def)
  obtain sg x where d: "dirDelete t b (get_seg (snd st) s) = Some (sg, x)" "seg_wf sg" "lossy_step (get_seg (snd st) s) b t None sg"
    using seg_delete_ok [OF w b sf] by blast
  consider (same) d' i' where "seg_get (get_seg (snd st) s) b t = Some (d', i')" "foreign i' i" "st' = st" |
    (del) "snd st' = put_seg s sg (snd st)"
    using p r sf z d(1) unfolding dm_del_def k by (auto split: option.splits if_splits)
  then show ?thesis
  proof cases
    case same
    then show ?thesis using wf r by (auto simp: map_le_def k dm_find_simp dm_sees_def)
  next
    case del
    have "length (sg_dirs sg) = seg_len (snd st)"
      using d(3) get_seg_lengths(1) [of "snd st" s] wf s by (simp add: lossy_step_def dm_wf_def)
    then show ?thesis
      using dm_find_step [OF wf r d(3,2) _ z] put_seg_wf [OF wf s d(2)] del by (simp add: k)
  qed
qed

interpretation dir_map: lossy_map "\<lambda>st. dm_wf (snd st)" "\<lambda>st. dm_sees z (snd st)" "dm_put z" "dm_del z" "\<lambda>_ st. st" for z
proof (unfold_locales, goal_cases)
  case (1 s k v s')
  then show ?case using dm_put_step by blast
next
  case (2 s k v s')
  then show ?case using dm_put_step by blast
next
  case (3 s k s')
  then show ?case using dm_del_step by blast
next
  case (4 s k s')
  then show ?case using dm_del_step by blast
next
  case (5 s k)
  then show ?case .
next
  case (6 s k)
  then show ?case by simp
next
  case (7 s k v s')
  then show ?case using dm_put_step by blast
qed

end
