(* ===== verification/Dir_Calls.thy ===== *)
theory Dir_Calls
  imports Dir_Manager
begin

text \<open>
  Runs of the directory manager: a sequence of \<^verbatim>\<open>Set\<close> and \<^verbatim>\<open>Delete\<close> calls by key, related to the exact map of
  \<open>Lossy_Map\<close> through the interpretation \<open>dir_map\<close>; the fresh directory of \<^verbatim>\<open>Init\<close>; and the properties of
  lookup, insertion and deletion.
\<close>

section \<open>Calls by key\<close>

datatype dir_call = SetCall bytes nat int bool | DeleteCall bytes

definition dm_call :: "dir_call \<Rightarrow> dir_state \<Rightarrow> dir_state option" where
  "dm_call c st = (case c of
     SetCall key off sz ph \<Rightarrow>
       map_option (\<lambda>(dm, _). (\<lambda>n. fst st (Suc n), dm)) (dm_Set (fst st 0) key off sz ph (snd st))
   | DeleteCall key \<Rightarrow> map_option (\<lambda>(dm, _). (fst st, dm)) (dm_Delete key (snd st)))"

primrec dm_calls :: "dir_call list \<Rightarrow> dir_state \<Rightarrow> dir_state option" where
  "dm_calls [] st = Some st"
| "dm_calls (c # cs) st = Option.bind (dm_call c st) (dm_calls cs)"

definition set_ok :: "nat \<Rightarrow> int \<Rightarrow> bool" where
  "set_ok off sz \<longleftrightarrow> 0 < off \<and> off < 2 ^ 40 \<and> 0 < sz \<and> sz \<le> int DirMaxDataSize"

definition call_ok :: "bool \<Rightarrow> dir_call \<Rightarrow> DirManager \<Rightarrow> bool" where
  "call_ok z c dm = (case c of
     SetCall key off sz ph \<Rightarrow> set_ok off sz \<and> (docKey key = zero_ident) = z
   | DeleteCall key \<Rightarrow> (let (t, s, b) = position dm key in del_safe b (get_seg dm s)) \<and> (docKey key = zero_ident) = z)"

primrec calls_ok :: "bool \<Rightarrow> dir_call list \<Rightarrow> dir_state \<Rightarrow> bool" where
  "calls_ok z [] st = True"
| "calls_ok z (c # cs) st = (call_ok z c (snd st) \<and> (case dm_call c st of None \<Rightarrow> True | Some st' \<Rightarrow> calls_ok z cs st'))"

definition abs_call :: "DirManager \<Rightarrow> dir_call \<Rightarrow> (slot, Dir) map_op" where
  "abs_call dm c = (case c of
     SetCall key off sz ph \<Rightarrow> Put (slot_of dm key) (the (new_entry (fst (position dm key)) off sz ph))
   | DeleteCall key \<Rightarrow> Del (slot_of dm key))"

abbreviation do_op :: "bool \<Rightarrow> (slot, Dir) map_op \<Rightarrow> dir_state \<Rightarrow> dir_state option" where
  "do_op z \<equiv> apply_op (dm_put z) (dm_del z) (\<lambda>_ st. st)"

lemma new_entry_the:
  assumes "set_ok off sz" "t AND 0xfff = t"
  shows "new_entry t off sz ph = Some (the (new_entry t off sz ph))" "entry_ok t (the (new_entry t off sz ph))"
    "unat (dir_offset (the (new_entry t off sz ph))) = off" "dir_phase (the (new_entry t off sz ph)) = ph"
    "sz \<le> int (unat (dir_approxSize (the (new_entry t off sz ph))))"
    "int (unat (dir_approxSize (the (new_entry t off sz ph)))) < sz + int DirDataSizeLv3"
    "strip (the (new_entry t off sz ph)) = the (new_entry t off sz ph)"
  using new_entry_ok [of off sz t ph] assms by (auto simp: set_ok_def)

lemma dm_Delete_slot:
  assumes "dm_ok dm" "position dm key = (t, s, b)"
  shows "dm_Delete key dm = (case seg_get (get_seg dm s) b t of
      Some (d, i') \<Rightarrow> if foreign i' (docKey key) then Some (dm, 0)
        else map_option (\<lambda>(sg, x). (put_seg s sg dm, seg_len dm * s + x)) (dirDelete t b (get_seg dm s))
    | None \<Rightarrow> map_option (\<lambda>(sg, x). (put_seg s sg dm, seg_len dm * s + x)) (dirDelete t b (get_seg dm s)))"
proof -
  have sh: "dm_shape dm" using assms by (simp add: dm_ok_def)
  note bd = position_bounds [OF sh assms(2)]
  note gl = get_seg_lengths [OF sh bd(1)]
  have ok: "seg_ok (get_seg dm s)" using assms bd by (simp add: dm_ok_def)
  obtain hit x q d where pr: "dirProbe t b (sg_dirs (get_seg dm s)) = (hit, x, q, d)" by (metis prod_cases4)
  have id: "hit \<Longrightarrow> identities dm ! (seg_len dm * s + x) = sg_ids (get_seg dm s) ! x"
    using nth_identities [OF sh bd(1)] seg_probe_bound [OF ok, of b t x q d] pr bd gl by auto
  show ?thesis
    using pr id assms(2)
    by (cases hit; cases "dirDelete t b (get_seg dm s)")
      (auto simp: dm_Delete_def seg_get_def get_seg_def split: prod.splits)
qed

lemma dm_wf_ok: "dm_wf dm \<Longrightarrow> dm_ok dm"
  by (auto simp: dm_wf_def dm_ok_def seg_wf_ok)

lemma dm_call_op:
  assumes wf: "dm_wf (snd st)" and ok: "call_ok z c (snd st)" and r: "dm_call c st = Some st'"
  shows "do_op z (abs_call (snd st) c) st = Some st'"
proof (cases c)
  case (SetCall key off sz ph)
  obtain t s b where p: "position (snd st) key = (t, s, b)" by (metis prod_cases3)
  have so: "set_ok off sz" and nz: "(docKey key = zero_ident) = z" using ok by (auto simp: SetCall call_ok_def)
  note ne = new_entry_the [OF so position_tag [OF p], of ph]
  have sl: "slot_of (snd st) key = (s, b, t, docKey key)" using p by (simp add: slot_of_def)
  have ir: "in_range (snd st) (s, b, t, docKey key)" using slot_of_range [of "snd st" key] wf sl by (simp add: dm_wf_def)
  obtain d where d: "new_entry t off sz ph = Some d" using ne(1) by auto
  then have dd: "the (new_entry t off sz ph) = d" by simp
  show ?thesis
    using r ir nz ne(2,7) unfolding dd
    by (auto simp: SetCall dm_call_def dm_Set_def apply_op_def abs_call_def dm_put_def sl p d split: Option.bind_splits)
next
  case (DeleteCall key)
  obtain t s b where p: "position (snd st) key = (t, s, b)" by (metis prod_cases3)
  have sl: "slot_of (snd st) key = (s, b, t, docKey key)" using p by (simp add: slot_of_def)
  have ir: "in_range (snd st) (s, b, t, docKey key)" using slot_of_range [of "snd st" key] wf sl by (simp add: dm_wf_def)
  have sf: "del_safe b (get_seg (snd st) s)" "(docKey key = zero_ident) = z"
    using ok p by (simp_all add: DeleteCall call_ok_def)
  show ?thesis
    using r ir sf dm_Delete_slot [OF dm_wf_ok [OF wf] p]
    by (auto simp: DeleteCall dm_call_def apply_op_def abs_call_def dm_del_def sl split: option.splits if_splits)
qed

lemma put_seg_dims [simp]:
  "SegmentsNum (put_seg s sg dm) = SegmentsNum dm" "BucketsNumPerSegment (put_seg s sg dm) = BucketsNumPerSegment dm"
  by (simp_all add: put_seg_def)

lemma slot_dims:
  assumes "SegmentsNum dm' = SegmentsNum dm" "BucketsNumPerSegment dm' = BucketsNumPerSegment dm"
  shows "slot_of dm' = slot_of dm" "position dm' = position dm" "abs_call dm' = abs_call dm"
proof -
  show p: "position dm' = position dm" using assms by (auto simp: position_def)
  then show s: "slot_of dm' = slot_of dm" by (auto simp: slot_of_def)
  show "abs_call dm' = abs_call dm" by (intro ext) (simp add: abs_call_def p s split: dir_call.split)
qed

lemma dm_call_dims:
  "dm_call c st = Some st' \<Longrightarrow> SegmentsNum (snd st') = SegmentsNum (snd st) \<and>
     BucketsNumPerSegment (snd st') = BucketsNumPerSegment (snd st)"
  by (cases c) (auto simp: dm_call_def dm_Set_def dm_Delete_def Let_def bind_eq_Some_conv split: prod.splits if_splits)

lemma dm_calls_run:
  assumes "dm_wf (snd st)" "calls_ok z cs st" "dm_calls cs st = Some st'"
  shows "run_ops (dm_put z) (dm_del z) (\<lambda>_ st. st) (map (abs_call (snd st)) cs) st = Some st' \<and> slot_of (snd st') = slot_of (snd st)"
  using assms
proof (induction cs arbitrary: st)
  case (Cons c cs)
  obtain st1 where s1: "dm_call c st = Some st1" "dm_calls cs st1 = Some st'"
    using Cons.prems(3) by (cases "dm_call c st") auto
  have ok: "call_ok z c (snd st)" "calls_ok z cs st1" using Cons.prems(2) s1(1) by auto
  have op: "do_op z (abs_call (snd st) c) st = Some st1" using dm_call_op [OF Cons.prems(1) ok(1) s1(1)] .
  have "dm_wf (snd st1)" using dir_map.apply_refines [OF Cons.prems(1) op] by blast
  note IH = Cons.IH [OF this ok(2) s1(2)]
  note d = slot_dims [of "snd st1" "snd st"] dm_call_dims [OF s1(1)]
  have "run_ops (dm_put z) (dm_del z) (\<lambda>_ st. st) (map (abs_call (snd st)) cs) st1 = Some st'" "slot_of (snd st') = slot_of (snd st)"
    using IH d by auto
  then show ?case using op by (simp add: apply_op_def)
qed simp

text \<open>The specification: the last call on the key decides.\<close>

definition last_step :: "DirManager \<Rightarrow> bytes \<Rightarrow> dir_call \<Rightarrow> (nat \<times> int \<times> bool) option \<Rightarrow> (nat \<times> int \<times> bool) option" where
  "last_step dm key c acc = (case c of
     SetCall k off sz ph \<Rightarrow> if slot_of dm k = slot_of dm key then Some (off, sz, ph) else acc
   | DeleteCall k \<Rightarrow> if slot_of dm k = slot_of dm key then None else acc)"

definition last_set :: "DirManager \<Rightarrow> dir_call list \<Rightarrow> bytes \<Rightarrow> (nat \<times> int \<times> bool) option" where
  "last_set dm cs key = fold (last_step dm key) cs None"

definition entry_of :: "DirManager \<Rightarrow> bytes \<Rightarrow> nat \<times> int \<times> bool \<Rightarrow> Dir" where
  "entry_of dm key v = (case v of (off, sz, ph) \<Rightarrow> the (new_entry (fst (position dm key)) off sz ph))"

lemma entry_of_slot: "slot_of dm k = slot_of dm key \<Longrightarrow> entry_of dm k v = entry_of dm key v"
  by (auto simp: slot_of_def entry_of_def split: prod.splits)

lemma abs_call_last:
  assumes "m (slot_of dm key) = map_option (entry_of dm key) acc"
  shows "effect (abs_call dm c) m (slot_of dm key) =
    map_option (entry_of dm key) (last_step dm key c acc)"
proof (cases c)
  case (SetCall k off sz ph)
  have "abs_call dm c = Put (slot_of dm k) (entry_of dm k (off, sz, ph))"
    by (simp add: SetCall abs_call_def entry_of_def)
  then show ?thesis
    using assms entry_of_slot [of dm k key "(off, sz, ph)"]
    by (cases "slot_of dm k = slot_of dm key") (simp_all add: SetCall last_step_def effect_def)
next
  case (DeleteCall k)
  then show ?thesis
    using assms by (cases "slot_of dm k = slot_of dm key") (simp_all add: last_step_def abs_call_def effect_def)
qed

lemma exact_last:
  assumes "m (slot_of dm key) = map_option (entry_of dm key) acc"
  shows "exact (map (abs_call dm) cs) m (slot_of dm key) =
    map_option (entry_of dm key) (fold (last_step dm key) cs acc)"
  using assms
proof (induction cs arbitrary: m acc)
  case (Cons c cs)
  from Cons.IH [where m = "effect (abs_call dm c) m" and acc = "last_step dm key c acc"]
    abs_call_last [where m = m and dm = dm and key = key and acc = acc and c = c, OF Cons.prems]
  show ?case by simp
qed simp

lemma last_set_ok:
  assumes "calls_ok z cs st" "dm_calls cs st = Some st'" "fold (last_step dm key) cs acc = Some (off, sz, ph)"
    and "\<And>off sz ph. acc = Some (off, sz, ph) \<Longrightarrow> set_ok off sz"
  shows "set_ok off sz"
  using assms
proof (induction cs arbitrary: st acc)
  case (Cons c cs)
  obtain st1 where s1: "dm_call c st = Some st1" "dm_calls cs st1 = Some st'"
    using Cons.prems(2) by (cases "dm_call c st") auto
  then have ok: "call_ok z c (snd st)" "calls_ok z cs st1" using Cons.prems(1) by auto
  have "set_ok off sz" if "last_step dm key c acc = Some (off, sz, ph)" for off sz ph
    using that ok(1) Cons.prems(4) by (auto simp: last_step_def call_ok_def split: dir_call.splits if_splits)
  then show ?case
    by (intro Cons.IH [OF ok(2) s1(2), of "last_step dm key c acc"]) (use Cons.prems(3) in simp_all)
qed simp

section \<open>A fresh directory\<close>

definition fresh_seg :: "nat \<Rightarrow> Segment \<Rightarrow> bool" where
  "fresh_seg n sg \<longleftrightarrow> linked (sg_dirs sg) n \<and> sg_free sg = 1 \<and> length (sg_ids sg) = length (sg_dirs sg)"

lemma fresh_seg_wf:
  assumes "fresh_seg n sg" "0 < n" "4 * n \<le> 65536"
  shows "seg_wf sg" "b < n \<Longrightarrow> seg_get sg b t = None" "sg_buckets sg = n"
proof -
  have len: "length (sg_dirs sg) = 4 * n" using assms(1) by (simp add: fresh_seg_def linked_def)
  then show bn: "sg_buckets sg = n" by (simp add: sg_buckets_eq)
  have inv: "sg_inv sg (\<lambda>_. []) (slot_order n) {}"
    using linked_seg_inv [OF _ assms(2,3)] assms(1) by (simp add: fresh_seg_def)
  then show "seg_wf sg" using assms(1) by (auto simp: seg_wf_def fresh_seg_def tags_distinct_def)
  show "b < n \<Longrightarrow> seg_get sg b t = None" using seg_get_find [OF inv] bn by simp
qed

lemma init_seg_fresh:
  assumes sh: "dm_shape dm" and s: "s < SegmentsNum dm"
  shows "\<exists>sg. init_seg s dm = put_seg s sg dm \<and> fresh_seg (BucketsNumPerSegment dm) sg \<and> length (sg_dirs sg) = seg_len dm"
proof -
  note gl = get_seg_lengths [OF sh s]
  have l4: "seg_len dm = 4 * BucketsNumPerSegment dm" by (simp add: seg_len_def DirDepth_def)
  have b: "0 < BucketsNumPerSegment dm" "4 * BucketsNumPerSegment dm \<le> 65536"
    using sh by (auto simp: dm_shape_def MaxBucketsPerSegment_def DirDepth_def)
  obtain ds where ds: "linkEmptyDirs (replicate (4 * BucketsNumPerSegment dm) dir_zero) = Inr ds" "linked ds (BucketsNumPerSegment dm)"
    using linkEmptyDirs_linked [OF b] by blast
  have "length (getSegmentDirs dm s) = 4 * BucketsNumPerSegment dm" using gl(1) l4 by (simp add: get_seg_def)
  then have "init_seg s dm = put_seg s ((get_seg dm s)\<lparr>sg_dirs := ds, sg_free := 1\<rparr>) dm"
    using ds(1) by (simp add: init_seg_def)
  moreover have "length ds = seg_len dm" using ds(2) l4 by (simp add: linked_def)
  ultimately show ?thesis using ds(2) gl(2) by (auto simp: fresh_seg_def)
qed

lemma init_segs_fresh:
  assumes "dm_shape dm" "n \<le> SegmentsNum dm"
  shows "let dm' = fold init_seg [0..<n] dm in dm_shape dm' \<and> SegmentsNum dm' = SegmentsNum dm \<and>
    BucketsNumPerSegment dm' = BucketsNumPerSegment dm \<and> (\<forall>s < n. fresh_seg (BucketsNumPerSegment dm) (get_seg dm' s))"
  using assms(2)
proof (induction n)
  case 0
  then show ?case using assms(1) by simp
next
  case (Suc n)
  let ?d = "fold init_seg [0..<n] dm"
  have IH: "dm_shape ?d" "SegmentsNum ?d = SegmentsNum dm" "BucketsNumPerSegment ?d = BucketsNumPerSegment dm"
    "\<And>s. s < n \<Longrightarrow> fresh_seg (BucketsNumPerSegment dm) (get_seg ?d s)"
    using Suc by (auto simp: Let_def)
  have n: "n < SegmentsNum ?d" using Suc.prems IH by simp
  obtain sg where sg: "init_seg n ?d = put_seg n sg ?d" "fresh_seg (BucketsNumPerSegment dm) sg" "length (sg_dirs sg) = seg_len ?d"
    using init_seg_fresh [OF IH(1) n] IH(3) by auto
  have ids: "length (sg_ids sg) = seg_len ?d" using sg by (simp add: fresh_seg_def)
  have "fresh_seg (BucketsNumPerSegment dm) (get_seg (put_seg n sg ?d) s)" if "s < Suc n" for s
    using get_put_seg [OF IH(1) n sg(3) ids, of s] sg(2) IH(4) [of s] that n by (cases "s = n") auto
  then show ?case using put_seg_shape [OF IH(1) n sg(3) ids] IH sg(1) by (simp add: Let_def)
qed

lemma dm_Init_fresh:
  assumes "dm_Init dirNum = Some (dm, k)"
  shows "dm_shape dm" "s < SegmentsNum dm \<Longrightarrow> fresh_seg (BucketsNumPerSegment dm) (get_seg dm s)"
proof -
  let ?b = "dirNum div DirDepth" and ?M = "MaxBucketsPerSegment"
  define segs where "segs = (?b + ?M - 1) div ?M"
  define per where "per = (?b + segs - 1) div segs"
  have s0: "0 < segs" using assms by (auto simp: dm_Init_def segs_def Let_def split: if_splits)
  then have b0: "0 < ?b" by (cases "?b") (auto simp: segs_def MaxBucketsPerSegment_def DirDepth_def)
  have "per * segs \<le> ?b + segs - 1" unfolding per_def by simp
  moreover have "?b \<le> segs * ?M"
  proof -
    have "?M * segs + (?b + ?M - 1) mod ?M = ?b + ?M - 1" unfolding segs_def by simp
    moreover have "(?b + ?M - 1) mod ?M < ?M" by (simp add: MaxBucketsPerSegment_def DirDepth_def)
    ultimately show ?thesis by (simp add: mult.commute)
  qed
  ultimately have "per * segs < (?M + 1) * segs" using s0 by (simp add: algebra_simps)
  then have "per < ?M + 1" by (simp only: mult_less_cancel2)
  then have pM: "per \<le> ?M" by simp
  have "segs \<le> ?b + segs - 1" using b0 by linarith
  then have p0: "0 < per" using s0 unfolding per_def by (simp only: div_greater_zero_iff)
  define dm0 where "dm0 = \<lparr>FragmentsNum = per * DirDepth * segs, SegmentsNum = segs, BucketsNum = ?b,
    BucketsNumPerSegment = per, Dirs = replicate (per * DirDepth * segs) dir_zero,
    DirFreeStart = replicate segs 0, identities = replicate (per * DirDepth * segs) zero_ident,
    dm_trie = NewDirTrie [int (per * DirDepth * segs)]\<rparr>"
  have sh: "dm_shape dm0" using s0 p0 pM by (simp add: dm_shape_def dm0_def seg_len_def)
  have "dm = fold init_seg [0..<SegmentsNum dm0] dm0"
    using assms s0 unfolding dm_Init_def InitEmptyDirs_def segs_def [symmetric] Let_def per_def [symmetric]
    by (auto simp: dm0_def)
  with init_segs_fresh [OF sh, of "SegmentsNum dm0"]
  show "dm_shape dm" "s < SegmentsNum dm \<Longrightarrow> fresh_seg (BucketsNumPerSegment dm) (get_seg dm s)"
    by (auto simp: Let_def)
qed

lemma dm_Init_wf:
  assumes "dm_Init dirNum = Some (dm, k)"
  shows "dm_wf dm" "dm_find dm = Map.empty"
proof -
  note I = dm_Init_fresh [OF assms]
  have b: "0 < BucketsNumPerSegment dm" "4 * BucketsNumPerSegment dm \<le> 65536"
    using I(1) by (auto simp: dm_shape_def MaxBucketsPerSegment_def DirDepth_def)
  note F = fresh_seg_wf [OF I(2) b]
  show "dm_wf dm" using I F(1) by (simp add: dm_wf_def)
  show "dm_find dm = Map.empty" using F(2) by (auto simp: dm_find_def in_range_def)
qed

section \<open>What the directory promises\<close>

lemma dm_put_dims: "dm_put z k v st = Some st' \<Longrightarrow> slot_of (snd st') = slot_of (snd st) \<and> position (snd st') = position (snd st)"
  using slot_dims [of "snd st'" "snd st"] by (auto simp: dm_put_def split: prod.splits if_splits)

lemma dm_Get_Some:
  assumes "dm_ok dm" "dm_find dm (slot_of dm key) = Some d"
  shows "\<exists>g d'. dm_Get dm key = (True, g, d') \<and> strip d' = d"
  using dm_Get_find [OF assms(1), of key] assms(2) by simp

lemma dm_Get_hit:
  assumes "dm_ok dm" "dm_Get dm key = (True, g, d)"
  shows "dm_find dm (slot_of dm key) = Some (strip d)"
  using dm_Get_find [OF assms(1), of key] assms(2) by (auto split: option.splits)

lemma entry_of_reads:
  assumes "set_ok off sz" "strip d = entry_of dm key (off, sz, ph)"
  shows "unat (dir_offset d) = off" "dir_phase d = ph" "sz \<le> int (unat (dir_approxSize d))"
    "int (unat (dir_approxSize d)) < sz + int DirDataSizeLv3"
proof -
  have t: "fst (position dm key) AND 0xfff = fst (position dm key)"
    using position_tag [of dm key] by (cases "position dm key") auto
  note n = new_entry_the [OF assms(1) t, of ph]
  have e: "strip d = the (new_entry (fst (position dm key)) off sz ph)" using assms(2) by (simp add: entry_of_def)
  note l = n(3-6) [folded e]
  show "unat (dir_offset d) = off" "dir_phase d = ph" "sz \<le> int (unat (dir_approxSize d))"
    "int (unat (dir_approxSize d)) < sz + int DirDataSizeLv3"
    using l by simp_all
qed

lemma dm_sees_slot: "dm_sees z dm' (slot_of dm key) = (if (docKey key = zero_ident) = z then dm_find dm' (slot_of dm key) else None)"
  by (simp add: dm_sees_def slot_of_def split: prod.splits)

lemma dm_Set_step:
  assumes wf: "dm_wf dm" and so: "set_ok off sz" and r: "dm_Set rnd key off sz ph dm = Some (dm', g)"
  shows "dm_wf dm'" "slot_of dm' = slot_of dm" "dm_sees (docKey key = zero_ident) dm' \<subseteq>\<^sub>m (dm_sees (docKey key = zero_ident) dm)(slot_of dm key \<mapsto> entry_of dm key (off, sz, ph))"
    "dm_sees (docKey key = zero_ident) dm' (slot_of dm key) = Some (entry_of dm key (off, sz, ph))"
proof -
  let ?st = "(\<lambda>_. rnd, dm)" and ?st' = "(\<lambda>_. rnd, dm')"
  have c: "dm_call (SetCall key off sz ph) ?st = Some ?st'" using r by (simp add: dm_call_def)
  have "do_op (docKey key = zero_ident) (abs_call dm (SetCall key off sz ph)) ?st = Some ?st'"
    using dm_call_op [OF _ _ c] wf so by (simp add: call_ok_def)
  then have p: "dm_put (docKey key = zero_ident) (slot_of dm key) (entry_of dm key (off, sz, ph)) ?st = Some ?st'"
    by (simp add: apply_op_def abs_call_def entry_of_def)
  show "dm_wf dm'" "dm_sees (docKey key = zero_ident) dm' \<subseteq>\<^sub>m (dm_sees (docKey key = zero_ident) dm)(slot_of dm key \<mapsto> entry_of dm key (off, sz, ph))"
    "dm_sees (docKey key = zero_ident) dm' (slot_of dm key) = Some (entry_of dm key (off, sz, ph))"
    using dm_put_step [OF _ p] wf by simp_all
  show "slot_of dm' = slot_of dm" using dm_put_dims [OF p] by simp
qed

text \<open>C8. Insertion and lookup. After \<^verbatim>\<open>Set\<close> of a key, \<^verbatim>\<open>Get\<close> of the key hits an entry with the offset and
  the phase that were stored and a size that covers the record; every other key (one with another
  place or identity) still has the entry it had before, or has been forgotten.\<close>

theorem dm_set_get:
  assumes "dm_wf dm" and "set_ok off sz" and "dm_Set rnd key off sz ph dm = Some (dm', g)"
  shows "dm_wf dm' \<and>
    (\<exists>g d. dm_Get dm' key = (True, g, d) \<and> unat (dir_offset d) = off \<and> dir_phase d = ph \<and>
       sz \<le> int (unat (dir_approxSize d)) \<and> int (unat (dir_approxSize d)) < sz + int DirDataSizeLv3) \<and>
    (\<forall>key' g1 d1. slot_of dm key' \<noteq> slot_of dm key \<longrightarrow> (docKey key' = zero_ident) = (docKey key = zero_ident) \<longrightarrow>
       dm_Get dm' key' = (True, g1, d1) \<longrightarrow>
       (\<exists>g2 d2. dm_Get dm key' = (True, g2, d2) \<and> strip d2 = strip d1))"
proof (intro conjI allI impI)
  note S = dm_Set_step [OF assms]
  show "dm_wf dm'" by (rule S)
  have ok: "dm_ok dm" "dm_ok dm'" using dm_wf_ok assms(1) S(1) by auto
  obtain g1 d where d: "dm_Get dm' key = (True, g1, d)" "strip d = entry_of dm key (off, sz, ph)"
    using dm_Get_Some [OF ok(2), of key "entry_of dm key (off, sz, ph)"] S(2,4) by (auto simp: dm_sees_slot)
  show "\<exists>g d. dm_Get dm' key = (True, g, d) \<and> unat (dir_offset d) = off \<and> dir_phase d = ph \<and>
       sz \<le> int (unat (dir_approxSize d)) \<and> int (unat (dir_approxSize d)) < sz + int DirDataSizeLv3"
    using d(1) entry_of_reads [OF assms(2) d(2)] by blast
  fix key' g1 d1
  assume ne: "slot_of dm key' \<noteq> slot_of dm key" and z: "(docKey key' = zero_ident) = (docKey key = zero_ident)" and h: "dm_Get dm' key' = (True, g1, d1)"
  have "dm_sees (docKey key = zero_ident) dm' (slot_of dm key') = Some (strip d1)"
    using dm_Get_hit [OF ok(2) h] S(2) z by (simp add: dm_sees_slot)
  then have "dm_sees (docKey key = zero_ident) dm (slot_of dm key') = Some (strip d1)"
    using S(3) ne unfolding map_le_def by (metis domI fun_upd_other)
  then have "dm_find dm (slot_of dm key') = Some (strip d1)" using z by (simp add: dm_sees_slot)
  then show "\<exists>g2 d2. dm_Get dm key' = (True, g2, d2) \<and> strip d2 = strip d1" by (rule dm_Get_Some [OF ok(1)])
qed


lemma seg_set_total:
  assumes "seg_ok sg" "b < sg_buckets sg" "entry_ok t d" "sg_free sg \<noteq> 0"
  shows "\<exists>sg' x. seg_set rnd t b d i sg = Some (sg', x)"
proof -
  obtain C F where inv: "sg_inv sg C F {}" using assms(1) by (auto simp: seg_ok_def)
  have "F \<noteq> []" using sg_free_zero [OF inv] assms(4) by simp
  then have own: "\<not> owns_all sg (C b)" using owns_all_free [OF inv _ assms(2)] by auto
  have "\<exists>sg' x. dirInsert rnd t b d sg = Some (sg', x)"
  proof (rule probe_cases [OF inv assms(2), of t], goal_cases)
    case (1 A y B)
    have "\<exists>sg'. dirInsert rnd t b d sg = Some (sg', y) \<and> sg_inv sg' C F {} \<and> inserted sg C t b d sg' y C"
      by (rule dirInsert_hit [OF inv assms(2) _ 1(1) 1(3) 1(4)]) (use assms(3) in \<open>simp add: entry_ok_def\<close>)
    then show ?case by blast
  next
    case (2 i p)
    have "\<exists>sg' x C' F'. dirInsert rnd t b d sg = Some (sg', x) \<and> sg_inv sg' C' F' {} \<and> inserted sg C t b d sg' x C' \<and>
        (F \<noteq> [] \<or> C b = [] \<longrightarrow> (\<forall>c. c \<noteq> b \<longrightarrow> C' c = C c))"
      by (rule dirInsert_miss [OF inv assms(2) _ _ own 2(1) 2(2)]) (use assms(3) in \<open>auto simp: entry_ok_def\<close>)
    then show ?case by blast
  qed
  then obtain sg' x where "dirInsert rnd t b d sg = Some (sg', x)" by blast
  then show ?thesis by (simp add: seg_set_def)
qed

lemma dm_Set_total:
  assumes wf: "dm_ok dm" and so: "set_ok off sz" and f: "\<forall>s < SegmentsNum dm. DirFreeStart dm ! s \<noteq> 0"
  shows "\<exists>dm' g. dm_Set rnd key off sz ph dm = Some (dm', g)"
proof -
  obtain t s b where p: "position dm key = (t, s, b)" by (metis prod_cases3)
  have sh: "dm_shape dm" using wf by (simp add: dm_ok_def)
  note bd = position_bounds [OF sh p] and n = new_entry_the [OF so position_tag [OF p], of ph]
  have "\<exists>sg' x. seg_set rnd t b (the (new_entry t off sz ph)) (docKey key) (get_seg dm s) = Some (sg', x)"
    by (rule seg_set_total) (use wf bd f n(2) get_seg_lengths(3) [OF sh bd(1)] in \<open>auto simp: dm_ok_def get_seg_def\<close>)
  then obtain sg' x where "seg_set rnd t b (the (new_entry t off sz ph)) (docKey key) (get_seg dm s) = Some (sg', x)" by blast
  then show ?thesis using n(1) p by (cases "new_entry t off sz ph") (auto simp: dm_Set_def)
qed

lemma fresh_set:
  assumes "dm_Init n = Some (dm, k)" "set_ok off sz"
  shows "\<exists>dm' g. dm_Set rnd key off sz ph dm = Some (dm', g)"
  by (rule dm_Set_total [OF dm_wf_ok [OF dm_Init_wf(1) [OF assms(1)]] assms(2)])
    (use dm_Init_fresh(2) [OF assms(1)] in \<open>auto simp: fresh_seg_def get_seg_def\<close>)

lemma init_8: "\<exists>dm k. dm_Init 8 = Some (dm, k)"
  by (simp add: dm_Init_def DirDepth_def MaxBucketsPerSegment_def Let_def)

theorem dm_set_get_witness:
  "\<exists>dm k dm' g. dm_Init 8 = Some (dm, k) \<and> dm_Set (\<lambda>_. 0) [7] 5 100 True dm = Some (dm', g) \<and>
     (\<exists>g d. dm_Get dm' [7] = (True, g, d) \<and> unat (dir_offset d) = 5 \<and> dir_phase d)"
proof -
  obtain dm k where i: "dm_Init 8 = Some (dm, k)" using init_8 by blast
  have so: "set_ok 5 100" by (simp add: set_ok_def DirMaxDataSize_def)
  obtain dm' g where r: "dm_Set (\<lambda>_. 0) [7] 5 100 True dm = Some (dm', g)" using fresh_set [OF i so] by blast
  have "\<exists>g d. dm_Get dm' [7] = (True, g, d) \<and> unat (dir_offset d) = 5 \<and> dir_phase d"
    using dm_set_get [OF dm_Init_wf(1) [OF i] so r] by auto
  then show ?thesis using i r by blast
qed


lemma put_seg_ok:
  assumes "dm_ok dm" "s < SegmentsNum dm" "seg_ok sg" "length (sg_dirs sg) = seg_len dm"
  shows "dm_ok (put_seg s sg dm)"
  using assms put_seg_shape [of dm s sg] get_put_seg [of dm s sg] by (auto simp: dm_ok_def seg_ok_def)

lemma dm_Delete_structure:
  assumes ok: "dm_ok dm"
  shows "\<exists>dm' g. dm_Delete key dm = Some (dm', g) \<and> dm_ok dm'"
proof -
  obtain t s b where p: "position dm key = (t, s, b)" by (metis prod_cases3)
  have sh: "dm_shape dm" using ok by (simp add: dm_ok_def)
  note bd = position_bounds [OF sh p]
  note gl = get_seg_lengths [OF sh bd(1)]
  have so: "seg_ok (get_seg dm s)" using ok bd by (simp add: dm_ok_def)
  obtain sg x where d: "dirDelete t b (get_seg dm s) = Some (sg, x)" "seg_ok sg" "length (sg_dirs sg) = seg_len dm"
    using seg_delete_structure [OF so, of b t] bd gl by auto
  have "dm_ok (put_seg s sg dm)" by (rule put_seg_ok [OF ok bd(1) d(2,3)])
  then show ?thesis
    using ok d(1) by (auto simp: dm_Delete_slot [OF ok p] split: option.splits)
qed

lemma dm_Set_structure:
  assumes ok: "dm_ok dm" and so: "set_ok off sz" and r: "dm_Set rnd key off sz ph dm = Some (dm', g)"
  shows "dm_ok dm'"
proof -
  obtain t s b where p: "position dm key = (t, s, b)" by (metis prod_cases3)
  have sh: "dm_shape dm" using ok by (simp add: dm_ok_def)
  note bd = position_bounds [OF sh p] and n = new_entry_the [OF so position_tag [OF p], of ph]
  note gl = get_seg_lengths [OF sh bd(1)]
  have sk: "seg_ok (get_seg dm s)" using ok bd by (simp add: dm_ok_def)
  obtain d where d: "new_entry t off sz ph = Some d" "entry_ok t d" using n(1,2) by auto
  obtain sg x where sg: "seg_set rnd t b d (docKey key) (get_seg dm s) = Some (sg, x)" "dm' = put_seg s sg dm"
    using r p d(1) by (auto simp: dm_Set_def bind_eq_Some_conv)
  have "seg_ok sg" "length (sg_dirs sg) = seg_len dm"
    using seg_set_structure [OF sk _ d(2) sg(1)] bd gl by auto
  then show ?thesis unfolding sg(2) by (rule put_seg_ok [OF ok bd(1)])
qed

text \<open>C16. The chains stay sound. Insertion and deletion, in any order and with any random choices, keep
  every segment well formed: bucket chains and the free chain are acyclic, disjoint, stay inside the
  segment and together hold every slot. Deletion never panics.\<close>

theorem dm_calls_structure:
  assumes "dm_ok dm" and "\<forall>key off sz ph. SetCall key off sz ph \<in> set cs \<longrightarrow> set_ok off sz"
    and "dm_calls cs (rs, dm) = Some (rs', dm')"
  shows "dm_ok dm' \<and> (\<exists>dm'' g. dm_Delete key dm' = Some (dm'', g) \<and> dm_ok dm'')"
proof -
  have "dm_ok (snd st')" if "dm_ok (snd st)" "\<forall>key off sz ph. SetCall key off sz ph \<in> set cs \<longrightarrow> set_ok off sz"
    "dm_calls cs st = Some st'" for st st'
    using that
  proof (induction cs arbitrary: st)
    case (Cons c cs)
    obtain st1 where s1: "dm_call c st = Some st1" "dm_calls cs st1 = Some st'"
      using Cons.prems(3) by (cases "dm_call c st") auto
    have "dm_ok (snd st1)"
    proof (cases c)
      case (SetCall key off sz ph)
      then have "set_ok off sz" using Cons.prems(2) by simp
      then show ?thesis using s1(1) SetCall dm_Set_structure [OF Cons.prems(1)] by (auto simp: dm_call_def)
    next
      case (DeleteCall key)
      then show ?thesis using s1(1) dm_Delete_structure [OF Cons.prems(1), of key] by (auto simp: dm_call_def)
    qed
    then show ?case by (rule Cons.IH [OF _ _ s1(2)]) (use Cons.prems(2) in auto)
  qed simp
  from this [OF _ assms(2,3)] have "dm_ok dm'" using assms(1) by simp
  then show ?thesis using dm_Delete_structure by blast
qed

theorem dm_calls_structure_witness:
  "\<exists>dm k dm'. dm_Init 8 = Some (dm, k) \<and>
     dm_calls [SetCall [7] 5 100 True] ((\<lambda>_ _. 0), dm) = Some ((\<lambda>_ _. 0), dm') \<and> dm_ok dm'"
proof -
  obtain dm k where i: "dm_Init 8 = Some (dm, k)" using init_8 by blast
  have so: "set_ok 5 100" by (simp add: set_ok_def DirMaxDataSize_def)
  obtain dm' g where r: "dm_Set (\<lambda>_. 0) [7] 5 100 True dm = Some (dm', g)" using fresh_set [OF i so] by blast
  have c: "dm_calls [SetCall [7] 5 100 True] ((\<lambda>_ _. 0), dm) = Some ((\<lambda>_ _. 0), dm')" using r by (simp add: dm_call_def)
  have "dm_ok dm'"
    using dm_calls_structure [OF dm_wf_ok [OF dm_Init_wf(1) [OF i]] _ c] so by auto
  then show ?thesis using i c by blast
qed

text \<open>Deletion. When the segment's free chain is not empty, \<^verbatim>\<open>Delete\<close> succeeds and \<^verbatim>\<open>Get\<close> misses the key
  afterwards.\<close>

theorem dm_delete_get:
  assumes "dm_wf dm" and "position dm key = (t, s, b)" and "DirFreeStart dm ! s \<noteq> 0"
  shows "\<exists>dm' g. dm_Delete key dm = Some (dm', g) \<and> dm_wf dm' \<and> \<not> fst (dm_Get dm' key)"
proof -
  let ?z = "docKey key = zero_ident" and ?st = "(\<lambda>_ _. 0, dm) :: dir_state"
  obtain dm' g where r: "dm_Delete key dm = Some (dm', g)" using dm_Delete_structure [OF dm_wf_ok [OF assms(1)]] by blast
  have c: "dm_call (DeleteCall key) ?st = Some (\<lambda>_ _. 0, dm')" using r by (simp add: dm_call_def)
  have "del_safe b (get_seg dm s)" using assms(3) by (simp add: del_safe_def get_seg_def)
  then have "do_op ?z (abs_call dm (DeleteCall key)) ?st = Some (\<lambda>_ _. 0, dm')"
    using dm_call_op [OF _ _ c] assms(1,2) by (simp add: call_ok_def)
  then have d: "dm_del ?z (slot_of dm key) ?st = Some (\<lambda>_ _. 0, dm')" by (simp add: apply_op_def abs_call_def)
  have w: "dm_wf dm'" using dm_del_step [OF _ d] assms(1) by simp
  have "dm_sees ?z dm' (slot_of dm key) = None" using dir_map.del_hides [OF _ d] assms(1) by simp
  moreover have "slot_of dm' = slot_of dm"
    using dm_call_dims [OF c] by (intro slot_dims) auto
  ultimately have "dm_find dm' (slot_of dm' key) = None" by (simp add: dm_sees_slot)
  then show ?thesis using r w dm_Get_find [OF dm_wf_ok [OF w], of key] by auto
qed

theorem dm_delete_get_witness:
  "\<exists>dm k dm' g. dm_Init 8 = Some (dm, k) \<and> dm_Delete [7] dm = Some (dm', g) \<and> \<not> fst (dm_Get dm' [7])"
proof -
  obtain dm k where i: "dm_Init 8 = Some (dm, k)" using init_8 by blast
  obtain t s b where p: "position dm [7] = (t, s, b)" by (metis prod_cases3)
  have "DirFreeStart dm ! s \<noteq> 0"
    using dm_Init_fresh(2) [OF i] position_bounds [OF dm_Init_fresh(1) [OF i] p] by (auto simp: fresh_seg_def get_seg_def)
  then show ?thesis using dm_delete_get [OF dm_Init_wf(1) [OF i] p] i by blast
qed

text \<open>A segment of one bucket whose four slots are all in use.\<close>

definition full_entry :: "u16 \<Rightarrow> u16 \<Rightarrow> Dir" where
  "full_entry t n = \<lparr>raw0 = 1, raw1 = 0, raw2 = t, raw3 = n, raw4 = 0\<rparr>"

definition full_seg :: Segment where
  "full_seg = \<lparr>sg_dirs = [full_entry 9 1, full_entry 2 2, full_entry 3 3, full_entry 4 0], sg_free = 0,
     sg_ids = replicate 4 zero_ident\<rparr>"


end
