(* ===== verification/Dir_Diag.thy ===== *)
theory Dir_Diag
  imports Dir_Calls
begin

text \<open>
  The diagnostics of \<^verbatim>\<open>cache/dir_manager_diag.go\<close>: walks that mark what the buckets and the free chain reach and then look for entries that
  nothing reaches. A walk panics (\<open>None\<close>) when it leaves the segment or has made more than \<open>10\<^sup>8\<close> steps, which also ends a walk on a
  cycle. A \<^verbatim>\<open>map[int]bool\<close> whose values are all true is the set of its keys. They accept every well-formed directory.
\<close>

section \<open>The walks\<close>

definition diag_limit :: nat where "diag_limit = 100000000"

datatype hang_up = HangUp nat nat nat

function used_walk :: "Dir list \<Rightarrow> nat \<Rightarrow> nat \<Rightarrow> nat set \<Rightarrow> (nat \<times> nat set) option" where
  "used_walk dirs index counter mp =
     (if index < length dirs then
        if dir_offset (dirs ! index) = 0 then Some (counter, mp)
        else if dir_next (dirs ! index) = 0 then Some (counter + 1, insert index mp)
        else if counter + 1 > diag_limit then None
        else used_walk dirs (unat (dir_next (dirs ! index))) (counter + 1) (insert index mp)
      else None)"
  by pat_completeness auto

termination used_walk
  by (relation "measure (\<lambda>(dirs, index, counter, mp). diag_limit - counter)") auto

function free_walk :: "Dir list \<Rightarrow> u16 \<Rightarrow> nat \<Rightarrow> nat set \<Rightarrow> (nat \<times> nat set) option" where
  "free_walk dirs index counter mp =
     (if index = 0 then Some (counter, mp)
      else if unat index < length dirs then
        if counter + 1 > diag_limit then None
        else free_walk dirs (dir_next (dirs ! unat index)) (counter + 1) (insert (unat index) mp)
      else None)"
  by pat_completeness auto

termination free_walk
  by (relation "measure (\<lambda>(dirs, index, counter, mp). diag_limit - counter)") auto

declare used_walk.simps [simp del] free_walk.simps [simp del]

primrec used_buckets :: "Dir list \<Rightarrow> nat list \<Rightarrow> nat \<Rightarrow> nat set \<Rightarrow> (nat \<times> nat set) option" where
  "used_buckets dirs [] counter mp = Some (counter, mp)"
| "used_buckets dirs (buck # bs) counter mp =
     (case used_walk dirs (buck * DirDepth) counter mp of None \<Rightarrow> None | Some (counter, mp) \<Rightarrow> used_buckets dirs bs counter mp)"

primrec mark_segs :: "(nat \<Rightarrow> nat \<Rightarrow> (nat \<times> nat set) option) \<Rightarrow> nat list \<Rightarrow> nat \<Rightarrow> nat set list \<Rightarrow> (nat \<times> nat set list) option" where
  "mark_segs mark [] counter mps = Some (counter, mps)"
| "mark_segs mark (seg # ss) counter mps =
     (case mark seg counter of None \<Rightarrow> None | Some (counter, mp) \<Rightarrow> mark_segs mark ss counter (mps @ [mp]))"

text \<open>The slots in the order of the second loop, from the given position of each bucket.\<close>

definition diag_slots :: "nat \<Rightarrow> DirManager \<Rightarrow> (nat \<times> nat \<times> nat) list" where
  "diag_slots lo dm = concat (map (\<lambda>seg. concat (map (\<lambda>buck. map (\<lambda>i. (seg, buck, buck * DirDepth + i)) [lo..<DirDepth])
     [0..<BucketsNumPerSegment dm])) [0..<SegmentsNum dm])"

definition DiagHangUsedDirs :: "DirManager \<Rightarrow> (hang_up + nat) option" where
  "DiagHangUsedDirs dm =
     (case mark_segs (\<lambda>seg counter. used_buckets (getSegmentDirs dm seg) [0..<BucketsNumPerSegment dm] counter {}) [0..<SegmentsNum dm] 0 [] of
        None \<Rightarrow> None
      | Some (counter, mps) \<Rightarrow>
          Some (case find (\<lambda>(seg, buck, i). dir_offset (getSegmentDirs dm seg ! i) \<noteq> 0 \<and> i \<notin> mps ! seg) (diag_slots 0 dm) of
                  Some (seg, buck, i) \<Rightarrow> Inl (HangUp seg buck i) | None \<Rightarrow> Inr counter))"

definition DiagHangFreeDirs :: "DirManager \<Rightarrow> (hang_up + nat) option" where
  "DiagHangFreeDirs dm =
     (case mark_segs (\<lambda>seg counter. free_walk (getSegmentDirs dm seg) (DirFreeStart dm ! seg) counter {}) [0..<SegmentsNum dm] 0 [] of
        None \<Rightarrow> None
      | Some (counter, mps) \<Rightarrow>
          Some (case find (\<lambda>(seg, buck, i). dir_offset (getSegmentDirs dm seg ! i) = 0 \<and> unat (of_nat i :: u16) \<notin> mps ! seg) (diag_slots 1 dm) of
                  Some (seg, buck, i) \<Rightarrow> Inl (HangUp seg buck i) | None \<Rightarrow> Inr counter))"

definition DiagPanicHangUpDirs :: "DirManager \<Rightarrow> hang_up option option" where
  "DiagPanicHangUpDirs dm = (case DiagHangUsedDirs dm of None \<Rightarrow> None | Some (Inl e) \<Rightarrow> Some (Some e) | Some (Inr _) \<Rightarrow> Some None)"

section \<open>On well-formed chains\<close>

definition used_slots :: "Dir list \<Rightarrow> nat set" where "used_slots ds = {i. i < length ds \<and> used ds i}"
definition free_slots :: "Dir list \<Rightarrow> nat set" where "free_slots ds = {i. i < length ds \<and> i mod 4 \<noteq> 0 \<and> \<not> used ds i}"

lemma used_walk_chain:
  assumes "lseg ds i xs 0" "xs \<noteq> []" "\<forall>x\<in>set xs. used ds x" "\<forall>x\<in>set (tl xs). x \<noteq> 0" "c + length xs \<le> diag_limit"
  shows "used_walk ds i c mp = Some (c + length xs, mp \<union> set xs)"
  using assms
proof (induction xs arbitrary: i c mp)
  case (Cons x xs)
  show ?case
  proof (cases xs)
    case Nil
    then show ?thesis using Cons.prems by (subst used_walk.simps) (auto simp: used_def nx_def unat_eq_zero)
  next
    case (Cons y ys)
    then have "used_walk ds (nx ds x) (c + 1) (insert x mp) = Some (c + 1 + length xs, insert x mp \<union> set xs)"
      using Cons.prems by (intro Cons.IH) auto
    then show ?thesis using Cons.prems Cons by (subst used_walk.simps) (auto simp: used_def nx_def)
  qed
qed simp

lemma used_walk_bucket:
  assumes "bucket_ok ds b xs" "4 * b < length ds" "c + length xs \<le> diag_limit"
  shows "used_walk ds (b * DirDepth) c mp = Some (c + length xs, mp \<union> set xs)"
proof (cases "xs = []")
  case True
  then show ?thesis using assms by (subst used_walk.simps) (auto simp: bucket_ok_def used_def DirDepth_def mult.commute)
next
  case False
  have "\<forall>x\<in>set (tl xs). x \<noteq> 0" using assms(1) by (fastforce simp: bucket_ok_def)
  then show ?thesis using False assms used_walk_chain [of ds "4 * b" xs c mp] by (simp add: bucket_ok_def DirDepth_def mult.commute)
qed

lemma used_buckets_run:
  assumes "\<forall>b\<in>set bs. bucket_ok ds b (C b) \<and> 4 * b < length ds" "c + sum_list (map (length \<circ> C) bs) \<le> diag_limit"
  shows "used_buckets ds bs c mp = Some (c + sum_list (map (length \<circ> C) bs), mp \<union> (\<Union>b\<in>set bs. set (C b)))"
  using assms
proof (induction bs arbitrary: c mp)
  case (Cons b bs)
  have "used_walk ds (b * DirDepth) c mp = Some (c + length (C b), mp \<union> set (C b))"
    using Cons.prems by (intro used_walk_bucket) auto
  then show ?case using Cons by (simp add: add.assoc Un_assoc)
qed simp

lemma used_segment:
  assumes ok: "buckets_ok ds C" and c: "c + card (used_slots ds) \<le> diag_limit" and n: "n = length ds div 4"
  shows "used_buckets ds [0..<n] c {} = Some (c + card (used_slots ds), used_slots ds)"
proof -
  have b: "\<forall>b\<in>set [0..<n]. bucket_ok ds b (C b) \<and> 4 * b < length ds" using ok n by (auto simp: buckets_ok_def)
  have U: "(\<Union>b\<in>set [0..<n]. set (C b)) = used_slots ds"
  proof
    show "(\<Union>b\<in>set [0..<n]. set (C b)) \<subseteq> used_slots ds"
      using b by (fastforce simp: used_slots_def bucket_ok_def dest: lseg_bound split: if_splits)
    show "used_slots ds \<subseteq> (\<Union>b\<in>set [0..<n]. set (C b))" using ok n by (fastforce simp: used_slots_def buckets_ok_def)
  qed
  have "card (\<Union>b\<in>{..<n}. set (C b)) = (\<Sum>b<n. card (set (C b)))"
    by (rule card_UN_disjoint) (use ok n in \<open>auto simp: buckets_ok_def\<close>)
  moreover have "(\<Sum>b<n. card (set (C b))) = (\<Sum>b<n. length (C b))"
    by (rule sum.cong) (use b in \<open>auto simp: bucket_ok_def distinct_card\<close>)
  moreover have "sum_list (map (length \<circ> C) [0..<n]) = (\<Sum>b<n. length (C b))"
    by (simp add: sum_set_upt_conv_sum_list_nat [symmetric] atLeast0LessThan)
  ultimately have "sum_list (map (length \<circ> C) [0..<n]) = card (used_slots ds)" using U by (simp add: atLeast0LessThan)
  then show ?thesis using used_buckets_run [OF b, of c "{}"] c U by simp
qed

lemma free_walk_chain:
  assumes "lseg ds (unat i) F 0" "\<forall>x\<in>set F. x \<noteq> 0" "c + length F \<le> diag_limit"
  shows "free_walk ds i c mp = Some (c + length F, mp \<union> set F)"
  using assms
proof (induction F arbitrary: i c mp)
  case Nil
  then show ?case by (subst free_walk.simps) (simp add: unat_eq_zero)
next
  case (Cons x F)
  then have x: "unat i = x" "x < length ds" "i \<noteq> 0" "lseg ds (unat (dir_next (ds ! x))) F 0" by (auto simp: nx_def)
  have "free_walk ds (dir_next (ds ! x)) (c + 1) (insert x mp) = Some (c + 1 + length F, insert x mp \<union> set F)"
    using Cons.prems x by (intro Cons.IH) auto
  then show ?case using x Cons.prems by (subst free_walk.simps) simp
qed

lemma free_segment:
  assumes inv: "seg_inv ds (unat f) C F {}" and c: "c + card (free_slots ds) \<le> diag_limit"
  shows "free_walk ds f c {} = Some (c + card (free_slots ds), free_slots ds)"
proof -
  have F: "lseg ds (unat f) F 0" "distinct F" "\<forall>x\<in>set F. x mod 4 \<noteq> 0 \<and> \<not> used ds x" using inv by (auto simp: seg_inv_def free_ok_def)
  have s: "set F = free_slots ds" using inv F lseg_bound [OF F(1)] by (auto simp: seg_inv_def free_slots_def)
  have "length F = card (free_slots ds)" using distinct_card [OF F(2)] s by simp
  moreover have "\<forall>x\<in>set F. x \<noteq> 0" using F(3) by auto
  ultimately show ?thesis using free_walk_chain [OF F(1), of c "{}"] c s by simp
qed

lemma mark_segs_run:
  assumes "\<And>s c. s \<in> set ss \<Longrightarrow> c + n s \<le> m \<Longrightarrow> mark s c = Some (c + n s, U s)" "c + sum_list (map n ss) \<le> m"
  shows "mark_segs mark ss c mps = Some (c + sum_list (map n ss), mps @ map U ss)"
  using assms
proof (induction ss arbitrary: c mps)
  case (Cons s ss)
  have "mark s c = Some (c + n s, U s)" using Cons.prems by auto
  then show ?case using Cons by (simp add: add.assoc)
qed simp

lemma diag_slots_bound:
  "(seg, buck, i) \<in> set (diag_slots lo dm) \<Longrightarrow> seg < SegmentsNum dm \<and> i < seg_len dm \<and> (0 < lo \<longrightarrow> i mod 4 \<noteq> 0)"
  by (auto simp: diag_slots_def seg_len_def DirDepth_def)

lemma slots_sum_bound:
  assumes "dm_shape dm" "length (Dirs dm) \<le> m" "\<And>ds. U ds \<subseteq> {..<length ds}"
  shows "sum_list (map (\<lambda>s. card (U (getSegmentDirs dm s))) [0..<SegmentsNum dm]) \<le> m"
proof -
  have "card (U (getSegmentDirs dm s)) \<le> seg_len dm" if "s < SegmentsNum dm" for s
    using card_mono [OF _ assms(3), of "getSegmentDirs dm s"] get_seg_lengths(1) [OF assms(1) that] by (simp add: get_seg_def)
  then have "sum_list (map (\<lambda>s. card (U (getSegmentDirs dm s))) [0..<SegmentsNum dm]) \<le> sum_list (map (\<lambda>s. seg_len dm) [0..<SegmentsNum dm])"
    by (intro sum_list_mono) auto
  also have "\<dots> = length (Dirs dm)" using assms(1) by (simp add: dm_shape_def sum_list_triv)
  finally show ?thesis using assms(2) by simp
qed

lemma dm_ok_segment:
  assumes "dm_ok dm" "s < SegmentsNum dm"
  obtains C F where "seg_inv (getSegmentDirs dm s) (unat (DirFreeStart dm ! s)) C F {}" "length (getSegmentDirs dm s) = seg_len dm"
    "seg_len dm \<le> 65536" "BucketsNumPerSegment dm = length (getSegmentDirs dm s) div 4"
proof -
  obtain C F where i: "seg_inv (getSegmentDirs dm s) (unat (DirFreeStart dm ! s)) C F {}"
    using assms by (auto simp: dm_ok_def seg_ok_def get_seg_def)
  have l: "length (getSegmentDirs dm s) = seg_len dm" using get_seg_lengths(1) [of dm s] assms by (simp add: dm_ok_def get_seg_def)
  have "length (getSegmentDirs dm s) \<le> 65536" using i by (simp add: seg_inv_def buckets_ok_def)
  then have m: "seg_len dm \<le> 65536" by (simp only: l)
  have "BucketsNumPerSegment dm = length (getSegmentDirs dm s) div 4" unfolding l by (simp add: seg_len_def DirDepth_def)
  then show ?thesis by (rule that [OF i l m])
qed

lemma mark_used:
  assumes ok: "dm_ok dm" and size: "length (Dirs dm) \<le> diag_limit"
  shows "mark_segs (\<lambda>seg counter. used_buckets (getSegmentDirs dm seg) [0..<BucketsNumPerSegment dm] counter {}) [0..<SegmentsNum dm] 0 [] =
      Some (0 + (\<Sum>s\<leftarrow>[0..<SegmentsNum dm]. card (used_slots (getSegmentDirs dm s))), [] @ map (\<lambda>s. used_slots (getSegmentDirs dm s)) [0..<SegmentsNum dm])"
proof (rule mark_segs_run)
  fix s c assume s: "s \<in> set [0..<SegmentsNum dm]" and c: "c + card (used_slots (getSegmentDirs dm s)) \<le> diag_limit"
  have s': "s < SegmentsNum dm" using s by simp
  obtain C F where "seg_inv (getSegmentDirs dm s) (unat (DirFreeStart dm ! s)) C F {}" "length (getSegmentDirs dm s) = seg_len dm"
    "seg_len dm \<le> 65536" "BucketsNumPerSegment dm = length (getSegmentDirs dm s) div 4"
    by (rule dm_ok_segment [OF ok s'])
  then show "used_buckets (getSegmentDirs dm s) [0..<BucketsNumPerSegment dm] c {} = Some (c + card (used_slots (getSegmentDirs dm s)), used_slots (getSegmentDirs dm s))"
    unfolding seg_inv_def by (intro used_segment [OF _ c]) auto
qed (use slots_sum_bound [OF _ size, of used_slots] ok in \<open>auto simp: dm_ok_def used_slots_def\<close>)

lemma mark_free:
  assumes ok: "dm_ok dm" and size: "length (Dirs dm) \<le> diag_limit"
  shows "mark_segs (\<lambda>seg counter. free_walk (getSegmentDirs dm seg) (DirFreeStart dm ! seg) counter {}) [0..<SegmentsNum dm] 0 [] =
      Some (0 + (\<Sum>s\<leftarrow>[0..<SegmentsNum dm]. card (free_slots (getSegmentDirs dm s))), [] @ map (\<lambda>s. free_slots (getSegmentDirs dm s)) [0..<SegmentsNum dm])"
proof (rule mark_segs_run)
  fix s c assume s: "s \<in> set [0..<SegmentsNum dm]" and c: "c + card (free_slots (getSegmentDirs dm s)) \<le> diag_limit"
  have s': "s < SegmentsNum dm" using s by simp
  obtain C F where "seg_inv (getSegmentDirs dm s) (unat (DirFreeStart dm ! s)) C F {}" by (rule dm_ok_segment [OF ok s'])
  then show "free_walk (getSegmentDirs dm s) (DirFreeStart dm ! s) c {} = Some (c + card (free_slots (getSegmentDirs dm s)), free_slots (getSegmentDirs dm s))"
    using free_segment c by blast
qed (use slots_sum_bound [OF _ size, of free_slots] ok in \<open>auto simp: dm_ok_def free_slots_def\<close>)

section \<open>Property\<close>

text \<open>C17. The diagnostics accept every directory that satisfies the invariant and has at most \<open>10\<^sup>8\<close> entries: no walk panics, no entry is
  reported as hanging, and the counters are the number of used entries and the number of free ones outside the bucket heads.\<close>

theorem diag_accepts:
  assumes ok: "dm_ok dm" and size: "length (Dirs dm) \<le> diag_limit"
  shows "DiagHangUsedDirs dm = Some (Inr (\<Sum>s\<leftarrow>[0..<SegmentsNum dm]. card (used_slots (getSegmentDirs dm s)))) \<and>
    DiagHangFreeDirs dm = Some (Inr (\<Sum>s\<leftarrow>[0..<SegmentsNum dm]. card (free_slots (getSegmentDirs dm s)))) \<and>
    DiagPanicHangUpDirs dm = Some None"
proof -
  have l: "length (getSegmentDirs dm s) = seg_len dm \<and> seg_len dm \<le> 65536" if "s < SegmentsNum dm" for s
    using dm_ok_segment [OF ok that] by metis
  have nu: "find (\<lambda>(seg, buck, i). dir_offset (getSegmentDirs dm seg ! i) \<noteq> 0 \<and> i \<notin> map (\<lambda>s. used_slots (getSegmentDirs dm s)) [0..<SegmentsNum dm] ! seg) (diag_slots 0 dm) = None"
    using l by (auto simp: find_None_iff used_slots_def used_def dest!: diag_slots_bound)
  have nf: "find (\<lambda>(seg, buck, i). dir_offset (getSegmentDirs dm seg ! i) = 0 \<and>
      unat (of_nat i :: u16) \<notin> map (\<lambda>s. free_slots (getSegmentDirs dm s)) [0..<SegmentsNum dm] ! seg) (diag_slots 1 dm) = None"
    using l by (fastforce simp: find_None_iff free_slots_def used_def unat_of_nat_u16 dest!: diag_slots_bound)
  show ?thesis using mark_used [OF ok size] mark_free [OF ok size] nu nf by (simp add: DiagHangUsedDirs_def DiagHangFreeDirs_def DiagPanicHangUpDirs_def)
qed

theorem diag_accepts_witness:
  "\<exists>dm k. dm_Init 8 = Some (dm, k) \<and> dm_ok dm \<and> length (Dirs dm) \<le> diag_limit \<and> DiagPanicHangUpDirs dm = Some None"
proof -
  obtain dm k where i: "dm_Init 8 = Some (dm, k)" using init_8 by blast
  have ok: "dm_ok dm" by (rule dm_wf_ok [OF dm_Init_wf(1) [OF i]])
  have "SegmentsNum dm = 1" using i by (simp add: dm_Init_def InitEmptyDirs_def init_seg_def put_seg_def DirDepth_def MaxBucketsPerSegment_def Let_def split: sum.splits) auto
  moreover have "seg_len dm \<le> 65536" by (rule dm_ok_segment [OF ok, of 0]) (use calculation in auto)
  ultimately have "length (Dirs dm) \<le> diag_limit" using ok by (simp add: dm_ok_def dm_shape_def diag_limit_def)
  then show ?thesis using diag_accepts [OF ok] i ok by blast
qed

end
