(* ===== verification/Go_Strings.thy ===== *)
theory Go_Strings
  imports Razor_Prelude
begin

text \<open>
  The parts of the Go packages \<^verbatim>\<open>strings\<close> and \<^verbatim>\<open>strconv\<close> that the program uses, on byte strings. White
  space is the set of \<^verbatim>\<open>unicode.IsSpace\<close>, given by its UTF-8 encodings. The letter-case functions fold the ASCII
  letters and the non-ASCII runes whose image is an ASCII letter; every other rune has a non-ASCII image,
  so comparisons with the ASCII words of the program are exact.
\<close>

definition go_str :: "string \<Rightarrow> bytes" where "go_str s = map of_char s"

section \<open>White space, splitting\<close>

definition space_seqs :: "bytes list" where
  "space_seqs = map (\<lambda>c. [c]) [0x09, 0x0a, 0x0b, 0x0c, 0x0d, 0x20] @ [[0xc2, 0x85], [0xc2, 0xa0], [0xe1, 0x9a, 0x80]] @
     map (\<lambda>c. [0xe2, 0x80, c]) [0x80, 0x81, 0x82, 0x83, 0x84, 0x85, 0x86, 0x87, 0x88, 0x89, 0x8a, 0xa8, 0xa9, 0xaf] @
     [[0xe2, 0x81, 0x9f], [0xe3, 0x80, 0x80]]"

definition starts :: "bytes \<Rightarrow> bytes \<Rightarrow> bool" where "starts p s \<longleftrightarrow> take (length p) s = p"

text \<open>The length of the first of the given sequences that starts the string, 0 if none does.\<close>

definition lead :: "bytes list \<Rightarrow> bytes \<Rightarrow> nat" where
  "lead qs s = (case find (\<lambda>q. q \<noteq> [] \<and> starts q s) qs of None \<Rightarrow> 0 | Some q \<Rightarrow> length q)"

lemma lead_le: "lead qs s \<le> length s"
proof (cases "find (\<lambda>q. q \<noteq> [] \<and> starts q s) qs")
  case (Some q)
  then have "take (length q) s = q" by (auto simp: find_Some_iff starts_def)
  then have "length q \<le> length s" by (metis length_take min.absorb_iff2 min.commute)
  then show ?thesis using Some by (simp add: lead_def)
qed (simp add: lead_def)

lemma lead_Nil [simp]: "lead qs [] = 0"
  using lead_le [of qs "[]"] by simp

function trim_lead :: "bytes list \<Rightarrow> bytes \<Rightarrow> bytes" where
  "trim_lead qs s = (if lead qs s = 0 then s else trim_lead qs (drop (lead qs s) s))"
  by auto
termination
proof (relation "measure (length \<circ> snd)")
  fix qs s assume "lead qs s \<noteq> 0"
  then show "((qs, drop (lead qs s) s), qs, s) \<in> measure (length \<circ> snd)" using lead_le [of qs s] by auto
qed simp

declare trim_lead.simps [simp del]

definition TrimSpace :: "bytes \<Rightarrow> bytes" where
  "TrimSpace s = rev (trim_lead (map rev space_seqs) (rev (trim_lead space_seqs s)))"

lemma TrimSpace_plain:
  "lead space_seqs s = 0 \<Longrightarrow> lead (map rev space_seqs) (rev s) = 0 \<Longrightarrow> TrimSpace s = s"
  by (simp add: TrimSpace_def trim_lead.simps)

definition TrimPrefix :: "bytes \<Rightarrow> bytes \<Rightarrow> bytes" where
  "TrimPrefix s p = (if starts p s then drop (length p) s else s)"

primrec go_Split :: "u8 \<Rightarrow> bytes \<Rightarrow> bytes list" where
  "go_Split d [] = [[]]"
| "go_Split d (c # s) = (if c = d then [] # go_Split d s else (case go_Split d s of [] \<Rightarrow> [[c]] | f # fs \<Rightarrow> (c # f) # fs))"

definition go_Cut :: "u8 \<Rightarrow> bytes \<Rightarrow> bytes \<times> bytes \<times> bool" where
  "go_Cut d s = (let a = takeWhile (\<lambda>c. c \<noteq> d) s in
     if length a < length s then (a, drop (Suc (length a)) s, True) else (s, [], False))"

text \<open>The maximal runs of other bytes between white space.\<close>

function go_Fields :: "bytes \<Rightarrow> bytes \<Rightarrow> bytes list" where
  "go_Fields cur s =
     (let done = (if cur = [] then [] else [rev cur]) in
      if s = [] then done
      else if lead space_seqs s = 0 then go_Fields (hd s # cur) (tl s)
      else done @ go_Fields [] (drop (lead space_seqs s) s))"
  by auto
termination
proof (relation "measure (length \<circ> snd)")
  fix cur s :: bytes assume "s \<noteq> []"
  then show "((hd s # cur, tl s), cur, s) \<in> measure (length \<circ> snd)" by (cases s) auto
next
  fix cur s :: bytes assume "lead space_seqs s \<noteq> 0"
  then show "(([], drop (lead space_seqs s) s), cur, s) \<in> measure (length \<circ> snd)" using lead_le [of space_seqs s] by auto
qed simp

declare go_Fields.simps [simp del]

definition go_Join :: "u8 \<Rightarrow> bytes list \<Rightarrow> bytes" where
  "go_Join d fs = (case fs of [] \<Rightarrow> [] | f # fs \<Rightarrow> f @ concat (map (\<lambda>g. d # g) fs))"

section \<open>Letter case\<close>

definition is_upper :: "u8 \<Rightarrow> bool" where "is_upper c \<longleftrightarrow> 0x41 \<le> c \<and> c \<le> 0x5a"
definition is_lower :: "u8 \<Rightarrow> bool" where "is_lower c \<longleftrightarrow> 0x61 \<le> c \<and> c \<le> 0x7a"
definition is_digit :: "u8 \<Rightarrow> bool" where "is_digit c \<longleftrightarrow> 0x30 \<le> c \<and> c \<le> 0x39"

definition lower1 :: "u8 \<Rightarrow> u8" where "lower1 c = (if is_upper c then c + 0x20 else c)"

text \<open>\<^verbatim>\<open>ToLower\<close> sends the Kelvin sign to k and the dotted capital I to i.\<close>

fun ToLower :: "bytes \<Rightarrow> bytes" where
  "ToLower [] = []"
| "ToLower (c # s) =
     (if take 2 s = [0x84, 0xaa] \<and> c = 0xe2 then 0x6b # ToLower (drop 2 s)
      else if take 1 s = [0xb0] \<and> c = 0xc4 then 0x69 # ToLower (drop 1 s)
      else lower1 c # ToLower s)"

text \<open>\<^verbatim>\<open>EqualFold\<close> against an ASCII word: the Kelvin sign matches k and the long s matches s.\<close>

fun fold_case :: "bytes \<Rightarrow> bytes" where
  "fold_case [] = []"
| "fold_case (c # s) =
     (if take 2 s = [0x84, 0xaa] \<and> c = 0xe2 then 0x6b # fold_case (drop 2 s)
      else if take 1 s = [0xbf] \<and> c = 0xc5 then 0x73 # fold_case (drop 1 s)
      else lower1 c # fold_case s)"

definition EqualFold :: "bytes \<Rightarrow> bytes \<Rightarrow> bool" where "EqualFold a b \<longleftrightarrow> fold_case a = fold_case b"

section \<open>Decimal numbers\<close>

definition dec_val :: "bytes \<Rightarrow> nat" where "dec_val s = foldl (\<lambda>n c. 10 * n + (unat c - 0x30)) 0 s"

text \<open>\<^verbatim>\<open>ParseUint(s, 10, bits)\<close> and \<^verbatim>\<open>ParseInt(s, 10, 64)\<close>: base ten allows no underscores.\<close>

definition ParseUint :: "nat \<Rightarrow> bytes \<Rightarrow> nat result" where
  "ParseUint w s =
     (if s = [] \<or> \<not> list_all is_digit s then Inl (Err ''invalid syntax'')
      else if dec_val s \<ge> 2 ^ w then Inl (Err ''value out of range'') else Inr (dec_val s))"

definition ParseInt :: "bytes \<Rightarrow> int result" where
  "ParseInt s =
     (let neg = (take 1 s = [0x2d]); u = (if take 1 s = [0x2d] \<or> take 1 s = [0x2b] then drop 1 s else s) in
      case ParseUint 64 u of Inl e \<Rightarrow> Inl e
      | Inr n \<Rightarrow> if \<not> neg \<and> 2 ^ 63 \<le> n \<or> neg \<and> 2 ^ 63 < n then Inl (Err ''value out of range'')
                 else Inr (if neg then - int n else int n))"

text \<open>The decimal form of a number, as \<^verbatim>\<open>%d\<close> prints it.\<close>

definition digit :: "nat \<Rightarrow> u8" where "digit d = of_nat (0x30 + d)"

fun decimal :: "nat \<Rightarrow> bytes" where
  "decimal n = (if n < 10 then [digit n] else decimal (n div 10) @ [digit (n mod 10)])"

declare decimal.simps [simp del]

lemma digit_byte:
  assumes "d < 10"
  shows "is_digit (digit d)" "unat (digit d) - 0x30 = d"
proof -
  have "unat (digit d) = (0x30 + d) mod 256" unfolding digit_def by (rule unat_byte_of_nat)
  then show "unat (digit d) - 0x30 = d" "is_digit (digit d)"
    using assms by (simp_all add: is_digit_def word_le_nat_alt)
qed

lemma decimal_digits: "list_all is_digit (decimal n) \<and> decimal n \<noteq> [] \<and> dec_val (decimal n) = n"
proof (induction n rule: decimal.induct)
  case (1 n)
  show ?case
  proof (cases "n < 10")
    case True
    then show ?thesis using digit_byte [of n] by (simp add: decimal.simps [of n] dec_val_def)
  next
    case False
    have "10 * (n div 10) + n mod 10 = n" by simp
    then show ?thesis using 1 [OF False] digit_byte [of "n mod 10"] False
      by (subst (1 2 3) decimal.simps) (simp add: dec_val_def)
  qed
qed

lemma ParseUint_decimal: "n < 2 ^ w \<Longrightarrow> ParseUint w (decimal n) = Inr n"
  using decimal_digits [of n] by (simp add: ParseUint_def)

lemma ParseInt_decimal:
  assumes "n < 2 ^ 63"
  shows "ParseInt (decimal n) = Inr (int n)"
proof -
  obtain c s where d: "decimal n = c # s" using decimal_digits [of n] by (cases "decimal n") auto
  then have "is_digit c" using decimal_digits [of n] by simp
  then have c: "c \<noteq> 0x2d" "c \<noteq> 0x2b" by (auto simp: is_digit_def)
  have "ParseUint 64 (c # s) = Inr n" using ParseUint_decimal [of n 64] assms d by simp
  then show ?thesis using assms c by (simp add: ParseInt_def d Let_def)
qed

lemma lead_digit:
  assumes "is_digit c"
  shows "lead space_seqs (c # s) = 0" "lead (map rev space_seqs) (c # s) = 0"
proof -
  have c: "c \<noteq> 0x09" "c \<noteq> 0x0a" "c \<noteq> 0x0b" "c \<noteq> 0x0c" "c \<noteq> 0x0d" "c \<noteq> 0x20" "c \<noteq> 0xc2" "c \<noteq> 0xe1" "c \<noteq> 0xe2" "c \<noteq> 0xe3"
    using assms by (auto simp: is_digit_def)
  show "lead space_seqs (c # s) = 0" using c by (simp add: lead_def space_seqs_def starts_def)
  have c: "c \<noteq> 0x85" "c \<noteq> 0xa0" "c \<noteq> 0x80" "c \<noteq> 0x81" "c \<noteq> 0x82" "c \<noteq> 0x83" "c \<noteq> 0x84" "c \<noteq> 0x86" "c \<noteq> 0x87" "c \<noteq> 0x88" "c \<noteq> 0x89"
    "c \<noteq> 0x8a" "c \<noteq> 0xa8" "c \<noteq> 0xa9" "c \<noteq> 0xaf" "c \<noteq> 0x9f" using assms by (auto simp: is_digit_def)
  show "lead (map rev space_seqs) (c # s) = 0"
    using c \<open>c \<noteq> 0x09\<close> \<open>c \<noteq> 0x0a\<close> \<open>c \<noteq> 0x0b\<close> \<open>c \<noteq> 0x0c\<close> \<open>c \<noteq> 0x0d\<close> \<open>c \<noteq> 0x20\<close>
    by (simp add: lead_def space_seqs_def starts_def)
qed

end
