(* ===== verification/Store.thy ===== *)
theory Store
  imports Go_Strings
begin

text \<open>
  The storage configuration (\<^verbatim>\<open>cache/store.go\<close>): \<^verbatim>\<open>storage.config\<close> is read into spans, and the spans are
  divided into stripes. The file system is a parameter: what \<^verbatim>\<open>filepath.Abs\<close> and \<^verbatim>\<open>os.Stat\<close> answer for a path.
\<close>

section \<open>Spans and the configuration file\<close>

record Span =
  sp_Path :: bytes
  sp_Size :: int
  sp_DiskID :: "nat \<times> nat"

type_synonym Store = "Span list"

definition NewStore :: Store where "NewStore = []"

definition AddSpan :: "Span \<Rightarrow> Store \<Rightarrow> Store" where "AddSpan sp s = s @ [sp]"

text \<open>What \<^verbatim>\<open>os.Stat\<close> reports: no such file, another error, or a directory flag, size, device and inode.\<close>

datatype stat_result = NotExist | StatErr go_err | FileInfo bool int nat nat

definition InitSpan :: "(bytes \<Rightarrow> bytes result) \<Rightarrow> (bytes \<Rightarrow> stat_result) \<Rightarrow> bytes \<Rightarrow> int \<Rightarrow> Span result" where
  "InitSpan abs_path stat path sz =
     (case abs_path path of Inl e \<Rightarrow> Inl (Err ''failed to resolve path'') | Inr absPath \<Rightarrow>
        let span = \<lparr>sp_Path = absPath, sp_Size = sz, sp_DiskID = (0, 0)\<rparr> in
        case stat absPath of
          NotExist \<Rightarrow> Inr span
        | StatErr e \<Rightarrow> Inl (Err ''failed to stat'')
        | FileInfo is_dir fsize dev ino \<Rightarrow>
            if is_dir then Inl (Err ''directories not fully supported yet, specify a file path'')
            else Inr (span\<lparr>sp_Size := (if sz \<le> 0 then fsize else sz), sp_DiskID := (dev, ino)\<rparr>))"

definition parseSize :: "bytes \<Rightarrow> int result" where
  "parseSize s =
     (let s = TrimSpace s in
      if s = [] then Inl (Err ''empty size'')
      else if is_digit (last s) then ParseInt s
      else if last s \<in> {0x4b, 0x6b} then map_sum id (\<lambda>val. i64 (val * 1024)) (ParseInt (butlast s))
      else if last s \<in> {0x4d, 0x6d} then map_sum id (\<lambda>val. i64 (val * (1024 * 1024))) (ParseInt (butlast s))
      else if last s \<in> {0x47, 0x67} then map_sum id (\<lambda>val. i64 (val * (1024 * 1024 * 1024))) (ParseInt (butlast s))
      else if last s \<in> {0x54, 0x74} then map_sum id (\<lambda>val. i64 (val * (1024 * 1024 * 1024 * 1024))) (ParseInt (butlast s))
      else Inl (Err ''unknown suffix''))"

primrec size_args :: "bytes list \<Rightarrow> int \<Rightarrow> int result" where
  "size_args [] sz = Inr sz"
| "size_args (field # fs) sz =
     (if 0x3d \<in> set field then size_args fs sz
      else if sz = -1 then (case parseSize field of Inl e \<Rightarrow> Inl (Err ''invalid size'') | Inr sz \<Rightarrow> size_args fs sz)
      else size_args fs sz)"

primrec read_lines :: "(bytes \<Rightarrow> bytes result) \<Rightarrow> (bytes \<Rightarrow> stat_result) \<Rightarrow> bytes list \<Rightarrow> Store \<Rightarrow> Store \<times> go_err option" where
  "read_lines abs_path stat [] s = (s, None)"
| "read_lines abs_path stat (raw # ls) s =
     (let line = TrimSpace raw in
      if line = [] \<or> starts [0x23] line then read_lines abs_path stat ls s
      else case go_Fields [] line of
             [] \<Rightarrow> read_lines abs_path stat ls s
           | path # args \<Rightarrow>
               (case size_args args (-1) of Inl e \<Rightarrow> (s, Some e) | Inr sz \<Rightarrow>
                case InitSpan abs_path stat path sz of Inl e \<Rightarrow> (s, Some e)
                | Inr span \<Rightarrow> read_lines abs_path stat ls (AddSpan span s)))"

text \<open>The file is the error of opening it, or the lines the scanner yields and the error it ends with.\<close>

definition ReadConfig :: "(bytes \<Rightarrow> bytes result) \<Rightarrow> (bytes \<Rightarrow> stat_result) \<Rightarrow> (bytes list \<times> go_err option) result \<Rightarrow> Store \<Rightarrow>
    Store \<times> go_err option" where
  "ReadConfig abs_path stat file s =
     (case file of Inl e \<Rightarrow> (s, Some e)
      | Inr (ls, scan_err) \<Rightarrow>
          (case read_lines abs_path stat ls s of (s, Some e) \<Rightarrow> (s, Some e) | (s, None) \<Rightarrow> (s, scan_err)))"

section \<open>Dividing the spans into stripes\<close>

definition stripe_portions :: "int \<Rightarrow> int \<Rightarrow> Store \<Rightarrow> int list" where
  "stripe_portions n tot spans =
     map (\<lambda>sp. let portion = go_div (i64 (sp_Size sp * n)) tot in if portion = 0 then 1 else portion) spans"

definition arg_best :: "(int \<Rightarrow> int \<Rightarrow> bool) \<Rightarrow> Store \<Rightarrow> nat" where
  "arg_best better spans =
     fold (\<lambda>i best. if better (sp_Size (spans ! i)) (sp_Size (spans ! best)) then i else best) [1..<length spans] 0"

function grow_alloc :: "Store \<Rightarrow> int \<Rightarrow> int list \<Rightarrow> int \<Rightarrow> int list \<times> int" where
  "grow_alloc spans n alloc sumAlloc =
     (if sumAlloc < n
      then let maxIdx = arg_best (>) spans in grow_alloc spans n (alloc[maxIdx := alloc ! maxIdx + 1]) (sumAlloc + 1)
      else (alloc, sumAlloc))"
  by auto
termination by (relation "measure (\<lambda>(_, n, _, s). nat (n - s))") auto

declare grow_alloc.simps [simp del]

definition first_big :: "int list \<Rightarrow> nat option" where
  "first_big alloc = find (\<lambda>i. alloc ! i > 1) [0..<length alloc]"

partial_function (option) shrink_alloc :: "Store \<Rightarrow> int \<Rightarrow> int list \<Rightarrow> int \<Rightarrow> (int list) option" where
  "shrink_alloc spans n alloc sumAlloc =
     (if sumAlloc > n
      then (case first_big alloc of
              None \<Rightarrow>
                let smallIdx = arg_best (<) spans in
                if alloc ! smallIdx > 0
                then shrink_alloc spans n (alloc[smallIdx := alloc ! smallIdx - 1]) (sumAlloc - 1)
                else shrink_alloc spans n alloc sumAlloc
            | Some minIdx \<Rightarrow> shrink_alloc spans n (alloc[minIdx := alloc ! minIdx - 1]) (sumAlloc - 1))
      else Some alloc)"

text \<open>The stripes of one span: \<open>k\<close> of them are still to come, starting with stripe \<open>j\<close> at offset \<open>off\<close>. The
  flag says that the wanted number is reached, where the code leaves both loops.\<close>

primrec span_stripes :: "nat \<Rightarrow> Span \<Rightarrow> int \<Rightarrow> int \<Rightarrow> nat \<Rightarrow> int \<Rightarrow> int \<Rightarrow> (bytes \<times> int \<times> int) list \<Rightarrow>
    (bytes \<times> int \<times> int) list \<times> bool" where
  "span_stripes n sp base rem 0 j off out = (out, False)"
| "span_stripes n sp base rem (Suc k) j off out =
     (let chunk = (if j < rem then base + 1 else base) in
      if chunk = 0 then span_stripes n sp base rem k (j + 1) off out
      else let out = out @ [(sp_Path sp, chunk, off)] in
           if length out = n then (out, True) else span_stripes n sp base rem k (j + 1) (off + chunk) out)"

fun layout_spans :: "nat \<Rightarrow> (Span \<times> int) list \<Rightarrow> (bytes \<times> int \<times> int) list \<Rightarrow> (bytes \<times> int \<times> int) list" where
  "layout_spans n [] out = out"
| "layout_spans n ((sp, c) # rest) out =
     (if c \<le> 0 then layout_spans n rest out
      else case span_stripes n sp (go_div (sp_Size sp) c) (go_mod (sp_Size sp) c) (nat c) 0 0 out of
             (out, True) \<Rightarrow> out
           | (out, False) \<Rightarrow> layout_spans n rest out)"

definition BuildStripeLayout :: "int \<Rightarrow> Store \<Rightarrow> ((bytes \<times> int \<times> int) list result) option" where
  "BuildStripeLayout nStripes spans =
     (if nStripes \<le> 0 then Some (Inl (Err ''nStripes must be > 0''))
      else if spans = [] then Some (Inl (Err ''no spans configured''))
      else if nStripes < int (length spans) then Some (Inl (Err ''nStripes must be >= number of spans''))
      else let tot = i64 (sum_list (map sp_Size spans)) in
      if tot = 0 then Some (Inl (Err ''total span size is zero''))
      else let alloc = stripe_portions nStripes tot spans; (alloc, s) = grow_alloc spans nStripes alloc (sum_list alloc) in
      do {
        alloc \<leftarrow> shrink_alloc spans nStripes alloc s;
        let out = layout_spans (nat nStripes) (zip spans alloc) [] in
        Some (if length out < nat nStripes then Inl (Err ''insufficient non-zero spans'') else Inr out)
      })"


section \<open>The division is a tiling\<close>

lemma arg_best_less: "spans \<noteq> [] \<Longrightarrow> arg_best better spans < length spans"
proof -
  assume ne: "spans \<noteq> []"
  have "b < length spans \<Longrightarrow> set is \<subseteq> {..<length spans} \<Longrightarrow>
      fold (\<lambda>i best. if better (sp_Size (spans ! i)) (sp_Size (spans ! best)) then i else best) is b < length spans" for "is" b
    by (induction "is" arbitrary: b) auto
  then show ?thesis using ne unfolding arg_best_def by (auto simp: atLeast_upt)
qed

lemma sum_bump: "i < length xs \<Longrightarrow> sum_list (xs[i := xs ! i + d]) = sum_list xs + (d :: int)"
proof (induction xs arbitrary: i)
  case (Cons x xs)
  then show ?case by (cases i) auto
qed simp

lemma positive_bump: "\<forall>x\<in>set xs. (1 :: int) \<le> x \<Longrightarrow> 1 \<le> v \<Longrightarrow> \<forall>x\<in>set (xs[i := v]). 1 \<le> x"
  using set_update_subset_insert [of xs i v] by auto

lemma grow_alloc_ok:
  assumes "spans \<noteq> []" "length alloc = length spans" "sum_list alloc = s" "grow_alloc spans n alloc s = (alloc', s')"
  shows "length alloc' = length spans \<and> sum_list alloc' = s' \<and> n \<le> s' \<and> ((\<forall>x\<in>set alloc. 1 \<le> x) \<longrightarrow> (\<forall>x\<in>set alloc'. 1 \<le> x))"
  using assms
proof (induction spans n alloc s rule: grow_alloc.induct)
  case (1 spans n alloc s)
  show ?case
  proof (cases "s < n")
    case True
    let ?m = "arg_best (>) spans"
    let ?a = "alloc[?m := alloc ! ?m + 1]"
    have m: "?m < length alloc" using arg_best_less [OF 1(2), of "(>)"] 1(3) by simp
    have r: "grow_alloc spans n ?a (s + 1) = (alloc', s')" using 1(5) True by (subst (asm) grow_alloc.simps) (simp add: Let_def)
    have "1 \<le> alloc ! ?m + 1" if "\<forall>x\<in>set alloc. 1 \<le> x" using bspec [OF that nth_mem [OF m]] by simp
    then have "(\<forall>x\<in>set alloc. 1 \<le> x) \<longrightarrow> (\<forall>x\<in>set ?a. 1 \<le> x)" using positive_bump by blast
    moreover have "sum_list ?a = s + 1" using sum_bump [OF m, of 1] 1(4) by simp
    ultimately show ?thesis using 1(1) [OF True refl 1(2) _ _ r] 1(3) by simp
  next
    case False
    then show ?thesis using 1(3-5) by (subst (asm) grow_alloc.simps) auto
  qed
qed

lemma first_big_some:
  assumes "sum_list alloc > int (length alloc)"
  shows "\<exists>i. first_big alloc = Some i \<and> i < length alloc \<and> 1 < alloc ! i"
proof (cases "first_big alloc")
  case None
  then have "\<forall>x\<in>set alloc. x \<le> 1" by (fastforce simp: first_big_def find_None_iff in_set_conv_nth)
  then have "sum_list alloc \<le> int (length alloc)" by (induction alloc) auto
  then show ?thesis using assms by simp
next
  case (Some i)
  then show ?thesis by (auto simp: first_big_def find_Some_iff)
qed

lemma shrink_alloc_ok:
  assumes "sum_list alloc = s" "int (length alloc) \<le> n"
  shows "\<exists>alloc'. shrink_alloc spans n alloc s = Some alloc' \<and> length alloc' = length alloc \<and> sum_list alloc' = min s n \<and>
    ((\<forall>x\<in>set alloc. 1 \<le> x) \<longrightarrow> (\<forall>x\<in>set alloc'. 1 \<le> x))"
  using assms
proof (induction "nat (s - n)" arbitrary: alloc s)
  case 0
  then show ?case by (subst shrink_alloc.simps) auto
next
  case (Suc k)
  then have sn: "n < s" by simp
  then obtain i where i: "first_big alloc = Some i" "i < length alloc" "1 < alloc ! i" using first_big_some Suc.prems by force
  let ?a = "alloc[i := alloc ! i - 1]"
  have sa: "sum_list ?a = s - 1" using sum_bump [OF i(2), of "-1"] Suc.prems by simp
  have "\<exists>alloc'. shrink_alloc spans n ?a (s - 1) = Some alloc' \<and> length alloc' = length ?a \<and> sum_list alloc' = min (s - 1) n \<and>
    ((\<forall>x\<in>set ?a. 1 \<le> x) \<longrightarrow> (\<forall>x\<in>set alloc'. 1 \<le> x))" using Suc sa by (intro Suc.hyps(1)) auto
  moreover have "(\<forall>x\<in>set alloc. 1 \<le> x) \<longrightarrow> (\<forall>x\<in>set ?a. 1 \<le> x)" using positive_bump i(3) by (metis add_le_imp_le_diff one_add_one zless_imp_add1_zle)
  ultimately show ?case using sn i(1) by (subst shrink_alloc.simps) (auto simp: min_def)
qed

text \<open>\<open>covers p off stop ts\<close>: the stripes \<open>ts\<close> of the file \<open>p\<close> are not empty, lie one after the other without gaps, begin at
  \<open>off\<close> and end at \<open>stop\<close>.\<close>

fun covers :: "bytes \<Rightarrow> int \<Rightarrow> int \<Rightarrow> (bytes \<times> int \<times> int) list \<Rightarrow> bool" where
  "covers p off stop [] \<longleftrightarrow> off = stop"
| "covers p off stop ((q, chunk, o') # ts) \<longleftrightarrow> q = p \<and> 0 < chunk \<and> o' = off \<and> covers p (off + chunk) stop ts"

lemma span_stripes_ok:
  assumes "0 < base" "length out + k \<le> n"
  shows "\<exists>ts. span_stripes n sp base r k j off out = (out @ ts, 0 < k \<and> length out + k = n) \<and> length ts = k \<and>
    covers (sp_Path sp) off (off + int k * base + max 0 (min (j + int k) r - j)) ts"
  using assms(2)
proof (induction k arbitrary: j off out)
  case 0
  then show ?case by auto
next
  case (Suc k)
  let ?c = "if j < r then base + 1 else base"
  let ?t = "(sp_Path sp, ?c, off)"
  have c: "0 < ?c" "?c \<noteq> 0" using assms(1) by auto
  obtain ts where ts: "span_stripes n sp base r k (j + 1) (off + ?c) (out @ [?t]) = ((out @ [?t]) @ ts, 0 < k \<and> length (out @ [?t]) + k = n)"
    "length ts = k" "covers (sp_Path sp) (off + ?c) (off + ?c + int k * base + max 0 (min (j + 1 + int k) r - (j + 1))) ts"
    using Suc.IH [of "out @ [?t]" "j + 1" "off + ?c"] Suc.prems by auto
  have e: "off + ?c + int k * base + max 0 (min (j + 1 + int k) r - (j + 1)) = off + int (Suc k) * base + max 0 (min (j + int (Suc k)) r - j)"
    by (auto simp: algebra_simps)
  show ?case
  proof (cases "length out + 1 = n")
    case True
    then have "k = 0" using Suc.prems by simp
    then show ?thesis using True c ts e by (intro exI [of _ "[?t]"]) (auto simp: Let_def)
  next
    case False
    then have "span_stripes n sp base r (Suc k) j off out = (out @ ?t # ts, length out + Suc k = n)"
      using c ts(1) Suc.prems by (auto simp: Let_def)
    then show ?thesis using c ts(2,3) e by (intro exI [of _ "?t # ts"]) auto
  qed
qed

lemma layout_spans_ok:
  assumes "\<forall>(sp, c)\<in>set ps. 1 \<le> c \<and> c \<le> sp_Size sp" "length out + nat (sum_list (map snd ps)) \<le> n"
  shows "\<exists>tss. layout_spans n ps out = out @ concat tss \<and> length (concat tss) = nat (sum_list (map snd ps)) \<and>
    list_all2 (\<lambda>(sp, c) ts. covers (sp_Path sp) 0 (sp_Size sp) ts) ps tss"
  using assms
proof (induction ps arbitrary: out)
  case Nil
  then show ?case by simp
next
  case (Cons x ps)
  obtain sp c where x: "x = (sp, c)" by (cases x)
  let ?S = "sp_Size sp" and ?sum = "sum_list (map snd ps)"
  have c: "1 \<le> c" "c \<le> ?S" using Cons.prems(1) x by auto
  have b: "0 < ?S div c" using c by (simp add: pos_imp_zdiv_pos_iff)
  have pos: "0 \<le> ?sum" using Cons.prems(1) by (intro sum_list_nonneg) auto
  have len: "length out + nat c + nat ?sum \<le> n" using Cons.prems(2) c pos x by (simp add: nat_add_distrib)
  have e: "int (nat c) * (?S div c) + max 0 (min (0 + int (nat c)) (?S mod c) - 0) = ?S"
    using c pos_mod_bound [of c ?S] pos_mod_sign [of c ?S] mult_div_mod_eq [of c ?S] by simp
  obtain ts where ts: "span_stripes n sp (?S div c) (?S mod c) (nat c) 0 0 out = (out @ ts, 0 < nat c \<and> length out + nat c = n)"
    "length ts = nat c" "covers (sp_Path sp) 0 ?S ts"
    using span_stripes_ok [OF b, of out "nat c" n sp "?S mod c" 0 0] len e by auto
  show ?case
  proof (cases "length out + nat c = n")
    case True
    have "ps = []"
    proof (rule ccontr)
      assume "ps \<noteq> []"
      then obtain y ys where "ps = y # ys" by (cases ps) auto
      moreover have "0 \<le> sum_list (map snd ys)" using Cons.prems(1) calculation by (intro sum_list_nonneg) auto
      ultimately have "1 \<le> ?sum" using Cons.prems(1) by (auto split: prod.splits)
      then show False using len True by simp
    qed
    then show ?thesis using True x c ts by (intro exI [of _ "[ts]"]) auto
  next
    case False
    have "length (out @ ts) + nat ?sum \<le> n" using len ts(2) by simp
    then obtain tss where tss: "layout_spans n ps (out @ ts) = (out @ ts) @ concat tss" "length (concat tss) = nat ?sum"
      "list_all2 (\<lambda>(sp, c) ts. covers (sp_Path sp) 0 (sp_Size sp) ts) ps tss"
      using Cons.IH [of "out @ ts"] Cons.prems(1) by auto
    then show ?thesis using False x c pos ts by (intro exI [of _ "ts # tss"]) (auto simp: nat_add_distrib)
  qed
qed



lemma portions_positive:
  assumes "0 < n" "0 < tot" "\<forall>sp\<in>set spans. 0 < sp_Size sp \<and> sp_Size sp * n < 2 ^ 63"
  shows "\<forall>x\<in>set (stripe_portions n tot spans). 1 \<le> x"
proof -
  have "1 \<le> (let portion = go_div (i64 (sp_Size sp * n)) tot in if portion = 0 then 1 else portion)" if "sp \<in> set spans" for sp
  proof -
    have p: "0 < sp_Size sp * n" "sp_Size sp * n < 2 ^ 63" using assms that by auto
    then have "go_div (i64 (sp_Size sp * n)) tot = sp_Size sp * n div tot" using assms(2) by simp
    moreover have "0 \<le> sp_Size sp * n div tot" using p(1) assms(2) by (simp add: pos_imp_zdiv_nonneg_iff)
    ultimately show ?thesis by (simp add: Let_def)
  qed
  then show ?thesis by (simp add: stripe_portions_def)
qed

lemma elem_le_sum_list_int: "\<forall>x\<in>set xs. (0 :: int) \<le> x \<Longrightarrow> x \<in> set xs \<Longrightarrow> x \<le> sum_list xs"
proof (induction xs)
  case (Cons y ys)
  moreover have "0 \<le> sum_list ys" using Cons.prems(1) by (intro sum_list_nonneg) auto
  ultimately show ?case by force
qed simp

text \<open>C9. The stripes tile the storage. For spans of at least one byte per wanted stripe (and a total whose
  products fit 64 bits) the layout has exactly the wanted number of stripes: span by span, non-empty
  stripes that follow each other without gap or overlap from the start of the span to its end.\<close>

theorem store_layout_tiles:
  assumes "0 < n" "spans \<noteq> []" "int (length spans) \<le> n" "\<forall>sp\<in>set spans. n \<le> sp_Size sp"
    "sum_list (map sp_Size spans) * n < 2 ^ 63"
  shows "\<exists>tss. BuildStripeLayout n spans = Some (Inr (concat tss)) \<and> length (concat tss) = nat n \<and>
    list_all2 (\<lambda>sp ts. covers (sp_Path sp) 0 (sp_Size sp) ts) spans tss"
proof -
  let ?tot = "sum_list (map sp_Size spans)"
  have le: "sp_Size sp \<le> ?tot" if "sp \<in> set spans" for sp using that assms(1,4) by (intro elem_le_sum_list_int) fastforce+
  then have tot: "0 < ?tot" using assms(1,2,4) by (metis hd_in_set less_le_trans order_less_le_trans)
  have "?tot \<le> ?tot * n" using tot assms(1) by simp
  then have "?tot < 2 ^ 63" using assms(5) by linarith
  then have t: "i64 ?tot = ?tot" using tot by simp
  have sz: "0 < sp_Size sp \<and> sp_Size sp * n < 2 ^ 63" if "sp \<in> set spans" for sp
  proof
    show "0 < sp_Size sp" using assms(1,4) that by force
    show "sp_Size sp * n < 2 ^ 63" using assms(1,5) mult_right_mono [OF le [OF that], of n] by linarith
  qed
  let ?a = "stripe_portions n ?tot spans"
  obtain a s where g: "grow_alloc spans n ?a (sum_list ?a) = (a, s)" by (cases "grow_alloc spans n ?a (sum_list ?a)")
  have "length ?a = length spans" by (simp add: stripe_portions_def)
  then have a: "length a = length spans" "sum_list a = s" "n \<le> s" "\<forall>x\<in>set a. 1 \<le> x"
    using grow_alloc_ok [OF assms(2) _ refl g] portions_positive [OF assms(1) tot] sz by auto
  then obtain a' where a': "shrink_alloc spans n a s = Some a'" "length a' = length spans" "sum_list a' = n" "\<forall>x\<in>set a'. 1 \<le> x"
    using shrink_alloc_ok [of a s n spans] assms(3) by auto
  let ?ps = "zip spans a'"
  have snd: "map snd ?ps = a'" using a'(2) by simp
  have "c \<le> n" if "c \<in> set a'" for c using a'(3,4) that elem_le_sum_list_int [of a' c] by force
  then have ok: "\<forall>(sp, c)\<in>set ?ps. 1 \<le> c \<and> c \<le> sp_Size sp"
    using a'(4) assms(4) by (force dest: set_zip_leftD set_zip_rightD)
  obtain tss where l: "layout_spans (nat n) ?ps [] = concat tss" "length (concat tss) = nat n"
    "list_all2 (\<lambda>(sp, c) ts. covers (sp_Path sp) 0 (sp_Size sp) ts) ?ps tss"
    using layout_spans_ok [OF ok, of "[]" "nat n"] snd a'(3) by auto
  have "list_all2 (\<lambda>sp ts. covers (sp_Path sp) 0 (sp_Size sp) ts) spans tss"
    using l(3) a'(2) by (auto simp: list_all2_conv_all_nth)
  moreover have "BuildStripeLayout n spans = Some (Inr (concat tss))"
    using assms(1-3) tot t g a'(1) l(1,2) by (simp add: BuildStripeLayout_def Let_def)
  ultimately show ?thesis using l(2) by blast
qed

definition sample_spans :: Store where
  "sample_spans = [\<lparr>sp_Path = [1], sp_Size = 100, sp_DiskID = (0, 0)\<rparr>, \<lparr>sp_Path = [2], sp_Size = 35, sp_DiskID = (0, 0)\<rparr>]"

theorem store_layout_tiles_witness:
  "\<exists>tss. BuildStripeLayout 4 sample_spans = Some (Inr (concat tss)) \<and> length (concat tss) = 4 \<and>
    list_all2 (\<lambda>sp ts. covers (sp_Path sp) 0 (sp_Size sp) ts) sample_spans tss"
  using store_layout_tiles [of 4 sample_spans] by (simp add: sample_spans_def)

section \<open>Sizes in the configuration file\<close>

lemma last_not_space:
  assumes "is_digit c \<or> c \<in> {0x4b, 0x6b, 0x4d, 0x6d, 0x47, 0x67, 0x54, 0x74}"
  shows "lead (map rev space_seqs) (c # s) = 0"
proof (cases "is_digit c")
  case False
  then show ?thesis using assms by (elim disjE insertE) (simp_all add: lead_def space_seqs_def starts_def)
qed (rule lead_digit)

lemma TrimSpace_number:
  assumes "s \<noteq> []" "list_all is_digit s" "is_digit c \<or> c \<in> {0x4b, 0x6b, 0x4d, 0x6d, 0x47, 0x67, 0x54, 0x74}"
  shows "TrimSpace (s @ [c]) = s @ [c]"
proof -
  obtain d t where "s = d # t" using assms(1) by (cases s) auto
  then have "lead space_seqs (s @ [c]) = 0" using assms(2) lead_digit by simp
  then have 1: "trim_lead space_seqs (s @ [c]) = s @ [c]" by (simp add: trim_lead.simps)
  have "lead (map rev space_seqs) (c # rev s) = 0" using last_not_space [OF assms(3)] .
  then show ?thesis unfolding TrimSpace_def 1 by (simp add: trim_lead.simps)
qed

lemma TrimSpace_decimal: "TrimSpace (decimal n) = decimal n"
proof -
  obtain c s where d: "decimal n = s @ [c]" using decimal_digits [of n] by (metis rev_exhaust)
  then have c: "is_digit c" "list_all is_digit s" using decimal_digits [of n] by simp_all
  show ?thesis
  proof (cases "s = []")
    case True
    then show ?thesis using c lead_digit [OF c(1), of "[]"] by (simp add: TrimSpace_def d trim_lead.simps)
  qed (use c d TrimSpace_number [of s c] in auto)
qed

text \<open>C40. Sizes are read as written, in units of 1024, and silently wrap: a number below \<open>2 ^ 63\<close> with or without a unit
  suffix gives the product reduced to 64 bits, without a range check.\<close>

theorem parseSize_units:
  assumes "n < 2 ^ 63"
  shows "parseSize (decimal n) = Inr (int n) \<and>
    parseSize (decimal n @ go_str ''K'') = Inr (i64 (int n * 2 ^ 10)) \<and> parseSize (decimal n @ go_str ''M'') = Inr (i64 (int n * 2 ^ 20)) \<and>
    parseSize (decimal n @ go_str ''G'') = Inr (i64 (int n * 2 ^ 30)) \<and> parseSize (decimal n @ go_str ''T'') = Inr (i64 (int n * 2 ^ 40))"
proof -
  note d = decimal_digits [of n]
  have "is_digit (last (decimal n))" using d by (simp add: list_all_iff)
  then have 1: "parseSize (decimal n) = Inr (int n)" using d ParseInt_decimal [OF assms] by (simp add: parseSize_def TrimSpace_decimal)
  have "TrimSpace (decimal n @ [c]) = decimal n @ [c]" if "c = 0x4b \<or> c = 0x4d \<or> c = 0x47 \<or> c = 0x54" for c
    using d that by (intro TrimSpace_number) auto
  then show ?thesis using 1 ParseInt_decimal [OF assms] by (simp add: parseSize_def go_str_def is_digit_def)
qed

theorem parseSize_units_witness: "parseSize (decimal (2 ^ 43) @ go_str ''M'') = Inr (- (2 ^ 63))"
  using parseSize_units [where n = "2 ^ 43"] by (simp add: i64_def)

end
