(* ===== verification/Stripe_Owner.thy ===== *)
theory Stripe_Owner
  imports Razor_Prelude
begin

text \<open>
  The process-wide registry of open cache files (\<^verbatim>\<open>cache/stripe_owner.go\<close>). A stripe is a number; the
  registry maps the device and inode of a file to its lock descriptor and the spans the process has open in it.
  What the system calls answer is a parameter of each call. \<^verbatim>\<open>Stripe.Close\<close> and \<^verbatim>\<open>Stripe.Open\<close> run the release
  closure at most once per acquisition, while its owner is registered.
\<close>

type_synonym stripeInode = "nat \<times> nat"

record open_stripe =
  os_id :: nat
  os_Skip :: int
  os_Len :: int

record stripeOwner =
  so_fd :: nat
  so_stripes :: "open_stripe list"

type_synonym stripeOwners = "stripeInode \<rightharpoonup> stripeOwner"

definition overlapping :: "open_stripe \<Rightarrow> open_stripe \<Rightarrow> bool" where
  "overlapping s other \<longleftrightarrow> os_Skip s < os_Skip other + os_Len other \<and> os_Skip other < os_Skip s + os_Len s"

definition drop_stripe :: "nat \<Rightarrow> open_stripe list \<Rightarrow> open_stripe list" where
  "drop_stripe i ss = filter (\<lambda>s. os_id s \<noteq> i) ss"

text \<open>\<open>stat\<close> is the answer of \<^verbatim>\<open>f.Stat\<close> (with the inode, if the platform reports it), \<open>dup\<close> of \<^verbatim>\<open>syscall.Dup\<close>
  and \<open>flock\<close> of \<^verbatim>\<open>syscall.Flock\<close>.\<close>

definition acquireOwnership :: "open_stripe \<Rightarrow> (stripeInode option) result \<Rightarrow> nat result \<Rightarrow> go_err option \<Rightarrow> stripeOwners \<Rightarrow>
    stripeOwners \<times> go_err option" where
  "acquireOwnership s stat dup flock own =
     (case stat of
        Inl err \<Rightarrow> (own, Some err)
      | Inr None \<Rightarrow> (own, Some (Err ''cache file identity unavailable''))
      | Inr (Some key) \<Rightarrow>
          (case own key of
             Some owner \<Rightarrow>
               if list_ex (overlapping s) (so_stripes owner)
               then (own, Some (Err ''overlapping cache stripe already open''))
               else (own(key \<mapsto> owner\<lparr>so_stripes := s # drop_stripe (os_id s) (so_stripes owner)\<rparr>), None)
           | None \<Rightarrow>
               (case dup of
                  Inl err \<Rightarrow> (own, Some err)
                | Inr fd \<Rightarrow>
                    (case flock of
                       Some err \<Rightarrow> (own, Some (Err ''cache file already owned''))
                     | None \<Rightarrow> (own(key \<mapsto> \<lparr>so_fd = fd, so_stripes = [s]\<rparr>), None)))))"

text \<open>The release closure of the stripe numbered \<open>i\<close> returns the descriptor it closes.\<close>

definition releaseOwnership :: "nat \<Rightarrow> stripeInode \<Rightarrow> stripeOwners \<Rightarrow> stripeOwners \<times> nat option" where
  "releaseOwnership i key own =
     (case own key of
        None \<Rightarrow> (own, None)
      | Some owner \<Rightarrow>
          let rest = drop_stripe i (so_stripes owner) in
          if rest = [] then (own(key := None), Some (so_fd owner))
          else (own(key \<mapsto> owner\<lparr>so_stripes := rest\<rparr>), None))"

section \<open>Reachable registries\<close>

inductive owners_reach :: "stripeOwners \<Rightarrow> bool" where
  start: "owners_reach Map.empty"
| acquire: "owners_reach own \<Longrightarrow> owners_reach (fst (acquireOwnership s stat dup flock own))"
| release: "owners_reach own \<Longrightarrow> owners_reach (fst (releaseOwnership i key own))"

definition owner_ok :: "stripeOwner \<Rightarrow> bool" where
  "owner_ok owner \<longleftrightarrow> so_stripes owner \<noteq> [] \<and> distinct (map os_id (so_stripes owner)) \<and>
     (\<forall>a\<in>set (so_stripes owner). \<forall>b\<in>set (so_stripes owner). os_id a \<noteq> os_id b \<longrightarrow> \<not> overlapping a b)"

lemma overlapping_sym: "overlapping a b = overlapping b a"
  by (auto simp: overlapping_def)

lemma owner_ok_add:
  assumes "owner_ok owner" "\<not> list_ex (overlapping s) (so_stripes owner)"
  shows "owner_ok (owner\<lparr>so_stripes := s # drop_stripe (os_id s) (so_stripes owner)\<rparr>)"
proof -
  have "\<not> overlapping s b" "\<not> overlapping b s" if "b \<in> set (so_stripes owner)" for b
    using assms(2) that overlapping_sym [of b s] by (auto simp: list_ex_iff)
  then show ?thesis using assms(1) by (auto simp: owner_ok_def drop_stripe_def distinct_map_filter)
qed

lemma owner_ok_drop:
  "owner_ok owner \<Longrightarrow> drop_stripe i (so_stripes owner) \<noteq> [] \<Longrightarrow> owner_ok (owner\<lparr>so_stripes := drop_stripe i (so_stripes owner)\<rparr>)"
  by (auto simp: owner_ok_def drop_stripe_def distinct_map_filter)

lemma owners_reach_ok: "owners_reach own \<Longrightarrow> own key = Some owner \<Longrightarrow> owner_ok owner"
proof (induction arbitrary: key owner rule: owners_reach.induct)
  case (acquire own s stat dup flock)
  have fresh: "owner_ok \<lparr>so_fd = fd, so_stripes = [s]\<rparr>" for fd by (simp add: owner_ok_def)
  show ?case
  proof (cases "own key = Some owner")
    case False
    then show ?thesis using acquire.prems fresh owner_ok_add [OF acquire.IH, of key _ s]
      by (auto simp: acquireOwnership_def split: sum.splits option.splits if_splits)
  qed (use acquire.IH in blast)
next
  case (release own i key')
  show ?case
  proof (cases "own key = Some owner")
    case False
    then show ?thesis using release.prems owner_ok_drop [OF release.IH, of key _ i]
      by (auto simp: releaseOwnership_def Let_def split: option.splits if_splits)
  qed (use release.IH in blast)
qed simp

text \<open>C12. No two stripes share bytes. In every reachable registry an owned file has a stripe, and two stripes that
  are open in one file do not overlap; acquiring an overlapping span of an owned file is refused without a
  change, and any other span of it is granted.\<close>

theorem owners_disjoint:
  assumes "owners_reach own" "own key = Some owner"
  shows "so_stripes owner \<noteq> [] \<and>
    (\<forall>a\<in>set (so_stripes owner). \<forall>b\<in>set (so_stripes owner). os_id a \<noteq> os_id b \<longrightarrow>
       os_Skip a + os_Len a \<le> os_Skip b \<or> os_Skip b + os_Len b \<le> os_Skip a) \<and>
    (case acquireOwnership s (Inr (Some key)) dup flock own of (own', err) \<Rightarrow>
       (err = None) = (\<forall>a\<in>set (so_stripes owner). os_Skip s + os_Len s \<le> os_Skip a \<or> os_Skip a + os_Len a \<le> os_Skip s) \<and>
       (err \<noteq> None \<longrightarrow> own' = own))"
proof -
  have ok: "owner_ok owner" using owners_reach_ok [OF assms] .
  have d: "\<not> overlapping a b \<longleftrightarrow> os_Skip a + os_Len a \<le> os_Skip b \<or> os_Skip b + os_Len b \<le> os_Skip a" for a b
    by (auto simp: overlapping_def)
  have "so_stripes owner \<noteq> [] \<and> (\<forall>a\<in>set (so_stripes owner). \<forall>b\<in>set (so_stripes owner). os_id a \<noteq> os_id b \<longrightarrow> \<not> overlapping a b)"
    using ok by (simp add: owner_ok_def)
  moreover have "case acquireOwnership s (Inr (Some key)) dup flock own of (own', err) \<Rightarrow>
       (err = None) = (\<forall>a\<in>set (so_stripes owner). \<not> overlapping s a) \<and> (err \<noteq> None \<longrightarrow> own' = own)"
    using assms(2) by (simp add: acquireOwnership_def list_ex_iff)
  ultimately show ?thesis unfolding d by simp
qed

definition stripe_a :: open_stripe where "stripe_a = \<lparr>os_id = 7, os_Skip = 0, os_Len = 100\<rparr>"
definition stripe_b :: open_stripe where "stripe_b = \<lparr>os_id = 8, os_Skip = 50, os_Len = 100\<rparr>"

theorem owners_disjoint_witness:
  "let own = fst (acquireOwnership stripe_a (Inr (Some (1, 2))) (Inr 3) None Map.empty)
   in own (1, 2) = Some \<lparr>so_fd = 3, so_stripes = [stripe_a]\<rparr> \<and>
      snd (acquireOwnership stripe_b (Inr (Some (1, 2))) (Inr 3) None own) \<noteq> None"
proof -
  let ?own = "fst (acquireOwnership stripe_a (Inr (Some (1, 2))) (Inr 3) None Map.empty)"
  let ?o = "\<lparr>so_fd = 3, so_stripes = [stripe_a]\<rparr>"
  have k: "?own (1, 2) = Some ?o" by (simp add: acquireOwnership_def)
  have r: "owners_reach ?own" by (intro owners_reach.intros)
  show ?thesis using k owners_disjoint [OF r k, of stripe_b "Inr 3" None]
    by (simp add: case_prod_unfold Let_def stripe_a_def stripe_b_def)
qed

end
