(* ===== verification/Doc_Format.thy ===== *)
theory Doc_Format
  imports Hashes Dir_Entry
begin

text \<open>
  The stored forms of a cache fragment (\<^verbatim>\<open>cache/doc.go\<close>) and of the stripe header
  (\<^verbatim>\<open>cache/stripe_header.go\<close>): the fixed big-endian layouts, the checksum over identity, lengths and body,
  and the validation a reader runs before it uses a fragment. A \<^verbatim>\<open>[16]byte\<close> array is a byte list of
  length 16 (\<open>doc_wf\<close>), an \<^verbatim>\<open>int64\<close> is an \<open>int\<close> read back with its sign.
\<close>

unbundle bit_operations_syntax

section \<open>binary.Read\<close>

text \<open>\<^verbatim>\<open>binary.Read\<close> of \<open>k\<close> bytes from a \<^verbatim>\<open>bytes.Reader\<close>: a short reader is emptied and gives the error.\<close>

definition go_read :: "nat \<Rightarrow> bytes \<Rightarrow> bytes result \<times> bytes" where
  "go_read k bs =
     (if length bs < k then (Inl (if bs = [] then ErrEOF else ErrUnexpectedEOF), [])
      else (Inr (take k bs), drop k bs))"

lemma go_read_append [simp, codec_simps]: "length xs = k \<Longrightarrow> go_read k (xs @ ys) = (Inr xs, ys)"
  by (simp add: go_read_def)

lemma go_read_exact [simp, codec_simps]: "length xs = k \<Longrightarrow> go_read k xs = (Inr xs, [])"
  by (simp add: go_read_def)

section \<open>Doc\<close>

definition DocMagic :: u32 where "DocMagic = 0x5F129B13"
definition DocHeaderSize :: nat where "DocHeaderSize = 72"
definition docIdentityVersion :: u8 where "docIdentityVersion = 3"
definition AggBufferSize :: nat where "AggBufferSize = 4 * 1024 * 1024"

record Doc =
  d_Magic :: u32
  d_Len :: u32
  d_TotalLen :: u64
  d_FirstKey :: bytes
  d_Key :: bytes
  d_HLen :: u32
  d_DocType :: u8
  d_VMajor :: u8
  d_VMinor :: u8
  d_Unused :: u8
  d_SyncSerial :: u32
  d_WriteSerial :: u32
  d_Pinned :: u32
  d_Checksum :: u32

definition doc_MarshalBinary :: "Doc \<Rightarrow> bytes" where
  "doc_MarshalBinary d =
     put_be32 (d_Magic d) @ put_be32 (d_Len d) @ put_be64 (d_TotalLen d) @ d_FirstKey d @ d_Key d @
     put_be32 (d_HLen d) @ [d_DocType d, d_VMajor d, d_VMinor d, d_Unused d] @
     put_be32 (d_SyncSerial d) @ put_be32 (d_WriteSerial d) @ put_be32 (d_Pinned d) @ put_be32 (d_Checksum d)"

definition field :: "nat \<Rightarrow> nat \<Rightarrow> bytes \<Rightarrow> bytes" where
  "field i n bs = take n (drop i bs)"

definition doc_UnmarshalBinary :: "bytes \<Rightarrow> Doc result" where
  "doc_UnmarshalBinary data =
     (case fst (go_read DocHeaderSize data) of
        Inl e \<Rightarrow> Inl e
      | Inr bs \<Rightarrow> Inr \<lparr>d_Magic = get_be32 (field 0 4 bs), d_Len = get_be32 (field 4 4 bs),
          d_TotalLen = get_be64 (field 8 8 bs), d_FirstKey = field 16 16 bs, d_Key = field 32 16 bs,
          d_HLen = get_be32 (field 48 4 bs), d_DocType = bs ! 52, d_VMajor = bs ! 53, d_VMinor = bs ! 54,
          d_Unused = bs ! 55, d_SyncSerial = get_be32 (field 56 4 bs), d_WriteSerial = get_be32 (field 60 4 bs),
          d_Pinned = get_be32 (field 64 4 bs), d_Checksum = get_be32 (field 68 4 bs)\<rparr>)"

definition CalculateChecksum :: "Doc \<Rightarrow> bytes \<Rightarrow> u32" where
  "CalculateChecksum d data =
     (if unat (d_Len d) < DocHeaderSize \<or> unat (d_Len d) - DocHeaderSize > length data then 0
      else crc32_Update (crc32_Update 0 (doc_MarshalBinary (d\<lparr>d_Checksum := 0\<rparr>)))
             (take (unat (d_Len d) - DocHeaderSize) data))"

definition DataLen :: "Doc \<Rightarrow> u32" where
  "DataLen d = d_Len d - of_nat DocHeaderSize - d_HLen d"

definition PrefixLen :: "Doc \<Rightarrow> u32" where
  "PrefixLen d = of_nat DocHeaderSize + d_HLen d"

definition SingleFragment :: "Doc \<Rightarrow> bool" where
  "SingleFragment d \<longleftrightarrow> ucast (DataLen d) = d_TotalLen d"

definition doc_validate :: "Doc \<Rightarrow> bytes \<Rightarrow> unit result" where
  "doc_validate d data =
     (if d_Magic d \<noteq> DocMagic \<or> d_VMajor d \<noteq> docIdentityVersion \<or> d_VMinor d \<noteq> 0 \<or> d_Unused d \<noteq> 0
      then Inl (Err ''unsupported cache document'')
      else if unat (d_Len d) < DocHeaderSize \<or> unat (d_Len d) > AggBufferSize \<or> unat (d_Len d) > length data \<or>
              d_HLen d > d_Len d - of_nat DocHeaderSize \<or> unat (DataLen d) > TargetFragmentSize
      then Inl (Err ''invalid cache fragment length'')
      else if d_Checksum d \<noteq> CalculateChecksum d (drop DocHeaderSize data)
      then Inl (Err ''cache document checksum mismatch'')
      else Inr ())"

definition doc_wf :: "Doc \<Rightarrow> bool" where
  "doc_wf d \<longleftrightarrow> length (d_FirstKey d) = 16 \<and> length (d_Key d) = 16"

section \<open>StripeHeader\<close>

definition StripeHeaderMagic :: u32 where "StripeHeaderMagic = 0xBADBABE"
definition StripeHeaderVer :: u32 where "StripeHeaderVer = 2"
definition StripeHeaderSize :: nat where "StripeHeaderSize = 24"

record StripeHeader =
  sh_Magic :: u32
  sh_Version :: u32
  sh_WritePos :: int
  sh_Phase :: bool
  sh_SyncSerial :: u32

definition sh_MarshalBinary :: "StripeHeader \<Rightarrow> bytes" where
  "sh_MarshalBinary h =
     put_be32 (sh_Magic h) @ put_be32 (sh_Version h) @ put_be64 (of_int (sh_WritePos h)) @
     [if sh_Phase h then 1 else 0] @ [0] @ put_be16 0 @ put_be32 (sh_SyncSerial h)"

text \<open>Field by field: an error leaves the fields read before it assigned. The errors of the two padding
  reads are dropped.\<close>

definition sh_UnmarshalBinary :: "bytes \<Rightarrow> StripeHeader \<Rightarrow> StripeHeader \<times> unit result" where
  "sh_UnmarshalBinary data h =
     (case go_read 4 data of (Inl e, _) \<Rightarrow> (h, Inl e) | (Inr magic, r) \<Rightarrow>
      let h = h\<lparr>sh_Magic := get_be32 magic\<rparr> in
      case go_read 4 r of (Inl e, _) \<Rightarrow> (h, Inl e) | (Inr version, r) \<Rightarrow>
      let h = h\<lparr>sh_Version := get_be32 version\<rparr> in
      case go_read 8 r of (Inl e, _) \<Rightarrow> (h, Inl e) | (Inr pos, r) \<Rightarrow>
      let h = h\<lparr>sh_WritePos := sint (get_be64 pos)\<rparr> in
      case go_read 1 r of (Inl e, _) \<Rightarrow> (h, Inl e) | (Inr phase, r) \<Rightarrow>
      let h = h\<lparr>sh_Phase := (phase ! 0 = 1)\<rparr>;
          r = snd (go_read 1 r);
          r = snd (go_read 2 r) in
      case go_read 4 r of (Inl e, _) \<Rightarrow> (h, Inl e) | (Inr serial, _) \<Rightarrow>
      (h\<lparr>sh_SyncSerial := get_be32 serial\<rparr>, Inr ()))"

section \<open>Round trips\<close>

lemma length_doc_MarshalBinary: "doc_wf d \<Longrightarrow> length (doc_MarshalBinary d) = DocHeaderSize"
  by (simp add: doc_MarshalBinary_def doc_wf_def DocHeaderSize_def)

lemma field_append1: "i \<ge> length xs \<Longrightarrow> field i n (xs @ ys) = field (i - length xs) n ys"
  by (simp add: field_def)

lemma field_Cons: "0 < i \<Longrightarrow> field i n (x # xs) = field (i - 1) n xs"
  by (cases i) (simp_all add: field_def)

lemma field_head: "length xs = n \<Longrightarrow> field 0 n (xs @ ys) = xs"
  by (simp add: field_def)

lemma field_self: "length xs = n \<Longrightarrow> field 0 n xs = xs"
  by (simp add: field_def)

lemma doc_roundtrip_core:
  assumes "doc_wf d"
  shows "doc_UnmarshalBinary (doc_MarshalBinary d @ rest) = Inr d"
proof -
  have l: "length (d_FirstKey d) = 16" "length (d_Key d) = 16" using assms by (auto simp: doc_wf_def)
  have r: "go_read DocHeaderSize (doc_MarshalBinary d @ rest) = (Inr (doc_MarshalBinary d), rest)"
    by (rule go_read_append) (rule length_doc_MarshalBinary [OF assms])
  show ?thesis
    unfolding doc_UnmarshalBinary_def r
    by (simp add: doc_MarshalBinary_def field_append1 field_Cons field_head field_self nth_append l)
qed

section \<open>The checksum\<close>

lemma crc_step_top: "bit (crc_step c) 31 = bit c 0"
  by (auto simp: crc_step_def bit_simps dest: bit_imp_le_length)

lemma xor_cancel: "(x XOR c = y XOR c) = (x = (y :: 'a :: len word))"
proof
  assume "x XOR c = y XOR c"
  then have "(x XOR c) XOR c = (y XOR c) XOR c" by simp
  then show "x = y" by (simp add: xor.assoc)
qed simp

lemma crc_step_inj: "crc_step a = crc_step b \<Longrightarrow> a = b"
proof -
  assume e: "crc_step a = crc_step b"
  then have b0: "bit a 0 = bit b 0" using crc_step_top by metis
  have "drop_bit 1 a = drop_bit 1 b" using e b0 by (cases "bit b 0") (simp_all add: crc_step_def xor_cancel)
  then have "bit (drop_bit 1 a) n = bit (drop_bit 1 b) n" for n by simp
  then have hi: "bit a (Suc n) = bit b (Suc n)" for n by (simp add: bit_drop_bit_eq)
  show ?thesis
  proof (rule bit_word_eqI)
    fix n show "bit a n = bit b n" using b0 hi by (cases n) auto
  qed
qed

lemma crc_steps_inj: "(crc_step ^^ n) a = (crc_step ^^ n) b \<Longrightarrow> a = b"
  by (induction n) (auto dest: crc_step_inj)

lemma crc_byte_inj: "crc_byte b c = crc_byte b c' \<Longrightarrow> c = c'"
  by (auto simp: crc_byte_def xor_cancel dest: crc_steps_inj)

lemma crc_byte_inj2: "crc_byte b c = crc_byte b' c \<Longrightarrow> b = b'"
proof -
  assume "crc_byte b c = crc_byte b' c"
  then have "c XOR ucast b = (c XOR ucast b' :: u32)" unfolding crc_byte_def by (rule crc_steps_inj)
  then have "(ucast b :: u32) = ucast b'" by (simp add: xor_cancel xor.commute [of c])
  then have "(ucast (ucast b :: u32) :: u8) = ucast (ucast b' :: u32)" by simp
  moreover have "(ucast (ucast x :: u32) :: u8) = x" for x :: u8 by (rule bit_word_eqI) (auto simp: bit_ucast_iff)
  ultimately show ?thesis by simp
qed

lemma crc_fold_inj: "fold crc_byte xs c = fold crc_byte xs c' \<Longrightarrow> c = c'"
  by (induction xs arbitrary: c c') (auto dest: crc_byte_inj)

lemma crc32_one_byte:
  assumes "x \<noteq> y"
  shows "crc32_Update c (xs @ x # ys) \<noteq> crc32_Update c (xs @ y # ys)"
proof
  assume "crc32_Update c (xs @ x # ys) = crc32_Update c (xs @ y # ys)"
  then have "crc_byte x (fold crc_byte xs (NOT c)) = crc_byte y (fold crc_byte xs (NOT c))"
    by (auto simp: crc32_Update_def dest: crc_fold_inj)
  then show False using assms crc_byte_inj2 by blast
qed

section \<open>Properties\<close>

text \<open>C36. Storing and loading a fragment header. Decoding an encoded header, whatever follows it in the
  buffer, gives the header back; a buffer shorter than a header is refused.\<close>

theorem doc_roundtrip:
  assumes "doc_wf d"
  shows "doc_UnmarshalBinary (doc_MarshalBinary d @ rest) = Inr d \<and>
    length (doc_MarshalBinary d) = DocHeaderSize \<and>
    (\<forall>data. length data < DocHeaderSize \<longrightarrow> isl (doc_UnmarshalBinary data))"
  using doc_roundtrip_core [OF assms] length_doc_MarshalBinary [OF assms]
  by (simp add: doc_UnmarshalBinary_def go_read_def)

definition sample_doc :: Doc where
  "sample_doc = \<lparr>d_Magic = DocMagic, d_Len = 73, d_TotalLen = 1, d_FirstKey = replicate 16 1, d_Key = replicate 16 2,
     d_HLen = 0, d_DocType = 0, d_VMajor = docIdentityVersion, d_VMinor = 0, d_Unused = 0, d_SyncSerial = 0,
     d_WriteSerial = 0, d_Pinned = 0, d_Checksum = 0\<rparr>"

lemma sample_doc_wf: "doc_wf sample_doc"
  by (simp add: doc_wf_def sample_doc_def)

theorem doc_roundtrip_witness:
  "doc_wf sample_doc \<and> doc_UnmarshalBinary (doc_MarshalBinary sample_doc @ [9]) = Inr sample_doc"
  using doc_roundtrip [OF sample_doc_wf, of "[9]"] sample_doc_wf by simp

lemma doc_validate_Inr:
  "doc_validate d data = Inr () \<Longrightarrow> d_Checksum d = CalculateChecksum d (drop DocHeaderSize data)"
  by (auto simp: doc_validate_def split: if_splits)

lemma CalculateChecksum_one_byte:
  assumes "DocHeaderSize \<le> unat (d_Len d)" "unat (d_Len d) - DocHeaderSize \<le> length (xs @ x # ys)"
    "length xs < unat (d_Len d) - DocHeaderSize" "x \<noteq> y"
  shows "CalculateChecksum d (xs @ x # ys) \<noteq> CalculateChecksum d (xs @ y # ys)"
proof -
  let ?n = "unat (d_Len d) - DocHeaderSize"
  obtain m where "?n - length xs = Suc m" using assms(3) by (metis Suc_diff_Suc)
  then have t: "take ?n (xs @ z # ys) = xs @ z # take m ys" for z using assms(3) by simp
  show ?thesis
    using assms crc32_one_byte [OF assms(4)] by (simp add: CalculateChecksum_def t del: take_append)
qed

text \<open>C35. Corruption of the body is detected. If a fragment validates, the same header with any one byte of the
  metadata or body that the header covers changed is refused with a checksum mismatch.\<close>

theorem doc_corruption_detected:
  assumes "doc_validate d (hdr @ xs @ x # ys) = Inr ()" and "length hdr = DocHeaderSize"
    and "length xs < unat (d_Len d) - DocHeaderSize" and "x \<noteq> y"
  shows "doc_validate d (hdr @ xs @ y # ys) = Inl (Err ''cache document checksum mismatch'')"
proof -
  have c: "d_Checksum d = CalculateChecksum d (xs @ x # ys)"
    using doc_validate_Inr [OF assms(1)] assms(2) by simp
  have l: "DocHeaderSize \<le> unat (d_Len d)" "unat (d_Len d) \<le> length (hdr @ xs @ x # ys)"
    using assms(1) by (auto simp: doc_validate_def split: if_splits)
  have "CalculateChecksum d (xs @ x # ys) \<noteq> CalculateChecksum d (xs @ y # ys)"
    by (rule CalculateChecksum_one_byte) (use l assms in auto)
  then show ?thesis using assms(1,2) c by (auto simp: doc_validate_def split: if_splits)
qed

text \<open>A document sealed with its checksum.\<close>

definition sealed :: "Doc \<Rightarrow> bytes \<Rightarrow> Doc" where
  "sealed d body = d\<lparr>d_Checksum := CalculateChecksum d body\<rparr>"

lemma sealed_checksum: "CalculateChecksum (sealed d body) body = CalculateChecksum d body"
  by (simp add: sealed_def CalculateChecksum_def)

lemma sample_sealed_valid: "doc_validate (sealed sample_doc [5]) (replicate 72 0 @ [5]) = Inr ()"
  using sealed_checksum [of sample_doc "[5]"]
  by (simp add: doc_validate_def sealed_def sample_doc_def DocHeaderSize_def AggBufferSize_def DataLen_def
      TargetFragmentSize_def)

theorem doc_corruption_detected_witness:
  "doc_validate (sealed sample_doc [5]) (replicate 72 0 @ [] @ 5 # []) = Inr () \<and>
   doc_validate (sealed sample_doc [5]) (replicate 72 0 @ [] @ 6 # []) = Inl (Err ''cache document checksum mismatch'')"
proof
  show v: "doc_validate (sealed sample_doc [5]) (replicate 72 0 @ [] @ 5 # []) = Inr ()"
    using sample_sealed_valid by (simp only: append_Nil)
  show "doc_validate (sealed sample_doc [5]) (replicate 72 0 @ [] @ 6 # []) = Inl (Err ''cache document checksum mismatch'')"
    by (rule doc_corruption_detected [OF v]) (simp_all add: DocHeaderSize_def sealed_def sample_doc_def)
qed

text \<open>The stripe header survives a restart: decoding its encoding gives every field back, the write position
  with its sign, into whatever header value was there before.\<close>

theorem stripe_header_roundtrip:
  assumes "- (2 ^ 63) \<le> sh_WritePos h" and "sh_WritePos h < 2 ^ 63"
  shows "sh_UnmarshalBinary (sh_MarshalBinary h @ rest) h0 = (h, Inr ()) \<and>
    length (sh_MarshalBinary h) = StripeHeaderSize"
proof -
  have "sint (of_int (sh_WritePos h) :: u64) = sh_WritePos h"
    using assms by (simp add: signed_of_int signed_take_bit_int_eq_self)
  then show ?thesis
    by (simp add: sh_UnmarshalBinary_def sh_MarshalBinary_def Let_def StripeHeaderSize_def
        go_read_append [of "[_]", simplified])
qed

theorem stripe_header_roundtrip_witness:
  "sh_UnmarshalBinary (sh_MarshalBinary \<lparr>sh_Magic = StripeHeaderMagic, sh_Version = StripeHeaderVer, sh_WritePos = -5,
       sh_Phase = True, sh_SyncSerial = 7\<rparr> @ []) \<lparr>sh_Magic = 0, sh_Version = 0, sh_WritePos = 0, sh_Phase = False, sh_SyncSerial = 0\<rparr> =
     (\<lparr>sh_Magic = StripeHeaderMagic, sh_Version = StripeHeaderVer, sh_WritePos = -5, sh_Phase = True, sh_SyncSerial = 7\<rparr>, Inr ())"
  by (rule conjunct1 [OF stripe_header_roundtrip]) simp_all

end
