(* ===== verification/Http_Info.thy ===== *)
theory Http_Info
  imports Doc_Format Go_Strings
begin

text \<open>
  The HTTP metadata stored in front of a body (\<^verbatim>\<open>cache/http_info.go\<close>) and the RAM entry that keeps it
  decoded (\<^verbatim>\<open>cache/ram_metadata.go\<close>). An \<^verbatim>\<open>http.Header\<close> is an association list from names to value lists;
  the order of the list stands for the iteration order of the Go map. Times are Unix nanoseconds.
\<close>

section \<open>http.Header\<close>

type_synonym header = "(bytes \<times> bytes list) list"

text \<open>\<^verbatim>\<open>textproto.CanonicalMIMEHeaderKey\<close>: a key with a byte that is not a token byte is left alone.\<close>

definition validHeaderFieldByte :: "u8 \<Rightarrow> bool" where
  "validHeaderFieldByte c \<longleftrightarrow> is_upper c \<or> is_lower c \<or> is_digit c \<or>
     c \<in> set [0x21, 0x23, 0x24, 0x25, 0x26, 0x27, 0x2a, 0x2b, 0x2d, 0x2e, 0x5e, 0x5f, 0x60, 0x7c, 0x7e]"

primrec canon_loop :: "bool \<Rightarrow> bytes \<Rightarrow> bytes" where
  "canon_loop up [] = []"
| "canon_loop up (c # cs) =
     (let c = (if up \<and> is_lower c then c - 0x20 else if \<not> up \<and> is_upper c then c + 0x20 else c)
      in c # canon_loop (c = 0x2d) cs)"

definition canonical_key :: "bytes \<Rightarrow> bytes" where
  "canonical_key k = (if list_all validHeaderFieldByte k then canon_loop True k else k)"

fun header_app :: "bytes \<Rightarrow> bytes \<Rightarrow> header \<Rightarrow> header" where
  "header_app k v [] = [(k, [v])]"
| "header_app k v ((k', vs) # h) = (if k' = k then (k', vs @ [v]) # h else (k', vs) # header_app k v h)"

definition header_Add :: "bytes \<Rightarrow> bytes \<Rightarrow> header \<Rightarrow> header" where
  "header_Add k v h = header_app (canonical_key k) v h"

definition header_pairs :: "header \<Rightarrow> (bytes \<times> bytes) list" where
  "header_pairs h = concat (map (\<lambda>(k, vs). map (\<lambda>v. (k, v)) vs) h)"

section \<open>CacheHTTPInfo\<close>

record CacheHTTPInfo =
  RequestTime :: int
  ResponseTime :: int
  RequestMethod :: bytes
  RequestURL :: bytes
  Status :: int
  ResponseHeaders :: header

definition NewCacheHTTPInfo :: CacheHTTPInfo where
  "NewCacheHTTPInfo = \<lparr>RequestTime = 0, ResponseTime = 0, RequestMethod = [], RequestURL = [], Status = 0, ResponseHeaders = []\<rparr>"

definition put_str16 :: "bytes \<Rightarrow> bytes" where
  "put_str16 s = put_be16 (of_nat (length s)) @ s"

primrec marshal_pairs :: "(bytes \<times> bytes) list \<Rightarrow> nat \<Rightarrow> bytes \<Rightarrow> (nat \<times> bytes) result" where
  "marshal_pairs [] cnt buf = Inr (cnt, buf)"
| "marshal_pairs (p # ps) cnt buf =
     (let cnt = cnt + 1 in
      if cnt > 65535 \<or> length (fst p) > 65535 \<or> length (snd p) > 65535
      then Inl (Err ''HTTP metadata headers exceed format limits'')
      else marshal_pairs ps cnt (buf @ put_str16 (fst p) @ put_str16 (snd p)))"

definition info_MarshalBinary :: "CacheHTTPInfo \<Rightarrow> bytes result" where
  "info_MarshalBinary h =
     (if length (RequestMethod h) > 65535 then Inl (Err ''method too long'')
      else if length (RequestURL h) > 65535 then Inl (Err ''url too long'')
      else case marshal_pairs (header_pairs (ResponseHeaders h)) 0 [] of
        Inl e \<Rightarrow> Inl e
      | Inr (cnt, hbuf) \<Rightarrow>
          Inr (put_be64 (of_int (RequestTime h)) @ put_be64 (of_int (ResponseTime h)) @
               put_str16 (RequestMethod h) @ put_str16 (RequestURL h) @ put_be16 (of_int (Status h)) @
               put_be16 (of_nat cnt) @ hbuf))"

definition read_str16 :: "bytes \<Rightarrow> (bytes \<times> bytes) result" where
  "read_str16 bs =
     (case go_read 2 bs of
        (Inl e, _) \<Rightarrow> Inl e
      | (Inr l, r) \<Rightarrow> (case go_read (unat (get_be16 l)) r of (Inl e, _) \<Rightarrow> Inl e | (Inr s, r) \<Rightarrow> Inr (s, r)))"

primrec unmarshal_pairs :: "nat \<Rightarrow> bytes \<Rightarrow> header \<Rightarrow> (header \<times> bytes) result" where
  "unmarshal_pairs 0 bs h = Inr (h, bs)"
| "unmarshal_pairs (Suc n) bs h =
     (case read_str16 bs of
        Inl e \<Rightarrow> Inl e
      | Inr (k, bs) \<Rightarrow> (case read_str16 bs of
          Inl e \<Rightarrow> Inl e
        | Inr (v, bs) \<Rightarrow> unmarshal_pairs n bs (header_Add k v h)))"

text \<open>The receiver is only used when there is no error, so the result carries it.\<close>

definition info_UnmarshalBinary :: "bytes \<Rightarrow> CacheHTTPInfo result" where
  "info_UnmarshalBinary data =
     (case go_read 8 data of (Inl e, _) \<Rightarrow> Inl e | (Inr req, r) \<Rightarrow>
      case go_read 8 r of (Inl e, _) \<Rightarrow> Inl e | (Inr resp, r) \<Rightarrow>
      case read_str16 r of Inl e \<Rightarrow> Inl e | Inr (meth, r) \<Rightarrow>
      case read_str16 r of Inl e \<Rightarrow> Inl e | Inr (url, r) \<Rightarrow>
      case go_read 2 r of (Inl e, _) \<Rightarrow> Inl e | (Inr status, r) \<Rightarrow>
      case go_read 2 r of (Inl e, _) \<Rightarrow> Inl e | (Inr cnt, r) \<Rightarrow>
      case unmarshal_pairs (unat (get_be16 cnt)) r [] of Inl e \<Rightarrow> Inl e | Inr (hdrs, r) \<Rightarrow>
      if r \<noteq> [] then Inl (Err ''trailing HTTP metadata'')
      else Inr \<lparr>RequestTime = sint (get_be64 req), ResponseTime = sint (get_be64 resp), RequestMethod = meth,
                RequestURL = url, Status = int (unat (get_be16 status)), ResponseHeaders = hdrs\<rparr>)"

section \<open>The RAM entry\<close>

record ramEntry =
  re_data :: bytes
  re_info :: "CacheHTTPInfo option"
  re_checksum :: u32
  re_weight :: nat

definition info_charge :: "CacheHTTPInfo \<Rightarrow> nat" where
  "info_charge info = 256 + length (RequestMethod info) + length (RequestURL info) +
     sum_list (map (\<lambda>(name, vals). 160 + length name + length vals * 32 + sum_list (map length vals)) (ResponseHeaders info))"

definition newRAMEntry :: "bytes \<Rightarrow> ramEntry" where
  "newRAMEntry data =
     (let e = \<lparr>re_data = data, re_info = None, re_checksum = 0, re_weight = max 1 (length data) mod 2 ^ 32\<rparr>
      in if length data < DocHeaderSize then e
         else case doc_UnmarshalBinary (take DocHeaderSize data) of
           Inl _ \<Rightarrow> e
         | Inr doc \<Rightarrow>
             if d_Magic doc \<noteq> DocMagic \<or> d_HLen doc = 0 \<or> unat (d_HLen doc) > length data - DocHeaderSize then e
             else case info_UnmarshalBinary (take (unat (d_HLen doc)) (drop DocHeaderSize data)) of
               Inl _ \<Rightarrow> e
             | Inr info \<Rightarrow>
                 let charge = re_weight e + info_charge info
                 in if charge > 2 ^ 32 - 1 then e
                    else e\<lparr>re_info := Some info, re_checksum := d_Checksum doc, re_weight := charge\<rparr>)"

section \<open>Round trip\<close>

lemma read_str16_put [simp, codec_simps]:
  assumes "length s \<le> 65535"
  shows "read_str16 (put_str16 s @ r) = Inr (s, r)"
proof -
  have "unat (of_nat (length s) :: u16) = length s" using assms by (simp add: unat_of_nat)
  then show ?thesis by (simp add: read_str16_def put_str16_def)
qed

definition put_pairs :: "(bytes \<times> bytes) list \<Rightarrow> bytes" where
  "put_pairs ps = concat (map (\<lambda>(k, v). put_str16 k @ put_str16 v) ps)"

definition pairs_ok :: "(bytes \<times> bytes) list \<Rightarrow> bool" where
  "pairs_ok ps \<longleftrightarrow> (\<forall>(k, v)\<in>set ps. length k \<le> 65535 \<and> length v \<le> 65535)"

lemma marshal_pairs_ok:
  "pairs_ok ps \<Longrightarrow> cnt + length ps \<le> 65535 \<Longrightarrow> marshal_pairs ps cnt buf = Inr (cnt + length ps, buf @ put_pairs ps)"
  by (induction ps arbitrary: cnt buf) (auto simp: pairs_ok_def put_pairs_def Let_def)

lemma unmarshal_pairs_put:
  "pairs_ok ps \<Longrightarrow> unmarshal_pairs (length ps) (put_pairs ps @ r) h = Inr (fold (\<lambda>(k, v). header_Add k v) ps h, r)"
proof (induction ps arbitrary: h)
  case (Cons p ps)
  obtain k v where p: "p = (k, v)" by force
  have l: "length k \<le> 65535" "length v \<le> 65535" "pairs_ok ps" using Cons.prems by (auto simp: p pairs_ok_def)
  have "put_pairs (p # ps) @ r = put_str16 k @ (put_str16 v @ (put_pairs ps @ r))" by (simp add: put_pairs_def p)
  then show ?case using l Cons.IH [OF l(3)] by (simp add: p)
qed (simp add: put_pairs_def)

definition header_ok :: "header \<Rightarrow> bool" where
  "header_ok h \<longleftrightarrow> distinct (map fst h) \<and> (\<forall>(k, vs)\<in>set h. canonical_key k = k \<and> vs \<noteq> [])"

lemma header_app_new: "k \<notin> fst ` set h \<Longrightarrow> header_app k v h = h @ [(k, [v])]"
  by (induction h) auto

lemma header_app_last: "k \<notin> fst ` set h \<Longrightarrow> header_app k v (h @ [(k, vs)]) = h @ [(k, vs @ [v])]"
  by (induction h) auto

lemma header_add_values:
  assumes "canonical_key k = k" "k \<notin> fst ` set h"
  shows "fold (\<lambda>(k, v). header_Add k v) (map (\<lambda>v. (k, v)) ws) (h @ [(k, vs)]) = h @ [(k, vs @ ws)]"
  using assms by (induction ws arbitrary: vs) (simp_all add: header_Add_def header_app_last)

lemma header_rebuild:
  "header_ok h \<Longrightarrow> fst ` set acc \<inter> fst ` set h = {} \<Longrightarrow>
    fold (\<lambda>(k, v). header_Add k v) (header_pairs h) acc = acc @ h"
proof (induction h arbitrary: acc)
  case (Cons p h)
  obtain k vs where p: "p = (k, vs)" by force
  have c: "canonical_key k = k" "k \<notin> fst ` set acc" "vs \<noteq> []" "header_ok h" "k \<notin> fst ` set h"
    using Cons.prems by (auto simp: p header_ok_def)
  obtain v ws where vs: "vs = v # ws" using c(3) by (cases vs) auto
  have "fold (\<lambda>(k, v). header_Add k v) (map (\<lambda>v. (k, v)) vs) acc = acc @ [(k, vs)]"
    using header_add_values [OF c(1,2), of ws "[v]"] c by (simp add: vs header_Add_def header_app_new)
  moreover have "fst ` set (acc @ [(k, vs)]) \<inter> fst ` set h = {}" using Cons.prems c(5) by (auto simp: p)
  ultimately show ?case using Cons.IH [OF c(4), of "acc @ [(k, vs)]"] by (simp add: header_pairs_def p)
qed (simp add: header_pairs_def)

definition info_ok :: "CacheHTTPInfo \<Rightarrow> bool" where
  "info_ok h \<longleftrightarrow> - (2 ^ 63) \<le> RequestTime h \<and> RequestTime h < 2 ^ 63 \<and> - (2 ^ 63) \<le> ResponseTime h \<and> ResponseTime h < 2 ^ 63 \<and>
     length (RequestMethod h) \<le> 65535 \<and> length (RequestURL h) \<le> 65535 \<and> 0 \<le> Status h \<and> Status h < 65536 \<and>
     header_ok (ResponseHeaders h) \<and> pairs_ok (header_pairs (ResponseHeaders h)) \<and>
     length (header_pairs (ResponseHeaders h)) \<le> 65535"

lemma sint_of_int64: "- (2 ^ 63) \<le> t \<Longrightarrow> t < 2 ^ 63 \<Longrightarrow> sint (of_int t :: u64) = t"
  by (simp add: signed_of_int signed_take_bit_int_eq_self)

lemma info_roundtrip_core:
  assumes "info_ok h"
  shows "\<exists>data. info_MarshalBinary h = Inr data \<and> info_UnmarshalBinary data = Inr h"
proof -
  let ?ps = "header_pairs (ResponseHeaders h)"
  have o: "length (RequestMethod h) \<le> 65535" "length (RequestURL h) \<le> 65535" "pairs_ok ?ps" "length ?ps \<le> 65535"
    "header_ok (ResponseHeaders h)"
    using assms by (auto simp: info_ok_def)
  have t: "sint (of_int (RequestTime h) :: u64) = RequestTime h" "sint (of_int (ResponseTime h) :: u64) = ResponseTime h"
    using assms by (auto simp: info_ok_def intro: sint_of_int64)
  have st: "int (unat (of_int (Status h) :: u16)) = Status h"
    using assms by (simp add: info_ok_def uint_word_of_int)
  have cnt: "unat (of_nat (length ?ps) :: u16) = length ?ps" using o(4) by (simp add: unat_of_nat)
  have u: "unmarshal_pairs (length ?ps) (put_pairs ?ps) [] = Inr (ResponseHeaders h, [])"
    using unmarshal_pairs_put [OF o(3), of "[]" "[]"] header_rebuild [OF o(5), of "[]"] by simp
  have m: "marshal_pairs ?ps 0 [] = Inr (length ?ps, put_pairs ?ps)"
    using marshal_pairs_ok [OF o(3), of 0 "[]"] o(4) by simp
  have "info_MarshalBinary h = Inr (put_be64 (of_int (RequestTime h)) @ put_be64 (of_int (ResponseTime h)) @
      put_str16 (RequestMethod h) @ put_str16 (RequestURL h) @ put_be16 (of_int (Status h)) @
      put_be16 (of_nat (length ?ps)) @ put_pairs ?ps)"
    using o m by (simp add: info_MarshalBinary_def)
  moreover have "info_UnmarshalBinary (put_be64 (of_int (RequestTime h)) @ put_be64 (of_int (ResponseTime h)) @
      put_str16 (RequestMethod h) @ put_str16 (RequestURL h) @ put_be16 (of_int (Status h)) @
      put_be16 (of_nat (length ?ps)) @ put_pairs ?ps) = Inr h"
    using o t st u cnt by (simp add: info_UnmarshalBinary_def)
  ultimately show ?thesis by blast
qed


definition sample_info :: CacheHTTPInfo where
  "sample_info = \<lparr>RequestTime = -1, ResponseTime = 5, RequestMethod = [0x47, 0x45, 0x54], RequestURL = [0x2f], Status = 200,
     ResponseHeaders = [([0x45, 0x74, 0x61, 0x67], [[1], [2, 3]]), ([0x41, 0x67, 0x65], [[4]])]\<rparr>"

lemma sample_info_ok: "info_ok sample_info"
  by (simp add: sample_info_def info_ok_def header_ok_def pairs_ok_def header_pairs_def canonical_key_def
      validHeaderFieldByte_def is_upper_def is_lower_def is_digit_def Let_def)


text \<open>A header stored under a name that is not in canonical form is read back under another name.\<close>

theorem info_header_names_change:
  "let h = NewCacheHTTPInfo\<lparr>ResponseHeaders := [([0x65, 0x74, 0x61, 0x67], [[1]])]\<rparr> in
   case info_MarshalBinary h of
     Inl _ \<Rightarrow> False
   | Inr data \<Rightarrow> (case info_UnmarshalBinary data of
       Inl _ \<Rightarrow> False
     | Inr h' \<Rightarrow> ResponseHeaders h' = [([0x45, 0x74, 0x61, 0x67], [[1]])])"
proof -
  have "canonical_key [0x65, 0x74, 0x61, 0x67] = [0x45, 0x74, 0x61, 0x67]"
    by (simp add: canonical_key_def validHeaderFieldByte_def is_upper_def is_lower_def is_digit_def Let_def)
  moreover have "read_str16 (put_str16 [1]) = Inr ([1], [])" using read_str16_put [of "[1]" "[]"] by simp
  ultimately show ?thesis
    by (simp add: info_MarshalBinary_def info_UnmarshalBinary_def NewCacheHTTPInfo_def header_pairs_def header_Add_def)
qed

section \<open>The weight of a RAM entry\<close>

lemma newRAMEntry_data [simp]: "re_data (newRAMEntry data) = data"
  by (simp add: newRAMEntry_def Let_def split: sum.splits)

lemma newRAMEntry_weight:
  assumes "length data < 2 ^ 32"
  shows "max 1 (length data) \<le> re_weight (newRAMEntry data)" "re_weight (newRAMEntry data) < 2 ^ 32"
proof -
  have "max 1 (length data) mod 2 ^ 32 = max 1 (length data)" using assms by simp
  then show "max 1 (length data) \<le> re_weight (newRAMEntry data)" "re_weight (newRAMEntry data) < 2 ^ 32"
    using assms by (auto simp: newRAMEntry_def Let_def split: sum.splits)
qed

end
