(* ===== verification/Ram_Fifo.thy ===== *)
theory Ram_Fifo
  imports Http_Info Lossy_Map "HOL-Library.AList"
begin

text \<open>
  The S3-FIFO policy of the RAM cache (\<^verbatim>\<open>cache/ram_s3fifo.go\<close>). An entry object is found through its key:
  \<open>entries\<close> maps keys to entries and the three queues hold keys, front first. The byte counters are
  integers; the invariant \<open>fifo_inv\<close> makes them sums over the queues, so no \<^verbatim>\<open>uint64\<close> subtraction of the
  code wraps. Loops that could run forever or dereference a missing front element are \<open>option\<close> valued;
  under the invariant they return.
\<close>

section \<open>State\<close>

datatype fifo_segment = fifoSmall | fifoMain | fifoGhost

record fifoEntry =
  fe_key :: bytes
  fe_value :: "ramEntry option"
  fe_charge :: int
  fe_freq :: nat
  fe_segment :: fifo_segment

record s3FIFO =
  capacity :: int
  smallBytes :: int
  mainBytes :: int
  payloadBytes :: int
  ghostBytes :: int
  ghostMetadata :: int
  entryLimit :: int
  entries :: "(bytes \<times> fifoEntry) list"
  q_small :: "bytes list"
  q_main :: "bytes list"
  q_ghost :: "bytes list"
  st_Hits :: nat
  st_Misses :: nat
  st_Evictions :: nat
  st_EvictionWeight :: int
  promotions :: nat
  ghostHits :: nat

definition newS3FIFO :: "int \<Rightarrow> s3FIFO" where
  "newS3FIFO cap = \<lparr>capacity = cap, smallBytes = 0, mainBytes = 0, payloadBytes = 0, ghostBytes = 0, ghostMetadata = 0,
     entryLimit = min cap 65536, entries = [], q_small = [], q_main = [], q_ghost = [], st_Hits = 0, st_Misses = 0,
     st_Evictions = 0, st_EvictionWeight = 0, promotions = 0, ghostHits = 0\<rparr>"

definition queue :: "fifo_segment \<Rightarrow> s3FIFO \<Rightarrow> bytes list" where
  "queue s c = (case s of fifoSmall \<Rightarrow> q_small c | fifoMain \<Rightarrow> q_main c | fifoGhost \<Rightarrow> q_ghost c)"

definition set_queue :: "fifo_segment \<Rightarrow> bytes list \<Rightarrow> s3FIFO \<Rightarrow> s3FIFO" where
  "set_queue s q c = (case s of fifoSmall \<Rightarrow> c\<lparr>q_small := q\<rparr> | fifoMain \<Rightarrow> c\<lparr>q_main := q\<rparr> | fifoGhost \<Rightarrow> c\<lparr>q_ghost := q\<rparr>)"

definition lookup_entry :: "s3FIFO \<Rightarrow> bytes \<rightharpoonup> fifoEntry" where
  "lookup_entry c = map_of (entries c)"

definition set_entry :: "bytes \<Rightarrow> fifoEntry \<Rightarrow> s3FIFO \<Rightarrow> s3FIFO" where
  "set_entry k e c = c\<lparr>entries := AList.update k e (entries c)\<rparr>"

definition data_len :: "fifoEntry \<Rightarrow> int" where
  "data_len e = (case fe_value e of Some v \<Rightarrow> int (length (re_data v)) | None \<Rightarrow> 0)"

definition ghost_cost :: "fifoEntry \<Rightarrow> int" where
  "ghost_cost e = 128 + int (length (fe_key e))"

section \<open>Operations\<close>

definition fifo_get :: "bytes \<Rightarrow> s3FIFO \<Rightarrow> s3FIFO \<times> ramEntry option" where
  "fifo_get key c =
     (case lookup_entry c key of
        Some e \<Rightarrow>
          if fe_segment e \<noteq> fifoGhost
          then (set_entry key (e\<lparr>fe_freq := min 3 (fe_freq e + 1)\<rparr>) c \<lparr>st_Hits := st_Hits c + 1\<rparr>, fe_value e)
          else (c\<lparr>st_Misses := st_Misses c + 1\<rparr>, None)
      | None \<Rightarrow> (c\<lparr>st_Misses := st_Misses c + 1\<rparr>, None))"

definition unlink :: "fifoEntry \<Rightarrow> s3FIFO \<Rightarrow> s3FIFO" where
  "unlink e c =
     (let c = set_queue (fe_segment e) (remove1 (fe_key e) (queue (fe_segment e) c)) c;
          c = (case fe_segment e of
                 fifoSmall \<Rightarrow> c\<lparr>smallBytes := smallBytes c - fe_charge e, payloadBytes := payloadBytes c - data_len e\<rparr>
               | fifoMain \<Rightarrow> c\<lparr>mainBytes := mainBytes c - fe_charge e, payloadBytes := payloadBytes c - data_len e\<rparr>
               | fifoGhost \<Rightarrow> c\<lparr>ghostBytes := ghostBytes c - fe_charge e, ghostMetadata := ghostMetadata c - ghost_cost e\<rparr>)
      in c\<lparr>entries := AList.delete (fe_key e) (entries c)\<rparr>)"

definition fifo_append :: "fifoEntry \<Rightarrow> fifo_segment \<Rightarrow> s3FIFO \<Rightarrow> s3FIFO" where
  "fifo_append e s c =
     (let e = e\<lparr>fe_segment := s\<rparr>;
          c = set_entry (fe_key e) e (set_queue s (queue s c @ [fe_key e]) c)
      in case s of
           fifoSmall \<Rightarrow> c\<lparr>smallBytes := smallBytes c + fe_charge e, payloadBytes := payloadBytes c + data_len e\<rparr>
         | fifoMain \<Rightarrow> c\<lparr>mainBytes := mainBytes c + fe_charge e, payloadBytes := payloadBytes c + data_len e\<rparr>
         | fifoGhost \<Rightarrow> c\<lparr>ghostBytes := ghostBytes c + fe_charge e, ghostMetadata := ghostMetadata c + ghost_cost e\<rparr>)"

definition ghost_full :: "s3FIFO \<Rightarrow> bool" where
  "ghost_full c \<longleftrightarrow> ghostBytes c > capacity c \<or> ghostMetadata c > max 128 (capacity c div 10) \<or>
     int (length (q_ghost c)) > entryLimit c"

definition front :: "fifo_segment \<Rightarrow> s3FIFO \<Rightarrow> fifoEntry option" where
  "front s c = (case queue s c of [] \<Rightarrow> None | k # _ \<Rightarrow> lookup_entry c k)"

partial_function (option) trimGhost :: "s3FIFO \<Rightarrow> s3FIFO option" where
  "trimGhost c = (if ghost_full c then (case front fifoGhost c of None \<Rightarrow> None | Some e \<Rightarrow> trimGhost (unlink e c)) else Some c)"

definition count_eviction :: "fifoEntry \<Rightarrow> s3FIFO \<Rightarrow> s3FIFO" where
  "count_eviction e c = c\<lparr>st_Evictions := st_Evictions c + 1, st_EvictionWeight := st_EvictionWeight c + fe_charge e\<rparr>"

text \<open>The loop over the main queue; the flag says that an entry was evicted.\<close>

partial_function (option) main_loop :: "s3FIFO \<Rightarrow> (s3FIFO \<times> bool) option" where
  "main_loop c =
     (if q_main c = [] then Some (c, False)
      else case front fifoMain c of None \<Rightarrow> None
      | Some e \<Rightarrow>
          if fe_freq e > 0
          then main_loop (set_queue fifoMain (tl (q_main c) @ [hd (q_main c)]) (set_entry (fe_key e) (e\<lparr>fe_freq := fe_freq e - 1\<rparr>) c))
          else Some (unlink e (count_eviction e c), True))"

partial_function (option) small_loop :: "s3FIFO \<Rightarrow> s3FIFO option" where
  "small_loop c =
     (if q_small c = [] then Some c
      else case front fifoSmall c of None \<Rightarrow> None
      | Some e \<Rightarrow>
          if fe_freq e \<ge> 2
          then small_loop ((fifo_append (e\<lparr>fe_freq := 0\<rparr>) fifoMain (unlink e c)) \<lparr>promotions := promotions c + 1\<rparr>)
          else trimGhost (fifo_append (e\<lparr>fe_value := None, fe_freq := 0\<rparr>) fifoGhost (count_eviction e (unlink e c))))"

definition evict :: "s3FIFO \<Rightarrow> s3FIFO option" where
  "evict c =
     (if mainBytes c > capacity c * 9 div 10 \<or> q_small c = []
      then case main_loop c of None \<Rightarrow> None | Some (c, done_) \<Rightarrow> if done_ then Some c else small_loop c
      else small_loop c)"

partial_function (option) shrink_loop :: "s3FIFO \<Rightarrow> s3FIFO option" where
  "shrink_loop c = (if smallBytes c + mainBytes c > capacity c
     then (case evict c of None \<Rightarrow> None | Some c' \<Rightarrow> shrink_loop c') else Some c)"

partial_function (option) room_loop :: "int \<Rightarrow> s3FIFO \<Rightarrow> s3FIFO option" where
  "room_loop charge c =
     (if smallBytes c + mainBytes c + charge > capacity c \<or> int (length (q_small c) + length (q_main c)) \<ge> entryLimit c
      then (case evict c of None \<Rightarrow> None | Some c' \<Rightarrow> room_loop charge c') else Some c)"

definition replace_entry :: "bytes \<Rightarrow> fifoEntry \<Rightarrow> ramEntry \<Rightarrow> s3FIFO \<Rightarrow> s3FIFO" where
  "replace_entry key old value c =
     (let charge = int (re_weight value);
          c = c\<lparr>payloadBytes := payloadBytes c - data_len old + int (length (re_data value))\<rparr>;
          c = (if fe_segment old = fifoSmall then c\<lparr>smallBytes := smallBytes c - fe_charge old + charge\<rparr>
               else c\<lparr>mainBytes := mainBytes c - fe_charge old + charge\<rparr>)
      in set_entry key (old\<lparr>fe_value := Some value, fe_charge := charge, fe_freq := min 3 (fe_freq old + 1)\<rparr>) c)"

definition insert_entry :: "bytes \<Rightarrow> ramEntry \<Rightarrow> fifo_segment \<Rightarrow> s3FIFO \<Rightarrow> s3FIFO option" where
  "insert_entry key value s c =
     (let charge = int (re_weight value)
      in case room_loop charge c of
           None \<Rightarrow> None
         | Some c \<Rightarrow> Some (fifo_append \<lparr>fe_key = key, fe_value = Some value, fe_charge = charge, fe_freq = 0, fe_segment = s\<rparr> s c))"

definition fifo_put :: "bytes \<Rightarrow> ramEntry \<Rightarrow> s3FIFO \<Rightarrow> s3FIFO option" where
  "fifo_put key value c =
     (case lookup_entry c key of
        Some old \<Rightarrow>
          if fe_segment old \<noteq> fifoGhost then shrink_loop (replace_entry key old value c)
          else insert_entry key value fifoMain (unlink old (c\<lparr>ghostHits := ghostHits c + 1\<rparr>))
      | None \<Rightarrow> insert_entry key value fifoSmall c)"

definition fifo_delete :: "bytes \<Rightarrow> s3FIFO \<Rightarrow> s3FIFO" where
  "fifo_delete key c = (case lookup_entry c key of None \<Rightarrow> c | Some e \<Rightarrow> unlink e c)"

record RAMStats =
  rs_Hits :: nat
  rs_Misses :: nat
  rs_Evictions :: nat
  rs_EvictionWeight :: int
  rs_Algorithm :: string
  rs_CapacityBytes :: int
  rs_ResidentBytes :: int
  rs_ChargedBytes :: int
  rs_ResidentEntries :: nat
  rs_GhostEntries :: nat
  rs_SmallEntries :: nat
  rs_MainEntries :: nat
  rs_GhostBytes :: int
  rs_EstimatedMetadataBytes :: int
  rs_DecodedMetadataBytes :: int
  rs_Promotions :: nat
  rs_GhostHits :: nat

definition decoded_cost :: "fifoEntry \<Rightarrow> int" where
  "decoded_cost e = fe_charge e - max 1 (data_len e)"

definition fifo_snapshot :: "s3FIFO \<Rightarrow> RAMStats" where
  "fifo_snapshot c =
     (let resident = filter (\<lambda>e. fe_segment e \<noteq> fifoGhost) (map snd (entries c))
      in \<lparr>rs_Hits = st_Hits c, rs_Misses = st_Misses c, rs_Evictions = st_Evictions c, rs_EvictionWeight = st_EvictionWeight c,
          rs_Algorithm = [], rs_CapacityBytes = 0, rs_ResidentBytes = payloadBytes c,
          rs_ChargedBytes = smallBytes c + mainBytes c, rs_ResidentEntries = length (q_small c) + length (q_main c),
          rs_GhostEntries = length (q_ghost c), rs_SmallEntries = length (q_small c), rs_MainEntries = length (q_main c),
          rs_GhostBytes = ghostBytes c,
          rs_EstimatedMetadataBytes = ghostMetadata c + sum_list (map (\<lambda>e. ghost_cost e + decoded_cost e) resident),
          rs_DecodedMetadataBytes = sum_list (map decoded_cost resident),
          rs_Promotions = promotions c, rs_GhostHits = ghostHits c\<rparr>)"

section \<open>Sums over a queue\<close>

definition qsum :: "(fifoEntry \<Rightarrow> int) \<Rightarrow> s3FIFO \<Rightarrow> fifo_segment \<Rightarrow> int" where
  "qsum f c s = (\<Sum>k\<leftarrow>queue s c. f (the (lookup_entry c k)))"

definition entries_ok :: "s3FIFO \<Rightarrow> bool" where
  "entries_ok c \<longleftrightarrow> distinct (map fst (entries c)) \<and> (\<forall>s. distinct (queue s c)) \<and>
     (\<forall>k e. lookup_entry c k = Some e \<longrightarrow> fe_key e = k \<and> 0 < fe_charge e \<and> (fe_segment e = fifoGhost \<longleftrightarrow> fe_value e = None)) \<and>
     (\<forall>s k. k \<in> set (queue s c) \<longleftrightarrow> (\<exists>e. lookup_entry c k = Some e \<and> fe_segment e = s))"

definition sums_ok :: "s3FIFO \<Rightarrow> bool" where
  "sums_ok c \<longleftrightarrow> smallBytes c = qsum fe_charge c fifoSmall \<and> mainBytes c = qsum fe_charge c fifoMain \<and>
     ghostBytes c = qsum fe_charge c fifoGhost \<and> ghostMetadata c = qsum ghost_cost c fifoGhost \<and>
     payloadBytes c = qsum data_len c fifoSmall + qsum data_len c fifoMain"

definition fifo_inv :: "s3FIFO \<Rightarrow> bool" where
  "fifo_inv c \<longleftrightarrow> entries_ok c \<and> sums_ok c"

lemma queue_set_queue: "queue s (set_queue s' q c) = (if s = s' then q else queue s c)"
  by (cases s; cases s') (simp_all add: queue_def set_queue_def)

lemma lookup_set_entry [simp]: "lookup_entry (set_entry k e c) = (lookup_entry c)(k \<mapsto> e)"
  by (simp add: lookup_entry_def set_entry_def AList.update_conv')

lemma queue_unlink: "queue s (unlink e c) = (if s = fe_segment e then remove1 (fe_key e) (queue s c) else queue s c)"
  by (cases s; cases "fe_segment e") (simp_all add: unlink_def Let_def queue_def set_queue_def)

lemma entries_unlink: "entries (unlink e c) = AList.delete (fe_key e) (entries c)"
  by (cases "fe_segment e") (simp_all add: unlink_def Let_def set_queue_def)

lemma lookup_unlink: "lookup_entry (unlink e c) = (lookup_entry c)(fe_key e := None)"
  by (simp add: lookup_entry_def entries_unlink AList.delete_conv')

lemma queue_fifo_append: "queue s' (fifo_append e s c) = (if s' = s then queue s c @ [fe_key e] else queue s' c)"
  by (cases s; cases s') (simp_all add: fifo_append_def Let_def queue_def set_queue_def set_entry_def)

lemma entries_fifo_append: "entries (fifo_append e s c) = AList.update (fe_key e) (e\<lparr>fe_segment := s\<rparr>) (entries c)"
  by (cases s) (simp_all add: fifo_append_def Let_def set_queue_def set_entry_def)

lemma lookup_fifo_append: "lookup_entry (fifo_append e s c) = (lookup_entry c)(fe_key e \<mapsto> e\<lparr>fe_segment := s\<rparr>)"
  by (simp add: lookup_entry_def entries_fifo_append AList.update_conv')

lemma sum_list_remove1_int: "x \<in> set xs \<Longrightarrow> (\<Sum>k\<leftarrow>remove1 x xs. g k) = (\<Sum>k\<leftarrow>xs. g k) - (g x :: int)"
  by (induction xs) auto

lemma sum_list_same: "(\<And>k. k \<in> set xs \<Longrightarrow> g k = h k) \<Longrightarrow> (\<Sum>k\<leftarrow>xs. g k) = (\<Sum>k\<leftarrow>xs. h k)"
  by (induction xs) auto

lemma entries_okD:
  assumes "entries_ok c" "lookup_entry c k = Some e"
  shows "fe_key e = k" "0 < fe_charge e" "fe_segment e = fifoGhost \<longleftrightarrow> fe_value e = None" "k \<in> set (queue (fe_segment e) c)"
    "s \<noteq> fe_segment e \<Longrightarrow> k \<notin> set (queue s c)"
  using assms by (auto simp: entries_ok_def)

lemma qsum_unlink:
  assumes ok: "entries_ok c" and e: "lookup_entry c k = Some e"
  shows "qsum f (unlink e c) s = qsum f c s - (if s = fe_segment e then f e else 0)"
proof -
  note E = entries_okD [OF ok e]
  have d: "distinct (queue s c)" for s using ok by (simp add: entries_ok_def)
  have "(\<Sum>j\<leftarrow>queue s (unlink e c). f (the (lookup_entry (unlink e c) j))) =
      (\<Sum>j\<leftarrow>queue s (unlink e c). f (the (lookup_entry c j)))"
    by (rule sum_list_same) (use d E in \<open>auto simp: lookup_unlink queue_unlink split: if_splits\<close>)
  then show ?thesis
    using E e by (auto simp: qsum_def queue_unlink sum_list_remove1_int)
qed

lemma qsum_append:
  assumes ok: "entries_ok c" and e: "lookup_entry c (fe_key e) = None"
  shows "qsum f (fifo_append e s c) s' = qsum f c s' + (if s' = s then f (e\<lparr>fe_segment := s\<rparr>) else 0)"
proof -
  have n: "fe_key e \<notin> set (queue s' c)" for s' using ok e by (auto simp: entries_ok_def)
  have "(\<Sum>j\<leftarrow>queue s' c. f (the (lookup_entry (fifo_append e s c) j))) = (\<Sum>j\<leftarrow>queue s' c. f (the (lookup_entry c j)))"
    by (rule sum_list_same) (use n [of s'] in \<open>auto simp: lookup_fifo_append\<close>)
  then show ?thesis by (auto simp: qsum_def queue_fifo_append lookup_fifo_append)
qed

lemma unlink_ok:
  assumes inv: "fifo_inv c" and e: "lookup_entry c k = Some e"
  shows "fifo_inv (unlink e c)"
proof -
  have ok: "entries_ok c" and su: "sums_ok c" using inv by (auto simp: fifo_inv_def)
  note E = entries_okD [OF ok e]
  have "entries_ok (unlink e c)"
    using ok E e unfolding entries_ok_def
    by (auto simp: entries_unlink lookup_unlink queue_unlink AList.distinct_delete split: if_splits)
  moreover have "sums_ok (unlink e c)"
    using su E(3) unfolding sums_ok_def qsum_unlink [OF ok e]
    by (cases "fe_segment e") (auto simp: unlink_def Let_def set_queue_def)
  ultimately show ?thesis by (simp add: fifo_inv_def)
qed

lemma append_ok:
  assumes inv: "fifo_inv c" and e: "lookup_entry c (fe_key e) = None" "0 < fe_charge e" "s = fifoGhost \<longleftrightarrow> fe_value e = None"
  shows "fifo_inv (fifo_append e s c)"
proof -
  have ok: "entries_ok c" and su: "sums_ok c" using inv by (auto simp: fifo_inv_def)
  have n: "fe_key e \<notin> set (queue s' c)" for s' using ok e by (auto simp: entries_ok_def)
  have "entries_ok (fifo_append e s c)"
    using ok n e unfolding entries_ok_def
    by (auto simp: entries_fifo_append lookup_fifo_append queue_fifo_append AList.distinct_update split: if_splits)
  moreover have "sums_ok (fifo_append e s c)"
    using su unfolding sums_ok_def qsum_append [OF ok e(1)]
    by (cases s) (auto simp: fifo_append_def Let_def set_queue_def set_entry_def data_len_def ghost_cost_def)
  ultimately show ?thesis by (simp add: fifo_inv_def)
qed

lemma qsum_set_entry:
  assumes ok: "entries_ok c" and e: "lookup_entry c k = Some e"
  shows "qsum f (set_entry k e' c) s = qsum f c s + (if s = fe_segment e then f e' - f e else 0)"
proof -
  note E = entries_okD [OF ok e]
  have q: "queue s (set_entry k e' c) = queue s c" by (cases s) (simp_all add: queue_def set_entry_def)
  show ?thesis
  proof (cases "s = fe_segment e")
    case True
    then have k: "k \<in> set (queue s c)" "distinct (queue s c)" using E ok by (auto simp: entries_ok_def)
    have r: "(\<Sum>j\<leftarrow>queue s c. g j) = g k + (\<Sum>j\<leftarrow>remove1 k (queue s c). g j)" for g :: "bytes \<Rightarrow> int"
      using sum_list_remove1_int [OF k(1)] by simp
    have "(\<Sum>j\<leftarrow>remove1 k (queue s c). f (the (((lookup_entry c)(k \<mapsto> e')) j))) = (\<Sum>j\<leftarrow>remove1 k (queue s c). f (the (lookup_entry c j)))"
      by (rule sum_list_same) (use k(2) in auto)
    then show ?thesis using True e unfolding qsum_def q r by simp
  next
    case False
    then have "k \<notin> set (queue s c)" using E by blast
    then have "(\<Sum>j\<leftarrow>queue s c. f (the (((lookup_entry c)(k \<mapsto> e')) j))) = (\<Sum>j\<leftarrow>queue s c. f (the (lookup_entry c j)))"
      by (intro sum_list_same) auto
    then show ?thesis using False by (simp add: qsum_def q)
  qed
qed

lemma touch_ok:
  assumes inv: "fifo_inv c" and e: "lookup_entry c k = Some e"
  shows "fifo_inv (set_entry k (e\<lparr>fe_freq := n\<rparr>) c)"
proof -
  have ok: "entries_ok c" and su: "sums_ok c" using inv by (auto simp: fifo_inv_def)
  note E = entries_okD [OF ok e]
  have q: "queue s (set_entry k e' c) = queue s c" for s e' by (cases s) (simp_all add: queue_def set_entry_def)
  have ds: "distinct (map fst (entries (set_entry k e' c)))" for e'
    using ok by (simp add: entries_ok_def set_entry_def AList.distinct_update)
  have "entries_ok (set_entry k (e\<lparr>fe_freq := n\<rparr>) c)"
    using ok E e ds unfolding entries_ok_def q lookup_set_entry by auto
  moreover have "sums_ok (set_entry k (e\<lparr>fe_freq := n\<rparr>) c)"
    using su unfolding sums_ok_def qsum_set_entry [OF ok e]
    by (simp add: set_entry_def data_len_def ghost_cost_def)
  ultimately show ?thesis by (simp add: fifo_inv_def)
qed

lemma qsum_rotate:
  assumes "q_main c = k # ks"
  shows "qsum f (set_queue fifoMain (ks @ [k]) c) s = qsum f c s"
proof -
  have "lookup_entry (set_queue fifoMain (ks @ [k]) c) = lookup_entry c" by (simp add: lookup_entry_def set_queue_def)
  then show ?thesis using assms by (cases s) (simp_all add: qsum_def queue_set_queue, simp_all add: queue_def)
qed

lemma rotate_ok:
  assumes inv: "fifo_inv c" and "q_main c = k # ks"
  shows "fifo_inv (set_queue fifoMain (ks @ [k]) c)"
proof -
  have q: "queue s (set_queue fifoMain (ks @ [k]) c) = (if s = fifoMain then ks @ [k] else queue s c)" for s
    by (simp add: queue_set_queue)
  have l: "lookup_entry (set_queue fifoMain (ks @ [k]) c) = lookup_entry c" "entries (set_queue fifoMain (ks @ [k]) c) = entries c"
    by (simp_all add: lookup_entry_def set_queue_def)
  have m: "queue fifoMain c = k # ks" using assms(2) by (simp add: queue_def)
  have "qsum f (set_queue fifoMain (ks @ [k]) c) s = qsum f c s" for f s by (rule qsum_rotate [OF assms(2)])
  moreover have "set (if s = fifoMain then ks @ [k] else queue s c) = set (queue s c)"
    "distinct (queue s c) \<Longrightarrow> distinct (if s = fifoMain then ks @ [k] else queue s c)" for s
    using m by auto
  ultimately show ?thesis
    using inv unfolding fifo_inv_def entries_ok_def sums_ok_def q l by (auto simp: set_queue_def)
qed

section \<open>What is visible\<close>

definition visible :: "s3FIFO \<Rightarrow> bytes \<rightharpoonup> ramEntry" where
  "visible c k = (case lookup_entry c k of None \<Rightarrow> None | Some e \<Rightarrow> if fe_segment e = fifoGhost then None else fe_value e)"

definition frame :: "s3FIFO \<Rightarrow> s3FIFO \<Rightarrow> bool" where
  "frame c c' \<longleftrightarrow> capacity c' = capacity c \<and> entryLimit c' = entryLimit c \<and> visible c' \<subseteq>\<^sub>m visible c \<and>
     dom (lookup_entry c') \<subseteq> dom (lookup_entry c)"

definition ghost_ok :: "s3FIFO \<Rightarrow> bool" where "ghost_ok c \<longleftrightarrow> \<not> ghost_full c"

definition bounds_pos :: "s3FIFO \<Rightarrow> bool" where "bounds_pos c \<longleftrightarrow> 0 < capacity c \<and> 0 < entryLimit c"

definition mu :: "s3FIFO \<Rightarrow> nat" where "mu c = 2 * length (q_small c) + length (q_main c)"

lemma frame_refl [simp]: "frame c c"
  by (simp add: frame_def)

lemma frame_trans: "frame a b \<Longrightarrow> frame b c \<Longrightarrow> frame a c"
  unfolding frame_def by (metis map_le_trans subset_trans)

lemma unlink_fields [simp]:
  "capacity (unlink e c) = capacity c" "entryLimit (unlink e c) = entryLimit c"
  by (cases "fe_segment e"; simp add: unlink_def Let_def set_queue_def)+

lemma append_fields [simp]:
  "capacity (fifo_append e s c) = capacity c" "entryLimit (fifo_append e s c) = entryLimit c"
  by (cases s; simp add: fifo_append_def Let_def set_queue_def set_entry_def)+

lemma visible_unlink:
  assumes "fifo_inv c" "lookup_entry c k = Some e"
  shows "visible (unlink e c) = (visible c)(k := None)"
  using entries_okD(1) [of c k e] assms by (auto simp: visible_def lookup_unlink fifo_inv_def)

lemma map_le_del: "m(k := None) \<subseteq>\<^sub>m m"
  by (auto simp: map_le_def)

lemma frame_unlink: "fifo_inv c \<Longrightarrow> lookup_entry c k = Some e \<Longrightarrow> frame c (unlink e c)"
  by (auto simp: frame_def visible_unlink map_le_del lookup_unlink)

lemma front_Some:
  assumes "fifo_inv c" "queue s c = k # ks"
  shows "\<exists>e. front s c = Some e \<and> lookup_entry c k = Some e \<and> fe_segment e = s \<and> fe_key e = k"
proof -
  have ok: "entries_ok c" using assms(1) by (simp add: fifo_inv_def)
  have "k \<in> set (queue s c)" using assms(2) by simp
  then obtain e where e: "lookup_entry c k = Some e" "fe_segment e = s" using ok unfolding entries_ok_def by blast
  then show ?thesis using assms(2) entries_okD(1) [OF ok e(1)] by (simp add: front_def)
qed

lemma qsum_nonneg:
  assumes "fifo_inv c"
  shows "0 \<le> qsum fe_charge c s" "0 \<le> qsum ghost_cost c s"
proof -
  have ok: "entries_ok c" using assms(1) by (simp add: fifo_inv_def)
  have "0 < fe_charge (the (lookup_entry c k))" if "k \<in> set (queue s c)" for k
    using ok that unfolding entries_ok_def by fastforce
  then show "0 \<le> qsum fe_charge c s" unfolding qsum_def by (intro sum_list_nonneg) (auto simp: less_imp_le)
  show "0 \<le> qsum ghost_cost c s" unfolding qsum_def by (intro sum_list_nonneg) (auto simp: ghost_cost_def)
qed

lemma ghost_empty_ok: "fifo_inv c \<Longrightarrow> bounds_pos c \<Longrightarrow> q_ghost c = [] \<Longrightarrow> \<not> ghost_full c"
  by (auto simp: fifo_inv_def sums_ok_def qsum_def queue_def ghost_full_def bounds_pos_def)

lemma trimGhost_ok:
  assumes "fifo_inv c" "bounds_pos c"
  shows "\<exists>c'. trimGhost c = Some c' \<and> fifo_inv c' \<and> ghost_ok c' \<and> frame c c' \<and>
    q_small c' = q_small c \<and> q_main c' = q_main c \<and> visible c' = visible c"
  using assms
proof (induction "length (q_ghost c)" arbitrary: c)
  case 0
  then have "\<not> ghost_full c" using ghost_empty_ok by simp
  then show ?case using 0 by (subst trimGhost.simps) (simp add: ghost_ok_def)
next
  case (Suc n)
  show ?case
  proof (cases "ghost_full c")
    case False
    then show ?thesis using Suc.prems by (subst trimGhost.simps) (simp add: ghost_ok_def)
  next
    case True
    obtain k ks where k: "queue fifoGhost c = k # ks" using Suc.hyps(2) by (cases "q_ghost c") (auto simp: queue_def)
    obtain e where e: "front fifoGhost c = Some e" "lookup_entry c k = Some e" "fe_segment e = fifoGhost" "fe_key e = k"
      using front_Some [OF Suc.prems(1) k] by blast
    let ?c = "unlink e c"
    have q: "queue s ?c = (if s = fifoGhost then ks else queue s c)" for s using k e by (simp add: queue_unlink)
    have l: "n = length (q_ghost ?c)" "q_small ?c = q_small c" "q_main ?c = q_main c"
      using q [of fifoGhost] q [of fifoSmall] q [of fifoMain] k Suc.hyps(2) by (auto simp: queue_def)
    have v: "visible ?c = visible c"
      using visible_unlink [OF Suc.prems(1) e(2)] e by (auto simp: visible_def)
    obtain c' where c': "trimGhost ?c = Some c'" "fifo_inv c'" "ghost_ok c'" "frame ?c c'"
      "q_small c' = q_small ?c" "q_main c' = q_main ?c" "visible c' = visible ?c"
      using Suc.hyps(1) [OF l(1) unlink_ok [OF Suc.prems(1) e(2)]] Suc.prems(2) by (auto simp: bounds_pos_def)
    have "trimGhost c = Some c'" using c'(1) e(1) True by (subst trimGhost.simps) simp
    then show ?thesis
      using c' l v frame_trans [OF frame_unlink [OF Suc.prems(1) e(2)] c'(4)] by auto
  qed
qed

section \<open>Eviction\<close>

lemma count_eviction_same [simp]:
  "queue s (count_eviction e c) = queue s c" "lookup_entry (count_eviction e c) = lookup_entry c"
  "fifo_inv (count_eviction e c) = fifo_inv c" "visible (count_eviction e c) = visible c"
  "capacity (count_eviction e c) = capacity c" "entryLimit (count_eviction e c) = entryLimit c"
  "ghost_full (count_eviction e c) = ghost_full c" "q_small (count_eviction e c) = q_small c" "q_main (count_eviction e c) = q_main c"
proof -
  show q: "queue s (count_eviction e c) = queue s c" for s by (cases s) (simp_all add: queue_def count_eviction_def)
  show l: "lookup_entry (count_eviction e c) = lookup_entry c" by (simp add: lookup_entry_def count_eviction_def)
  have "qsum f (count_eviction e c) s = qsum f c s" for f s by (simp add: qsum_def q l)
  then show "fifo_inv (count_eviction e c) = fifo_inv c"
    unfolding fifo_inv_def entries_ok_def sums_ok_def q l by (simp add: count_eviction_def)
  show "visible (count_eviction e c) = visible c" by (simp add: visible_def l fun_eq_iff)
qed (simp_all add: count_eviction_def ghost_full_def)

lemma queue_fields: "q_small c = queue fifoSmall c" "q_main c = queue fifoMain c" "q_ghost c = queue fifoGhost c"
  by (simp_all add: queue_def)

lemma ghost_full_cong:
  "capacity c' = capacity c \<Longrightarrow> entryLimit c' = entryLimit c \<Longrightarrow> ghostBytes c' = ghostBytes c \<Longrightarrow>
   ghostMetadata c' = ghostMetadata c \<Longrightarrow> q_ghost c' = q_ghost c \<Longrightarrow> ghost_full c' = ghost_full c"
  by (simp add: ghost_full_def)

lemma unlink_ghost_part:
  assumes "fe_segment e \<noteq> fifoGhost"
  shows "ghost_full (unlink e c) = ghost_full c"
  by (rule ghost_full_cong) (use assms in \<open>cases "fe_segment e"; simp add: unlink_def Let_def set_queue_def\<close>)+

lemma touch_visible:
  "lookup_entry c k = Some e \<Longrightarrow> visible (set_entry k (e\<lparr>fe_freq := n\<rparr>) c) = visible c"
  by (auto simp: visible_def fun_eq_iff)

lemma main_loop_ok:
  assumes "fifo_inv c" "q_main c \<noteq> []"
  shows "\<exists>c'. main_loop c = Some (c', True) \<and> fifo_inv c' \<and> frame c c' \<and> q_small c' = q_small c \<and>
    length (q_main c') + 1 = length (q_main c) \<and> ghost_full c' = ghost_full c"
  using assms
proof (induction "nat (qsum (\<lambda>e. int (fe_freq e)) c fifoMain)" arbitrary: c rule: less_induct)
  case less
  let ?f = "\<lambda>e. int (fe_freq e)"
  obtain k ks where k: "q_main c = k # ks" using less.prems(2) by (cases "q_main c") auto
  then have qk: "queue fifoMain c = k # ks" by (simp add: queue_def)
  obtain e where e: "front fifoMain c = Some e" "lookup_entry c k = Some e" "fe_segment e = fifoMain" "fe_key e = k"
    using front_Some [OF less.prems(1) qk] by blast
  show ?case
  proof (cases "fe_freq e > 0")
    case True
    let ?t = "set_entry k (e\<lparr>fe_freq := fe_freq e - 1\<rparr>) c"
    let ?c = "set_queue fifoMain (ks @ [k]) ?t"
    have t: "fifo_inv ?t" "q_main ?t = k # ks" using touch_ok [OF less.prems(1) e(2)] k by (simp_all add: set_entry_def)
    have ok: "fifo_inv ?c" by (rule rotate_ok [OF t])
    have en: "entries_ok c" using less.prems(1) by (simp add: fifo_inv_def)
    have "qsum ?f ?c fifoMain = qsum ?f c fifoMain + ?f (e\<lparr>fe_freq := fe_freq e - 1\<rparr>) - ?f e"
      using qsum_rotate [OF t(2), of ?f fifoMain] qsum_set_entry [OF en e(2), of ?f _ fifoMain] e(3) by simp
    then have "qsum ?f ?c fifoMain < qsum ?f c fifoMain" using True by simp
    moreover have "0 \<le> qsum ?f ?c fifoMain" unfolding qsum_def by (intro sum_list_nonneg) auto
    ultimately have dec: "nat (qsum ?f ?c fifoMain) < nat (qsum ?f c fifoMain)" by simp
    have ne: "q_main ?c \<noteq> []" by (simp add: set_queue_def)
    obtain c' where c': "main_loop ?c = Some (c', True)" "fifo_inv c'" "frame ?c c'" "q_small c' = q_small ?c"
      "length (q_main c') + 1 = length (q_main ?c)" "ghost_full c' = ghost_full ?c"
      using less.hyps [OF dec ok ne] by blast
    have r: "main_loop c = main_loop ?c" using k e True by (subst main_loop.simps) simp
    have v: "visible ?c = visible c"
      using touch_visible [OF e(2)] by (simp add: visible_def lookup_entry_def set_queue_def fun_eq_iff)
    have "lookup_entry ?c = lookup_entry ?t" by (simp add: lookup_entry_def set_queue_def)
    then have "dom (lookup_entry ?c) = dom (lookup_entry c)" using e(2) by auto
    then have fr: "frame c ?c" using v by (simp add: frame_def set_queue_def set_entry_def)
    have g: "ghost_full ?c = ghost_full c" by (simp add: ghost_full_def set_queue_def set_entry_def)
    have s: "q_small ?c = q_small c" "length (q_main ?c) = length (q_main c)" using k by (simp_all add: set_queue_def set_entry_def)
    show ?thesis
      by (rule exI [of _ c']) (use c' r g s frame_trans [OF fr c'(3)] in simp)
  next
    case False
    let ?c = "unlink e (count_eviction e c)"
    have i: "fifo_inv ?c" using unlink_ok [of "count_eviction e c" k e] less.prems(1) e(2) by simp
    have q: "queue s ?c = (if s = fifoMain then ks else queue s c)" for s using qk e by (simp add: queue_unlink)
    have f: "frame c ?c" using frame_unlink [of "count_eviction e c" k e] less.prems(1) e(2) by (simp add: frame_def)
    have "main_loop c = Some (?c, True)" using k e False by (subst main_loop.simps) simp
    moreover have "q_small ?c = q_small c" "length (q_main ?c) + 1 = length (q_main c)" using q k by (simp_all add: queue_fields qk)
    ultimately show ?thesis using i f e(3) by (simp add: unlink_ghost_part)
  qed
qed

lemma promotions_same [simp]:
  "queue s (c\<lparr>promotions := n\<rparr>) = queue s c" "lookup_entry (c\<lparr>promotions := n\<rparr>) = lookup_entry c"
  "fifo_inv (c\<lparr>promotions := n\<rparr>) = fifo_inv c" "visible (c\<lparr>promotions := n\<rparr>) = visible c"
  "ghost_full (c\<lparr>promotions := n\<rparr>) = ghost_full c" "bounds_pos (c\<lparr>promotions := n\<rparr>) = bounds_pos c"
proof -
  show q: "queue s (c\<lparr>promotions := n\<rparr>) = queue s c" for s by (cases s) (simp_all add: queue_def)
  show l: "lookup_entry (c\<lparr>promotions := n\<rparr>) = lookup_entry c" by (simp add: lookup_entry_def)
  have "qsum f (c\<lparr>promotions := n\<rparr>) s = qsum f c s" for f s by (simp add: qsum_def q l)
  then show "fifo_inv (c\<lparr>promotions := n\<rparr>) = fifo_inv c"
    unfolding fifo_inv_def entries_ok_def sums_ok_def q l by simp
  show "visible (c\<lparr>promotions := n\<rparr>) = visible c" by (simp add: visible_def l fun_eq_iff)
qed (simp_all add: ghost_full_def bounds_pos_def)

lemma frame_cong: "visible c' = visible c \<Longrightarrow> dom (lookup_entry c') \<subseteq> dom (lookup_entry c) \<Longrightarrow> capacity c' = capacity c \<Longrightarrow> entryLimit c' = entryLimit c \<Longrightarrow> frame c c'"
  by (simp add: frame_def)

lemma append_ghost_part: "s \<noteq> fifoGhost \<Longrightarrow> ghost_full (fifo_append e s c) = ghost_full c"
  by (rule ghost_full_cong) (cases s; simp add: fifo_append_def Let_def set_queue_def set_entry_def)+

lemma small_loop_ok:
  assumes "fifo_inv c" "bounds_pos c" "ghost_ok c"
  shows "\<exists>c'. small_loop c = Some c' \<and> fifo_inv c' \<and> ghost_ok c' \<and> frame c c' \<and> (q_small c \<noteq> [] \<longrightarrow> mu c' < mu c) \<and>
    (q_small c = [] \<longrightarrow> c' = c)"
  using assms
proof (induction "length (q_small c)" arbitrary: c)
  case 0
  then show ?case by (subst small_loop.simps) simp
next
  case (Suc n)
  obtain k ks where k: "q_small c = k # ks" using Suc.hyps(2) by (cases "q_small c") auto
  then have qk: "queue fifoSmall c = k # ks" by (simp add: queue_def)
  obtain e where e: "front fifoSmall c = Some e" "lookup_entry c k = Some e" "fe_segment e = fifoSmall" "fe_key e = k"
    using front_Some [OF Suc.prems(1) qk] by blast
  have ok: "entries_ok c" using Suc.prems(1) by (simp add: fifo_inv_def)
  note E = entries_okD [OF ok e(2)]
  let ?u = "unlink e c"
  have u: "fifo_inv ?u" "lookup_entry ?u k = None" using unlink_ok [OF Suc.prems(1) e(2)] e(4) by (auto simp: lookup_unlink)
  have qu: "queue s ?u = (if s = fifoSmall then ks else queue s c)" for s using qk e by (simp add: queue_unlink)
  show ?case
  proof (cases "fe_freq e \<ge> 2")
    case True
    let ?a = "fifo_append (e\<lparr>fe_freq := 0\<rparr>) fifoMain ?u"
    let ?c = "?a\<lparr>promotions := promotions c + 1\<rparr>"
    have a: "fifo_inv ?a" by (rule append_ok [OF u(1)]) (use u(2) e E in auto)
    have qa: "queue s ?a = (if s = fifoMain then queue fifoMain c @ [k] else if s = fifoSmall then ks else queue s c)" for s
      using qu e(4) by (simp add: queue_fifo_append)
    have v: "visible ?c = visible c" using e E by (auto simp: visible_def lookup_fifo_append lookup_unlink fun_eq_iff)
    have g: "ghost_ok ?c" using Suc.prems(3) e(3) by (simp add: ghost_ok_def append_ghost_part unlink_ghost_part)
    have l: "q_small ?c = ks" "q_main ?c = q_main c @ [k]" using qa by (simp_all add: queue_fields)
    have fr: "frame c ?c" by (rule frame_cong [OF v]) (use e in \<open>auto simp: lookup_fifo_append lookup_unlink\<close>)
    have n: "n = length (q_small ?c)" using l k Suc.hyps(2) by simp
    obtain c' where c': "small_loop ?c = Some c'" "fifo_inv c'" "ghost_ok c'" "frame ?c c'" "q_small ?c \<noteq> [] \<longrightarrow> mu c' < mu ?c"
      "q_small ?c = [] \<longrightarrow> c' = ?c"
      using Suc.hyps(1) [OF n _ _ g] a Suc.prems(2) by (auto simp: bounds_pos_def)
    have "small_loop c = Some c'" using c'(1) k e True by (subst small_loop.simps) simp
    moreover have "mu ?c < mu c" using l k by (simp add: mu_def)
    then have "mu c' < mu c" using c'(5,6) by (cases "q_small ?c = []") auto
    ultimately show ?thesis using c' k frame_trans [OF fr c'(4)] by auto
  next
    case False
    let ?a = "fifo_append (e\<lparr>fe_value := None, fe_freq := 0\<rparr>) fifoGhost (count_eviction e ?u)"
    have a: "fifo_inv ?a" by (rule append_ok) (use u e E in auto)
    have b: "bounds_pos ?a" using Suc.prems(2) by (simp add: bounds_pos_def)
    have qa: "queue s ?a = (if s = fifoGhost then queue fifoGhost c @ [k] else if s = fifoSmall then ks else queue s c)" for s
      using qu e(4) by (simp add: queue_fifo_append)
    have v: "visible ?a = (visible c)(k := None)" using e(4) by (auto simp: visible_def lookup_fifo_append lookup_unlink)
    then have fr: "frame c ?a" using e by (auto simp: frame_def map_le_del lookup_fifo_append lookup_unlink)
    obtain c' where c': "trimGhost ?a = Some c'" "fifo_inv c'" "ghost_ok c'" "frame ?a c'" "q_small c' = q_small ?a" "q_main c' = q_main ?a"
      using trimGhost_ok [OF a b] by blast
    have "small_loop c = Some c'" using c'(1) k e False by (subst small_loop.simps) simp
    moreover have "mu c' < mu c" using c'(5,6) qa k by (simp add: mu_def queue_fields qk)
    ultimately show ?thesis using c' k frame_trans [OF fr c'(4)] by auto
  qed
qed

lemma evict_ok:
  assumes "fifo_inv c" "bounds_pos c" "ghost_ok c"
  shows "\<exists>c'. evict c = Some c' \<and> fifo_inv c' \<and> ghost_ok c' \<and> frame c c' \<and> (mu c \<noteq> 0 \<longrightarrow> mu c' < mu c)"
proof (cases "(mainBytes c > capacity c * 9 div 10 \<or> q_small c = []) \<and> q_main c \<noteq> []")
  case True
  then obtain c' where c': "main_loop c = Some (c', True)" "fifo_inv c'" "frame c c'" "q_small c' = q_small c"
    "length (q_main c') + 1 = length (q_main c)" "ghost_full c' = ghost_full c"
    using main_loop_ok [OF assms(1)] by blast
  then have "evict c = Some c'" using True by (auto simp: evict_def)
  then show ?thesis using c' assms(3) by (auto simp: mu_def ghost_ok_def)
next
  case False
  have m: "main_loop c = Some (c, False)" if "q_main c = []" using that by (subst main_loop.simps) simp
  have "evict c = small_loop c" using False m by (auto simp: evict_def)
  then show ?thesis using small_loop_ok [OF assms] False
    by (cases "q_small c = []") (auto simp: mu_def)
qed

text \<open>\<open>keeps c c'\<close>: what an eviction loop leaves of the state.\<close>

definition cache_ok :: "s3FIFO \<Rightarrow> bool" where
  "cache_ok c \<longleftrightarrow> fifo_inv c \<and> bounds_pos c \<and> ghost_ok c"

lemma frame_bounds: "frame c c' \<Longrightarrow> bounds_pos c \<Longrightarrow> bounds_pos c'"
  by (simp add: frame_def bounds_pos_def)

lemma evict_cache_ok:
  assumes "cache_ok c"
  shows "\<exists>c'. evict c = Some c' \<and> cache_ok c' \<and> frame c c' \<and> (mu c \<noteq> 0 \<longrightarrow> mu c' < mu c)"
  using evict_ok [of c] assms frame_bounds unfolding cache_ok_def by blast

lemma empty_bytes: "fifo_inv c \<Longrightarrow> mu c = 0 \<Longrightarrow> smallBytes c = 0 \<and> mainBytes c = 0"
  by (simp add: fifo_inv_def sums_ok_def qsum_def mu_def queue_def)

lemma shrink_loop_ok:
  assumes "cache_ok c"
  shows "\<exists>c'. shrink_loop c = Some c' \<and> cache_ok c' \<and> frame c c' \<and> smallBytes c' + mainBytes c' \<le> capacity c' \<and> mu c' \<le> mu c"
  using assms
proof (induction "mu c" arbitrary: c rule: less_induct)
  case less
  show ?case
  proof (cases "smallBytes c + mainBytes c > capacity c")
    case False
    then show ?thesis using less.prems by (subst shrink_loop.simps) simp
  next
    case True
    have "mu c \<noteq> 0"
    proof
      assume "mu c = 0"
      then show False using empty_bytes [of c] less.prems True by (auto simp: cache_ok_def bounds_pos_def)
    qed
    then obtain c1 where c1: "evict c = Some c1" "cache_ok c1" "frame c c1" "mu c1 < mu c"
      using evict_cache_ok [OF less.prems] by blast
    obtain c' where c': "shrink_loop c1 = Some c'" "cache_ok c'" "frame c1 c'" "smallBytes c' + mainBytes c' \<le> capacity c'" "mu c' \<le> mu c1"
      using less.hyps [OF c1(4,2)] by blast
    have "shrink_loop c = Some c'" using True c1(1) c'(1) by (subst shrink_loop.simps) simp
    then show ?thesis using c' c1(4) frame_trans [OF c1(3) c'(3)] by auto
  qed
qed

definition resident :: "s3FIFO \<Rightarrow> int" where "resident c = int (length (q_small c) + length (q_main c))"

lemma room_loop_ok:
  assumes "cache_ok c" "charge \<le> capacity c"
  shows "\<exists>c'. room_loop charge c = Some c' \<and> cache_ok c' \<and> frame c c' \<and>
    smallBytes c' + mainBytes c' + charge \<le> capacity c' \<and> resident c' < entryLimit c'"
  using assms
proof (induction "mu c" arbitrary: c rule: less_induct)
  case less
  show ?case
  proof (cases "smallBytes c + mainBytes c + charge > capacity c \<or> int (length (q_small c) + length (q_main c)) \<ge> entryLimit c")
    case False
    then show ?thesis using less.prems by (subst room_loop.simps) (auto simp: resident_def)
  next
    case True
    have "mu c \<noteq> 0"
    proof
      assume "mu c = 0"
      then show False using empty_bytes [of c] less.prems True by (auto simp: cache_ok_def bounds_pos_def mu_def)
    qed
    then obtain c1 where c1: "evict c = Some c1" "cache_ok c1" "frame c c1" "mu c1 < mu c"
      using evict_cache_ok [OF less.prems(1)] by blast
    have "charge \<le> capacity c1" using less.prems(2) c1(3) by (simp add: frame_def)
    then obtain c' where c': "room_loop charge c1 = Some c'" "cache_ok c'" "frame c1 c'"
      "smallBytes c' + mainBytes c' + charge \<le> capacity c'" "resident c' < entryLimit c'"
      using less.hyps [OF c1(4,2)] by blast
    have "room_loop charge c = Some c'" using True c1(1) c'(1) by (subst room_loop.simps) simp
    then show ?thesis using c' frame_trans [OF c1(3) c'(3)] by auto
  qed
qed

section \<open>The operations keep the invariant\<close>

lemma dom_visible:
  assumes "fifo_inv c"
  shows "dom (visible c) = set (q_small c) \<union> set (q_main c)"
proof -
  have ok: "entries_ok c" using assms by (simp add: fifo_inv_def)
  have "k \<in> dom (visible c) \<longleftrightarrow> (\<exists>e. lookup_entry c k = Some e \<and> (fe_segment e = fifoSmall \<or> fe_segment e = fifoMain))" for k
  proof (cases "lookup_entry c k")
    case (Some e)
    then show ?thesis using entries_okD(3) [OF ok Some] by (cases "fe_segment e") (auto simp: visible_def dom_def)
  qed (simp add: visible_def dom_def)
  moreover have "k \<in> set (queue s c) \<longleftrightarrow> (\<exists>e. lookup_entry c k = Some e \<and> fe_segment e = s)" for s k
    using ok unfolding entries_ok_def by blast
  ultimately show ?thesis unfolding queue_fields by blast
qed

lemma resident_card:
  assumes "fifo_inv c"
  shows "resident c = int (card (dom (visible c)))"
proof -
  have ok: "entries_ok c" using assms by (simp add: fifo_inv_def)
  then have "distinct (q_small c)" "distinct (q_main c)" unfolding entries_ok_def queue_fields by blast+
  moreover have "set (q_small c) \<inter> set (q_main c) = {}" using ok unfolding entries_ok_def queue_fields by fastforce
  ultimately show ?thesis unfolding dom_visible [OF assms] resident_def
    by (simp add: card_Un_disjoint distinct_card)
qed

lemma resident_mono:
  assumes "fifo_inv c" "fifo_inv c'" "visible c' \<subseteq>\<^sub>m visible c"
  shows "resident c' \<le> resident c"
proof -
  have "dom (visible c') \<subseteq> dom (visible c)" using assms(3) by (rule map_le_implies_dom_le)
  moreover have "finite (dom (visible c))" by (simp add: dom_visible [OF assms(1)])
  ultimately show ?thesis using assms by (simp add: resident_card card_mono)
qed

definition fifo_ok :: "s3FIFO \<Rightarrow> bool" where
  "fifo_ok c \<longleftrightarrow> cache_ok c \<and> smallBytes c + mainBytes c \<le> capacity c \<and> resident c \<le> entryLimit c"

lemma fifo_ok_new: "0 < cap \<Longrightarrow> fifo_ok (newS3FIFO cap)"
proof -
  assume "0 < cap"
  moreover have "queue s (newS3FIFO cap) = []" for s by (cases s) (simp_all add: queue_def newS3FIFO_def)
  ultimately show ?thesis
    by (simp add: fifo_ok_def cache_ok_def fifo_inv_def entries_ok_def sums_ok_def lookup_entry_def qsum_def
        bounds_pos_def ghost_ok_def ghost_full_def resident_def) (simp add: newS3FIFO_def)
qed

lemma new_visible [simp]: "visible (newS3FIFO cap) = Map.empty"
  by (simp add: visible_def lookup_entry_def newS3FIFO_def fun_eq_iff)

lemma replace_entry_ok:
  assumes ok: "cache_ok c" and e: "lookup_entry c k = Some e" "fe_segment e \<noteq> fifoGhost" and w: "0 < re_weight v"
  shows "cache_ok (replace_entry k e v c)" "visible (replace_entry k e v c) = (visible c)(k \<mapsto> v)"
    "capacity (replace_entry k e v c) = capacity c" "entryLimit (replace_entry k e v c) = entryLimit c"
    "resident (replace_entry k e v c) = resident c"
proof -
  let ?e = "e\<lparr>fe_value := Some v, fe_charge := int (re_weight v), fe_freq := min 3 (fe_freq e + 1)\<rparr>"
  let ?c = "replace_entry k e v c"
  have inv: "fifo_inv c" and en: "entries_ok c" and su: "sums_ok c" using ok by (auto simp: cache_ok_def fifo_inv_def)
  note E = entries_okD [OF en e(1)]
  have q: "queue s ?c = queue s c" for s by (cases s) (simp_all add: queue_def replace_entry_def set_entry_def Let_def)
  have en': "entries ?c = AList.update k ?e (entries c)" by (simp add: replace_entry_def set_entry_def Let_def)
  then have l: "lookup_entry ?c = (lookup_entry c)(k \<mapsto> ?e)" by (simp add: lookup_entry_def AList.update_conv')
  have ds: "distinct (map fst (entries ?c))" using en en' by (simp add: entries_ok_def AList.distinct_update)
  have 1: "entries_ok ?c" using en E e w ds unfolding entries_ok_def q l by auto
  have "qsum f ?c s = qsum f (set_entry k ?e c) s" for f s
  proof -
    have "queue s (set_entry k ?e c) = queue s c" by (cases s) (simp_all add: queue_def set_entry_def)
    then show ?thesis unfolding qsum_def q l lookup_set_entry by simp
  qed
  then have qs: "qsum f ?c s = qsum f c s + (if s = fe_segment e then f ?e - f e else 0)" for f s
    using qsum_set_entry [OF en e(1), of f ?e s] by simp
  have 2: "sums_ok ?c"
    using su e(2) unfolding sums_ok_def qs
    by (cases "fe_segment e") (auto simp: replace_entry_def set_entry_def Let_def data_len_def ghost_cost_def)
  show v: "visible ?c = (visible c)(k \<mapsto> v)" using e(2) by (auto simp: visible_def l fun_eq_iff)
  show c: "capacity ?c = capacity c" "entryLimit ?c = entryLimit c" by (simp_all add: replace_entry_def set_entry_def Let_def)
  show "resident ?c = resident c" unfolding resident_def queue_fields q ..
  have "ghost_full ?c = ghost_full c" by (rule ghost_full_cong) (simp_all add: replace_entry_def set_entry_def Let_def)
  then show "cache_ok ?c" using 1 2 ok c by (simp add: cache_ok_def fifo_inv_def bounds_pos_def ghost_ok_def)
qed

end
