(* ===== verification/Ram_Cache.thy ===== *)
theory Ram_Cache
  imports Ram_Fifo
begin

text \<open>
  The RAM cache (\<^verbatim>\<open>cache/ram_cache.go\<close>) over one of two policies: the S3-FIFO of \<open>Ram_Fifo\<close>, or the
  third-party \<^verbatim>\<open>otter\<close> cache, whose operations are a parameter (\<open>otter_ops\<close>). The section on the policy
  shows that every operation keeps \<open>fifo_ok\<close> and returns; \<open>ram_map\<close> is the RAM cache as a \<open>forgetful_map\<close>.
\<close>

text \<open>A change of the counters only.\<close>

definition same_core :: "s3FIFO \<Rightarrow> s3FIFO \<Rightarrow> bool" where
  "same_core c c' \<longleftrightarrow> c' = c\<lparr>st_Hits := st_Hits c', st_Misses := st_Misses c', st_Evictions := st_Evictions c',
     st_EvictionWeight := st_EvictionWeight c', promotions := promotions c', ghostHits := ghostHits c'\<rparr>"

lemma same_coreD:
  assumes "same_core c c'"
  shows "lookup_entry c' = lookup_entry c" "queue s c' = queue s c" "visible c' = visible c" "fifo_inv c' = fifo_inv c"
    "cache_ok c' = cache_ok c" "fifo_ok c' = fifo_ok c" "capacity c' = capacity c"
proof -
  note d = assms [unfolded same_core_def]
  have f: "capacity c' = capacity c"
    "entryLimit c' = entryLimit c"
    "entries c' = entries c"
    "q_small c' = q_small c"
    "q_main c' = q_main c"
    "q_ghost c' = q_ghost c"
    "smallBytes c' = smallBytes c"
    "mainBytes c' = mainBytes c"
    "payloadBytes c' = payloadBytes c"
    "ghostBytes c' = ghostBytes c"
    "ghostMetadata c' = ghostMetadata c"
    using arg_cong [OF d, of capacity] arg_cong [OF d, of entryLimit] arg_cong [OF d, of entries] arg_cong [OF d, of q_small] arg_cong [OF d, of q_main] arg_cong [OF d, of q_ghost] arg_cong [OF d, of smallBytes] arg_cong [OF d, of mainBytes] arg_cong [OF d, of payloadBytes] arg_cong [OF d, of ghostBytes] arg_cong [OF d, of ghostMetadata] by simp_all
  show l: "lookup_entry c' = lookup_entry c" by (simp add: lookup_entry_def f)
  show q: "queue s c' = queue s c" for s by (cases s) (simp_all add: queue_def f)
  show "visible c' = visible c" by (simp add: visible_def l fun_eq_iff)
  have qs: "qsum g c' s = qsum g c s" for g s by (simp add: qsum_def q l)
  show i: "fifo_inv c' = fifo_inv c" unfolding fifo_inv_def entries_ok_def sums_ok_def q l qs f ..
  show co: "cache_ok c' = cache_ok c" unfolding cache_ok_def i bounds_pos_def ghost_ok_def ghost_full_def f ..
  show "fifo_ok c' = fifo_ok c" unfolding fifo_ok_def co resident_def f ..
  show "capacity c' = capacity c" by (rule f)
qed

lemma unlink_ghost_ok:
  assumes "0 < fe_charge e" "ghost_ok c"
  shows "ghost_ok (unlink e c)"
proof (cases "fe_segment e = fifoGhost")
  case True
  have "length (remove1 (fe_key e) (q_ghost c)) \<le> length (q_ghost c)" by (simp add: length_remove1)
  moreover have "0 \<le> ghost_cost e" by (simp add: ghost_cost_def)
  ultimately show ?thesis
    using True assms by (simp add: ghost_ok_def ghost_full_def unlink_def Let_def set_queue_def queue_def) linarith
next
  case False
  then show ?thesis using assms(2) by (simp add: ghost_ok_def unlink_ghost_part)
qed

lemma map_le_upd_absent: "m' \<subseteq>\<^sub>m m \<Longrightarrow> m'(k \<mapsto> v) \<subseteq>\<^sub>m m(k \<mapsto> v)"
  by (auto simp: map_le_def)

lemma insert_entry_ok:
  assumes ok: "cache_ok c" and n: "lookup_entry c k = None" and w: "0 < re_weight v" "int (re_weight v) \<le> capacity c" and s: "s \<noteq> fifoGhost"
  shows "\<exists>c'. insert_entry k v s c = Some c' \<and> fifo_ok c' \<and> capacity c' = capacity c \<and> entryLimit c' = entryLimit c \<and>
    visible c' \<subseteq>\<^sub>m (visible c)(k \<mapsto> v) \<and> visible c' k = Some v"
proof -
  obtain c1 where c1: "room_loop (int (re_weight v)) c = Some c1" "cache_ok c1" "frame c c1"
    "smallBytes c1 + mainBytes c1 + int (re_weight v) \<le> capacity c1" "resident c1 < entryLimit c1"
    using room_loop_ok [OF ok w(2)] by blast
  let ?e = "\<lparr>fe_key = k, fe_value = Some v, fe_charge = int (re_weight v), fe_freq = 0, fe_segment = s\<rparr>"
  let ?c = "fifo_append ?e s c1"
  have inv1: "fifo_inv c1" using c1(2) by (simp add: cache_ok_def)
  have n1: "lookup_entry c1 k = None" using c1(3) n by (auto simp: frame_def)
  have inv: "fifo_inv ?c" by (rule append_ok [OF inv1]) (use n1 w(1) s in auto)
  have cap: "capacity ?c = capacity c" "entryLimit ?c = entryLimit c1" "entryLimit c1 = entryLimit c" using c1(3) by (simp_all add: frame_def)
  have v: "visible ?c = (visible c1)(k \<mapsto> v)" using s by (auto simp: visible_def lookup_fifo_append)
  have g: "ghost_full ?c = ghost_full c1" by (rule append_ghost_part [OF s])
  have "length (queue fifoSmall ?c) + length (queue fifoMain ?c) = Suc (length (queue fifoSmall c1) + length (queue fifoMain c1))"
    using s by (cases s) (simp_all add: queue_fifo_append)
  then have r: "resident ?c \<le> entryLimit ?c" using c1(5) by (simp add: resident_def queue_fields)
  have "smallBytes ?c + mainBytes ?c = smallBytes c1 + mainBytes c1 + int (re_weight v)"
    using s by (cases s) (simp_all add: fifo_append_def Let_def set_queue_def set_entry_def)
  then have "fifo_ok ?c" using inv c1(2,4) g r by (simp add: fifo_ok_def cache_ok_def bounds_pos_def ghost_ok_def)
  moreover have "visible ?c \<subseteq>\<^sub>m (visible c)(k \<mapsto> v)" unfolding v using c1(3) by (intro map_le_upd_absent) (simp add: frame_def)
  ultimately show ?thesis using c1(1) cap v by (simp add: insert_entry_def)
qed

lemma fifo_put_ok:
  assumes ok: "fifo_ok c" and w: "0 < re_weight v" "int (re_weight v) \<le> capacity c"
  shows "\<exists>c'. fifo_put k v c = Some c' \<and> fifo_ok c' \<and> capacity c' = capacity c \<and> entryLimit c' = entryLimit c \<and> visible c' \<subseteq>\<^sub>m (visible c)(k \<mapsto> v) \<and>
    (visible c k = None \<longrightarrow> visible c' k = Some v)"
proof (cases "lookup_entry c k")
  case None
  then have "visible c k = None" by (simp add: visible_def)
  then show ?thesis
    using insert_entry_ok [OF _ None w, of fifoSmall] ok None by (auto simp: fifo_put_def fifo_ok_def)
next
  case (Some e)
  have co: "cache_ok c" using ok by (simp add: fifo_ok_def)
  show ?thesis
  proof (cases "fe_segment e = fifoGhost")
    case True
    let ?c0 = "c\<lparr>ghostHits := ghostHits c + 1\<rparr>"
    have sc: "same_core c ?c0" by (simp add: same_core_def)
    have i0: "fifo_inv ?c0" using co same_coreD(4) [OF sc] by (simp add: cache_ok_def)
    have so: "lookup_entry ?c0 k = Some e" using Some same_coreD(1) [OF sc] by simp
    let ?u = "unlink e ?c0"
    have u: "fifo_inv ?u" by (rule unlink_ok [OF i0 so])
    have ek: "fe_key e = k" using entries_okD(1) [of c k e] co Some by (simp add: cache_ok_def fifo_inv_def)
    have "visible ?u = (visible c)(k := None)" using visible_unlink [OF i0 so] same_coreD(3) [OF sc] by simp
    then have vu: "visible ?u = visible c" using Some True by (auto simp: visible_def)
    have gu: "ghost_ok ?u"
      using unlink_ghost_ok [of e ?c0] co entries_okD(2) [of c k e] Some
      by (simp add: cache_ok_def fifo_inv_def ghost_ok_def ghost_full_def)
    have cu: "cache_ok ?u" using u gu co by (simp add: cache_ok_def bounds_pos_def)
    have nu: "lookup_entry ?u k = None" using ek by (simp add: lookup_unlink)
    show ?thesis
      using insert_entry_ok [OF cu nu w(1), of fifoMain] w(2) Some True vu by (auto simp: fifo_put_def)
  next
    case False
    let ?r = "replace_entry k e v c"
    note R = replace_entry_ok [OF co Some False w(1)]
    obtain c' where c': "shrink_loop ?r = Some c'" "cache_ok c'" "frame ?r c'" "smallBytes c' + mainBytes c' \<le> capacity c'"
      using shrink_loop_ok [OF R(1)] by blast
    have "resident c' \<le> resident ?r"
      using resident_mono [of ?r c'] R(1) c'(2,3) by (simp add: cache_ok_def frame_def)
    then have "fifo_ok c'" using c' R(3-5) ok by (simp add: fifo_ok_def frame_def)
    moreover have "visible c k \<noteq> None"
      using Some False entries_okD(3) [of c k e] co by (simp add: visible_def cache_ok_def fifo_inv_def)
    ultimately show ?thesis using c' R(2-4) Some False by (auto simp: fifo_put_def frame_def)
  qed
qed

lemma fifo_delete_ok:
  assumes ok: "fifo_ok c"
  shows "fifo_ok (fifo_delete k c)" "visible (fifo_delete k c) = (visible c)(k := None)" "capacity (fifo_delete k c) = capacity c"
    "entryLimit (fifo_delete k c) = entryLimit c"
proof -
  have inv: "fifo_inv c" using ok by (simp add: fifo_ok_def cache_ok_def)
  have "fifo_ok (fifo_delete k c) \<and> visible (fifo_delete k c) = (visible c)(k := None) \<and> capacity (fifo_delete k c) = capacity c"
  proof (cases "lookup_entry c k")
    case None
    then have "visible c k = None" by (simp add: visible_def)
    then show ?thesis using ok None by (auto simp: fifo_delete_def)
  next
    case (Some e)
    have en: "entries_ok c" using inv by (simp add: fifo_inv_def)
    note E = entries_okD [OF en Some]
    have i: "fifo_inv (unlink e c)" by (rule unlink_ok [OF inv Some])
    have v: "visible (unlink e c) = (visible c)(k := None)" by (rule visible_unlink [OF inv Some])
    have "resident (unlink e c) \<le> resident c" by (rule resident_mono [OF inv i]) (simp add: v map_le_del)
    moreover have "smallBytes (unlink e c) + mainBytes (unlink e c) \<le> smallBytes c + mainBytes c"
      using E(2) by (cases "fe_segment e") (simp_all add: unlink_def Let_def set_queue_def)
    moreover have "ghost_ok (unlink e c)" using unlink_ghost_ok [OF E(2)] ok by (simp add: fifo_ok_def cache_ok_def)
    ultimately have "fifo_ok (unlink e c)" using ok i by (simp add: fifo_ok_def cache_ok_def bounds_pos_def)
    then show ?thesis using Some v by (simp add: fifo_delete_def)
  qed
  then show "fifo_ok (fifo_delete k c)" "visible (fifo_delete k c) = (visible c)(k := None)" "capacity (fifo_delete k c) = capacity c"
    by auto
  show "entryLimit (fifo_delete k c) = entryLimit c" by (simp add: fifo_delete_def split: option.splits)
qed

lemma fifo_get_ok:
  assumes ok: "fifo_ok c"
  shows "snd (fifo_get k c) = visible c k" "fifo_ok (fst (fifo_get k c))" "visible (fst (fifo_get k c)) = visible c"
proof -
  have inv: "fifo_inv c" using ok by (simp add: fifo_ok_def cache_ok_def)
  have "snd (fifo_get k c) = visible c k \<and> fifo_ok (fst (fifo_get k c)) \<and> visible (fst (fifo_get k c)) = visible c"
  proof (cases "\<exists>e. lookup_entry c k = Some e \<and> fe_segment e \<noteq> fifoGhost")
    case True
    then obtain e where e: "lookup_entry c k = Some e" "fe_segment e \<noteq> fifoGhost" by blast
    let ?t = "set_entry k (e\<lparr>fe_freq := min 3 (fe_freq e + 1)\<rparr>) c"
    have r: "fifo_get k c = (?t\<lparr>st_Hits := st_Hits c + 1\<rparr>, fe_value e)" using e by (simp add: fifo_get_def)
    have sc: "same_core ?t (?t\<lparr>st_Hits := st_Hits c + 1\<rparr>)" by (simp add: same_core_def)
    have "fifo_inv ?t" by (rule touch_ok [OF inv e(1)])
    then have "fifo_ok ?t" using ok by (simp add: fifo_ok_def cache_ok_def bounds_pos_def ghost_ok_def ghost_full_def resident_def set_entry_def)
    then show ?thesis using r same_coreD(3,6) [OF sc] touch_visible [OF e(1)] e by (simp add: visible_def)
  next
    case False
    then have r: "fifo_get k c = (c\<lparr>st_Misses := st_Misses c + 1\<rparr>, None)" by (auto simp: fifo_get_def split: option.splits)
    have sc: "same_core c (c\<lparr>st_Misses := st_Misses c + 1\<rparr>)" by (simp add: same_core_def)
    show ?thesis using r same_coreD(3,6) [OF sc] ok False by (auto simp: visible_def split: option.splits)
  qed
  then show "snd (fifo_get k c) = visible c k" "fifo_ok (fst (fifo_get k c))" "visible (fst (fifo_get k c)) = visible c" by auto
qed

section \<open>RamCache\<close>

definition maxRAMKeyBytes :: nat where "maxRAMKeyBytes = 65536"

record 'o otter_ops =
  o_Must :: "int \<Rightarrow> 'o"
  o_GetIfPresent :: "bytes \<Rightarrow> 'o \<Rightarrow> 'o \<times> ramEntry option"
  o_Set :: "bytes \<Rightarrow> ramEntry \<Rightarrow> 'o \<Rightarrow> 'o"
  o_Invalidate :: "bytes \<Rightarrow> 'o \<Rightarrow> 'o"
  o_EstimatedSize :: "'o \<Rightarrow> int"
  o_WeightedSize :: "'o \<Rightarrow> int"
  o_CleanUp :: "'o \<Rightarrow> 'o"
  o_All :: "'o \<Rightarrow> (bytes \<times> ramEntry) list"
  o_Stats :: "'o \<Rightarrow> nat \<times> nat \<times> nat \<times> int"

record 'o RamCache =
  rc_otter :: "'o option"
  rc_fifo :: "s3FIFO option"
  rc_capacity :: int
  rc_algorithm :: string

definition NewRamCacheWithAlgorithm :: "'o otter_ops \<Rightarrow> int \<Rightarrow> string \<Rightarrow> 'o RamCache result" where
  "NewRamCacheWithAlgorithm ops cap alg =
     (if alg \<noteq> ''otter'' \<and> alg \<noteq> ''s3-fifo'' then Inl (Err ''unknown RAM cache algorithm'')
      else if cap > 2 ^ 40 then Inl (Err ''RAM cache capacity exceeds 1 TiB'')
      else let r = \<lparr>rc_otter = None, rc_fifo = None, rc_capacity = cap, rc_algorithm = alg\<rparr>
           in if cap = 0 then Inr r
              else if alg = ''s3-fifo'' then Inr (r\<lparr>rc_fifo := Some (newS3FIFO cap)\<rparr>)
              else Inr (r\<lparr>rc_otter := Some (o_Must ops cap)\<rparr>))"

definition NewRamCache :: "'o otter_ops \<Rightarrow> int \<Rightarrow> 'o RamCache option" where
  "NewRamCache ops cap = (case NewRamCacheWithAlgorithm ops cap ''otter'' of Inl _ \<Rightarrow> None | Inr r \<Rightarrow> Some r)"

definition rc_getEntry :: "'o otter_ops \<Rightarrow> bytes \<Rightarrow> 'o RamCache \<Rightarrow> 'o RamCache \<times> ramEntry option" where
  "rc_getEntry ops key r =
     (case rc_fifo r of
        Some c \<Rightarrow> (let (c, e) = fifo_get key c in (r\<lparr>rc_fifo := Some c\<rparr>, e))
      | None \<Rightarrow> (case rc_otter r of
          None \<Rightarrow> (r, None)
        | Some o' \<Rightarrow> (let (o', e) = o_GetIfPresent ops key o' in (r\<lparr>rc_otter := Some o'\<rparr>, e))))"

definition rc_Get :: "'o otter_ops \<Rightarrow> bytes \<Rightarrow> 'o RamCache \<Rightarrow> 'o RamCache \<times> bytes option" where
  "rc_Get ops key r = (let (r, e) = rc_getEntry ops key r in (r, map_option re_data e))"

definition rc_Delete :: "'o otter_ops \<Rightarrow> bytes \<Rightarrow> 'o RamCache \<Rightarrow> 'o RamCache" where
  "rc_Delete ops key r =
     (case rc_fifo r of
        Some c \<Rightarrow> r\<lparr>rc_fifo := Some (fifo_delete key c)\<rparr>
      | None \<Rightarrow> (case rc_otter r of None \<Rightarrow> r | Some o' \<Rightarrow> r\<lparr>rc_otter := Some (o_Invalidate ops key o')\<rparr>))"

definition rc_Put :: "'o otter_ops \<Rightarrow> bytes \<Rightarrow> bytes \<Rightarrow> 'o RamCache \<Rightarrow> 'o RamCache option" where
  "rc_Put ops key value r =
     (if rc_capacity r = 0 \<or> int (length value) > rc_capacity r \<or> length value > 2 ^ 32 - 1 \<or> length key > maxRAMKeyBytes
      then Some (rc_Delete ops key r)
      else let entry = newRAMEntry value in
        if int (re_weight entry) > rc_capacity r then Some (rc_Delete ops key r)
        else case rc_fifo r of
          Some c \<Rightarrow> map_option (\<lambda>c. r\<lparr>rc_fifo := Some c\<rparr>) (fifo_put key entry c)
        | None \<Rightarrow> (case rc_otter r of None \<Rightarrow> None | Some o' \<Rightarrow> Some (r\<lparr>rc_otter := Some (o_Set ops key entry o')\<rparr>)))"

definition rc_Items :: "'o otter_ops \<Rightarrow> 'o RamCache \<Rightarrow> int" where
  "rc_Items ops r =
     (case rc_fifo r of
        Some c \<Rightarrow> int (length (q_small c) + length (q_main c))
      | None \<Rightarrow> (case rc_otter r of None \<Rightarrow> 0 | Some o' \<Rightarrow> o_EstimatedSize ops o'))"

definition rc_Size :: "'o otter_ops \<Rightarrow> 'o RamCache \<Rightarrow> int" where
  "rc_Size ops r =
     (case rc_fifo r of
        Some c \<Rightarrow> smallBytes c + mainBytes c
      | None \<Rightarrow> (case rc_otter r of None \<Rightarrow> 0 | Some o' \<Rightarrow> o_WeightedSize ops o'))"

definition rc_CleanUp :: "'o otter_ops \<Rightarrow> 'o RamCache \<Rightarrow> 'o RamCache" where
  "rc_CleanUp ops r = (case rc_otter r of None \<Rightarrow> r | Some o' \<Rightarrow> r\<lparr>rc_otter := Some (o_CleanUp ops o')\<rparr>)"

definition otter_decoded :: "ramEntry \<Rightarrow> int" where
  "otter_decoded v = int (re_weight v) - max 1 (int (length (re_data v)))"

definition rc_Stats :: "'o otter_ops \<Rightarrow> 'o RamCache \<Rightarrow> RAMStats" where
  "rc_Stats ops r =
     (let st = \<lparr>rs_Hits = 0, rs_Misses = 0, rs_Evictions = 0, rs_EvictionWeight = 0, rs_Algorithm = rc_algorithm r,
                rs_CapacityBytes = rc_capacity r, rs_ResidentBytes = 0, rs_ChargedBytes = 0, rs_ResidentEntries = 0,
                rs_GhostEntries = 0, rs_SmallEntries = 0, rs_MainEntries = 0, rs_GhostBytes = 0, rs_EstimatedMetadataBytes = 0,
                rs_DecodedMetadataBytes = 0, rs_Promotions = 0, rs_GhostHits = 0\<rparr>
      in case rc_fifo r of
           Some c \<Rightarrow> (fifo_snapshot c)\<lparr>rs_Algorithm := rc_algorithm r, rs_CapacityBytes := rc_capacity r\<rparr>
         | None \<Rightarrow> (case rc_otter r of
             None \<Rightarrow> st
           | Some o' \<Rightarrow>
               let (h, m, e, w) = o_Stats ops o'; all = o_All ops o'
               in st\<lparr>rs_Hits := h, rs_Misses := m, rs_Evictions := e, rs_EvictionWeight := w,
                     rs_ChargedBytes := o_WeightedSize ops o', rs_ResidentEntries := length all,
                     rs_ResidentBytes := sum_list (map (\<lambda>(_, v). int (length (re_data v))) all),
                     rs_DecodedMetadataBytes := sum_list (map (\<lambda>(_, v). otter_decoded v) all),
                     rs_EstimatedMetadataBytes := sum_list (map (\<lambda>(k, v). 128 + int (length k) + otter_decoded v) all)\<rparr>))"

section \<open>The RAM cache as a map\<close>

definition rc_inv :: "'o RamCache \<Rightarrow> bool" where
  "rc_inv r \<longleftrightarrow> (\<exists>c. rc_fifo r = Some c \<and> fifo_ok c \<and> capacity c = rc_capacity r \<and> entryLimit c = min (rc_capacity r) 65536)"

definition rc_view :: "'o RamCache \<Rightarrow> bytes \<rightharpoonup> bytes" where
  "rc_view r k = (case rc_fifo r of None \<Rightarrow> None | Some c \<Rightarrow> map_option re_data (visible c k))"

lemma rc_Delete_ok:
  assumes "rc_inv r"
  shows "rc_inv (rc_Delete ops k r)" "rc_view (rc_Delete ops k r) = (rc_view r)(k := None)"
proof -
  obtain c where c: "rc_fifo r = Some c" "fifo_ok c" "capacity c = rc_capacity r" "entryLimit c = min (rc_capacity r) 65536"
    using assms by (auto simp: rc_inv_def)
  show "rc_inv (rc_Delete ops k r)" using c fifo_delete_ok(1,3,4) [OF c(2)] by (simp add: rc_inv_def rc_Delete_def)
  show "rc_view (rc_Delete ops k r) = (rc_view r)(k := None)"
    using c fifo_delete_ok(2) [OF c(2)] by (auto simp: rc_view_def rc_Delete_def)
qed

lemma rc_Put_ok:
  assumes "rc_inv r"
  shows "\<exists>r'. rc_Put ops k v r = Some r' \<and> rc_inv r' \<and> rc_view r' \<subseteq>\<^sub>m (rc_view r)(k \<mapsto> v)"
proof -
  obtain c where c: "rc_fifo r = Some c" "fifo_ok c" "capacity c = rc_capacity r" "entryLimit c = min (rc_capacity r) 65536"
    using assms by (auto simp: rc_inv_def)
  have del: "rc_inv (rc_Delete ops k r) \<and> rc_view (rc_Delete ops k r) \<subseteq>\<^sub>m (rc_view r)(k \<mapsto> v)"
    using rc_Delete_ok [OF assms] by (auto simp: map_le_def)
  let ?e = "newRAMEntry v"
  show ?thesis
  proof (cases "rc_capacity r = 0 \<or> int (length v) > rc_capacity r \<or> length v > 2 ^ 32 - 1 \<or> length k > maxRAMKeyBytes \<or>
      int (re_weight ?e) > rc_capacity r")
    case True
    then have "rc_Put ops k v r = Some (rc_Delete ops k r)" by (auto simp: rc_Put_def Let_def)
    then show ?thesis using del by blast
  next
    case False
    have w: "0 < re_weight ?e" using newRAMEntry_weight(1) [of v] False by simp
    have "int (re_weight ?e) \<le> capacity c" using False c(3) by simp
    then obtain c' where c': "fifo_put k ?e c = Some c'" "fifo_ok c'" "capacity c' = capacity c" "visible c' \<subseteq>\<^sub>m (visible c)(k \<mapsto> ?e)"
      "entryLimit c' = entryLimit c"
      using fifo_put_ok [OF c(2) w] by blast
    have "rc_Put ops k v r = Some (r\<lparr>rc_fifo := Some c'\<rparr>)" using False c(1) c'(1) by (auto simp: rc_Put_def Let_def)
    moreover have "rc_view (r\<lparr>rc_fifo := Some c'\<rparr>) \<subseteq>\<^sub>m (rc_view r)(k \<mapsto> v)"
      using c'(4) c(1) unfolding map_le_def rc_view_def by (auto simp: dom_def split: if_splits)
    ultimately show ?thesis using c c' by (auto simp: rc_inv_def)
  qed
qed

lemma rc_Get_ok:
  assumes "rc_inv r"
  shows "snd (rc_Get ops k r) = rc_view r k" "rc_inv (fst (rc_Get ops k r))" "rc_view (fst (rc_Get ops k r)) = rc_view r"
proof -
  obtain c where c: "rc_fifo r = Some c" "fifo_ok c" "capacity c = rc_capacity r" "entryLimit c = min (rc_capacity r) 65536"
    using assms by (auto simp: rc_inv_def)
  obtain c' e where g: "fifo_get k c = (c', e)" by force
  have cap: "capacity c' = capacity c" "entryLimit c' = entryLimit c" using g by (auto simp: fifo_get_def set_entry_def split: option.splits if_splits)
  have f: "e = visible c k" "fifo_ok c'" "visible c' = visible c" using fifo_get_ok [OF c(2), of k] g by auto
  have r: "rc_Get ops k r = (r\<lparr>rc_fifo := Some c'\<rparr>, map_option re_data e)" using c(1) g by (simp add: rc_Get_def rc_getEntry_def)
  show "snd (rc_Get ops k r) = rc_view r k" "rc_inv (fst (rc_Get ops k r))" "rc_view (fst (rc_Get ops k r)) = rc_view r"
    using c cap f by (auto simp: r rc_view_def rc_inv_def)
qed

interpretation ram_map: forgetful_map rc_inv rc_view "rc_Put ops" "\<lambda>k r. Some (rc_Delete ops k r)" "\<lambda>k r. fst (rc_Get ops k r)" for ops
proof (unfold_locales, goal_cases)
  case (1 s k v s')
  then show ?case using rc_Put_ok [of s ops k v] by auto
next
  case (2 s k v s')
  then show ?case using rc_Put_ok [of s ops k v] by auto
next
  case (3 s k s')
  then show ?case using rc_Delete_ok(1) [of s ops k] by simp
next
  case (4 s k s')
  then show ?case using rc_Delete_ok(2) [of s ops k] by simp
next
  case (5 s k)
  then show ?case by (rule rc_Get_ok(2))
next
  case (6 s k)
  then show ?case by (rule rc_Get_ok(3))
qed

definition ram_run :: "'o otter_ops \<Rightarrow> (bytes, bytes) map_op list \<Rightarrow> 'o RamCache \<Rightarrow> 'o RamCache option" where
  "ram_run ops = run_ops (rc_Put ops) (\<lambda>k r. Some (rc_Delete ops k r)) (\<lambda>k r. fst (rc_Get ops k r))"

lemma new_ram_inv:
  assumes "NewRamCacheWithAlgorithm ops cap ''s3-fifo'' = Inr r" "0 < cap"
  shows "rc_inv r" "rc_view r = Map.empty" "rc_capacity r = cap"
proof -
  have r: "r = \<lparr>rc_otter = None, rc_fifo = Some (newS3FIFO cap), rc_capacity = cap, rc_algorithm = ''s3-fifo''\<rparr>"
    using assms by (auto simp: NewRamCacheWithAlgorithm_def Let_def split: if_splits)
  have "capacity (newS3FIFO cap) = cap" "entryLimit (newS3FIFO cap) = min cap 65536" by (simp_all add: newS3FIFO_def)
  then show "rc_inv r" using fifo_ok_new [OF assms(2)] by (simp add: rc_inv_def r)
  show "rc_view r = Map.empty" by (simp add: rc_view_def r fun_eq_iff)
  show "rc_capacity r = cap" by (simp add: r)
qed

lemma ram_run_total: "rc_inv r \<Longrightarrow> \<exists>r'. ram_run ops xs r = Some r' \<and> rc_inv r' \<and> rc_capacity r' = rc_capacity r"
proof (induction xs arbitrary: r)
  case (Cons x xs)
  have cap: "rc_capacity (rc_Delete ops k r) = rc_capacity r" "rc_capacity (fst (rc_Get ops k r)) = rc_capacity r" for k
    by (auto simp: rc_Delete_def rc_Get_def rc_getEntry_def Let_def split: option.splits prod.splits)
  then have cp: "rc_Put ops k v r = Some r1 \<Longrightarrow> rc_capacity r1 = rc_capacity r" for k v r1
    by (auto simp: rc_Put_def Let_def split: option.splits if_splits)
  have "\<exists>r1. apply_op (rc_Put ops) (\<lambda>k r. Some (rc_Delete ops k r)) (\<lambda>k r. fst (rc_Get ops k r)) x r = Some r1 \<and>
      rc_inv r1 \<and> rc_capacity r1 = rc_capacity r"
  proof (cases x)
    case (Put k v)
    then show ?thesis using rc_Put_ok [OF Cons.prems, of ops k v] cp by (auto simp: apply_op_def)
  next
    case (Del k)
    then show ?thesis using rc_Delete_ok(1) [OF Cons.prems] cap by (simp add: apply_op_def)
  next
    case (Peek k)
    then show ?thesis using rc_Get_ok(2) [OF Cons.prems] cap by (simp add: apply_op_def)
  qed
  then show ?case using Cons.IH by (fastforce simp: ram_run_def)
qed (simp add: ram_run_def)

lemma rc_inv_bounds:
  assumes "rc_inv r"
  shows "0 \<le> rc_Size ops r" "rc_Size ops r \<le> rc_capacity r" "rc_Items ops r \<le> min (rc_capacity r) 65536"
proof -
  obtain c where c: "rc_fifo r = Some c" "fifo_ok c" "capacity c = rc_capacity r" "entryLimit c = min (rc_capacity r) 65536"
    using assms by (auto simp: rc_inv_def)
  have i: "fifo_inv c" using c(2) by (simp add: fifo_ok_def cache_ok_def)
  show "rc_Size ops r \<le> rc_capacity r" "rc_Items ops r \<le> min (rc_capacity r) 65536"
    using c by (auto simp: rc_Size_def rc_Items_def fifo_ok_def resident_def)
  show "0 \<le> rc_Size ops r"
    using c(1) i qsum_nonneg(1) [OF i] by (simp add: rc_Size_def fifo_inv_def sums_ok_def)
qed

section \<open>Properties\<close>

text \<open>C28. The RAM cache always answers and stays in its budget. With the S3-FIFO policy, every sequence of
  \<^verbatim>\<open>Put\<close>, \<^verbatim>\<open>Delete\<close> and \<^verbatim>\<open>Get\<close> calls returns (the eviction loops end and never dereference a missing queue
  element), the charged bytes never exceed the capacity and there are at most 65536 entries.\<close>

theorem ram_run_bounded:
  assumes "NewRamCacheWithAlgorithm ops cap ''s3-fifo'' = Inr r" and "0 < cap"
  shows "\<exists>r'. ram_run ops xs r = Some r' \<and> 0 \<le> rc_Size ops r' \<and> rc_Size ops r' \<le> cap \<and> rc_Items ops r' \<le> min cap 65536"
  using ram_run_total [OF new_ram_inv(1) [OF assms], of ops xs] rc_inv_bounds [where ops = ops] new_ram_inv(3) [OF assms] by metis

definition no_otter :: "unit otter_ops" where
  "no_otter = \<lparr>o_Must = \<lambda>_. (), o_GetIfPresent = \<lambda>_ u. (u, None), o_Set = \<lambda>_ _ u. u, o_Invalidate = \<lambda>_ u. u,
     o_EstimatedSize = \<lambda>_. 0, o_WeightedSize = \<lambda>_. 0, o_CleanUp = \<lambda>u. u, o_All = \<lambda>_. [], o_Stats = \<lambda>_. (0, 0, 0, 0)\<rparr>"

lemma new_ram_5: "\<exists>r. NewRamCacheWithAlgorithm no_otter 5 ''s3-fifo'' = Inr r"
  by (simp add: NewRamCacheWithAlgorithm_def Let_def)

theorem ram_run_bounded_witness:
  "\<exists>r r'. NewRamCacheWithAlgorithm no_otter 5 ''s3-fifo'' = Inr r \<and>
     ram_run no_otter [Put [1] [7, 8, 9], Put [2] [7, 8, 9], Peek [1]] r = Some r' \<and> rc_Size no_otter r' \<le> 5"
proof -
  obtain r where r: "NewRamCacheWithAlgorithm no_otter 5 ''s3-fifo'' = Inr r" using new_ram_5 by blast
  have "\<exists>r'. ram_run no_otter [Put [1] [7, 8, 9], Put [2] [7, 8, 9], Peek [1]] r = Some r' \<and> 0 \<le> rc_Size no_otter r' \<and>
      rc_Size no_otter r' \<le> 5 \<and> rc_Items no_otter r' \<le> min 5 65536"
    by (rule ram_run_bounded [OF r]) simp
  then show ?thesis using r by blast
qed



end
