(* ===== verification/Open_Dir.thy ===== *)
theory Open_Dir
  imports Hashes
begin

text \<open>
  The table of documents that are being written (\<^verbatim>\<open>cache/open_dir.go\<close>). Entries are shared objects: the
  table maps keys to addresses in a store of entries, so an entry that was taken out of the table can
  still be held by readers. A closed \<^verbatim>\<open>ReadySignal\<close> channel is the flag \<open>oe_Ready\<close>; the 1024 policy epochs
  are a function of their slot.
\<close>

record OpenDirEntry =
  oe_Writer :: nat
  oe_Ready :: bool
  oe_Error :: "go_err option"
  oe_CreatedAt :: int
  oe_RefCount :: int

record OpenDir =
  od_store :: "nat \<rightharpoonup> OpenDirEntry"
  od_next :: nat
  od_entries :: "bytes \<rightharpoonup> nat"
  od_generation :: nat
  od_policyEpochs :: "nat \<Rightarrow> nat"

definition NewOpenDirEntry :: "int \<Rightarrow> nat \<Rightarrow> OpenDirEntry" where
  "NewOpenDirEntry now w = \<lparr>oe_Writer = w, oe_Ready = False, oe_Error = None, oe_CreatedAt = now, oe_RefCount = 1\<rparr>"

definition NewOpenDir :: OpenDir where
  "NewOpenDir = \<lparr>od_store = Map.empty, od_next = 0, od_entries = Map.empty, od_generation = 0, od_policyEpochs = \<lambda>_. 0\<rparr>"

definition od_Get :: "bytes \<Rightarrow> OpenDir \<Rightarrow> nat option" where
  "od_Get key od = od_entries od key"

definition od_Add :: "int \<Rightarrow> bytes \<Rightarrow> nat \<Rightarrow> OpenDir \<Rightarrow> OpenDir \<times> nat \<times> bool" where
  "od_Add now key w od =
     (case od_entries od key of
        Some entry \<Rightarrow> (od, entry, False)
      | None \<Rightarrow>
          (od\<lparr>od_store := (od_store od)(od_next od \<mapsto> NewOpenDirEntry now w), od_next := od_next od + 1,
              od_entries := (od_entries od)(key \<mapsto> od_next od)\<rparr>, od_next od, True))"

definition add_refs :: "nat \<Rightarrow> int \<Rightarrow> OpenDir \<Rightarrow> OpenDir" where
  "add_refs p n od = od\<lparr>od_store := (od_store od)(p := map_option (\<lambda>e. e\<lparr>oe_RefCount := oe_RefCount e + n\<rparr>) (od_store od p))\<rparr>"

definition refs_gone :: "nat \<Rightarrow> OpenDir \<Rightarrow> bool" where
  "refs_gone p od = (case od_store od p of None \<Rightarrow> False | Some e \<Rightarrow> oe_RefCount e \<le> 0)"

definition od_Remove :: "bytes \<Rightarrow> OpenDir \<Rightarrow> OpenDir" where
  "od_Remove key od =
     (case od_entries od key of
        None \<Rightarrow> od
      | Some p \<Rightarrow> let od = add_refs p (- 1) od
                   in if refs_gone p od then od\<lparr>od_entries := (od_entries od)(key := None)\<rparr> else od)"

definition od_ForceRemove :: "bytes \<Rightarrow> OpenDir \<Rightarrow> OpenDir" where
  "od_ForceRemove key od = od\<lparr>od_entries := (od_entries od)(key := None)\<rparr>"

definition od_Acquire :: "bytes \<Rightarrow> OpenDir \<Rightarrow> OpenDir \<times> nat option" where
  "od_Acquire key od =
     (case od_entries od key of None \<Rightarrow> (od, None) | Some p \<Rightarrow> (add_refs p 1 od, Some p))"

definition od_Release :: "bytes \<Rightarrow> nat option \<Rightarrow> OpenDir \<Rightarrow> OpenDir" where
  "od_Release key expected od =
     (case expected of
        None \<Rightarrow> od
      | Some p \<Rightarrow> let od = add_refs p (- 1) od
                   in if refs_gone p od \<and> od_entries od key = Some p
                      then od\<lparr>od_entries := (od_entries od)(key := None)\<rparr> else od)"

definition signalReady :: "nat \<Rightarrow> OpenDir \<Rightarrow> OpenDir" where
  "signalReady p od = od\<lparr>od_store := (od_store od)(p := map_option (\<lambda>e. e\<lparr>oe_Ready := True\<rparr>) (od_store od p))\<rparr>"

definition od_Generation :: "OpenDir \<Rightarrow> nat" where
  "od_Generation od = od_generation od"

text \<open>The third component is the writer whose \<^verbatim>\<open>cancel\<close> function is called, if it has one.\<close>

definition od_detach :: "bytes \<Rightarrow> OpenDir \<Rightarrow> OpenDir \<times> nat option \<times> nat option" where
  "od_detach key od =
     (let entry = od_entries od key;
          od = od\<lparr>od_entries := (od_entries od)(key := None)\<rparr>
      in case entry of
           None \<Rightarrow> (od, None, None)
         | Some p \<Rightarrow>
             let od = od\<lparr>od_store := (od_store od)(p := map_option (\<lambda>e. e\<lparr>oe_Error := Some ErrInvalidated\<rparr>) (od_store od p))\<rparr>
             in (signalReady p od, Some p, map_option oe_Writer (od_store od p)))"

definition policy_slot :: "bytes \<Rightarrow> nat" where
  "policy_slot selector =
     (let digest = sha256 selector in unat (digest ! 0) * 4 + unat (and (digest ! 1) 3))"

definition policyEpoch :: "bytes \<Rightarrow> OpenDir \<Rightarrow> nat" where
  "policyEpoch selector od = od_policyEpochs od (policy_slot selector)"

section \<open>References\<close>

text \<open>Every entry of the table is in the store, has a reference and belongs to one key.\<close>

definition od_inv :: "OpenDir \<Rightarrow> bool" where
  "od_inv od \<longleftrightarrow>
     (\<forall>k p. od_entries od k = Some p \<longrightarrow> (\<exists>e. od_store od p = Some e \<and> 0 < oe_RefCount e)) \<and>
     (\<forall>k k' p. od_entries od k = Some p \<longrightarrow> od_entries od k' = Some p \<longrightarrow> k = k') \<and>
     (\<forall>p. od_next od \<le> p \<longrightarrow> od_store od p = None)"

text \<open>A holder releases an entry under the key it was opened with.\<close>

definition release_ok :: "bytes \<Rightarrow> nat option \<Rightarrow> OpenDir \<Rightarrow> bool" where
  "release_ok key expected od = (case expected of None \<Rightarrow> True
     | Some p \<Rightarrow> od_store od p \<noteq> None \<and> (\<forall>k. od_entries od k = Some p \<longrightarrow> k = key))"

lemma od_inv_new: "od_inv NewOpenDir"
  by (simp add: od_inv_def NewOpenDir_def)

lemma od_inv_Add:
  assumes "od_inv od"
  shows "od_inv (fst (od_Add now key w od))"
proof (cases "od_entries od key")
  case None
  have "od_entries od k \<noteq> Some (od_next od)" for k
  proof
    assume "od_entries od k = Some (od_next od)"
    then have "\<exists>e. od_store od (od_next od) = Some e" using assms unfolding od_inv_def by blast
    then show False using assms unfolding od_inv_def by auto
  qed
  then show ?thesis using assms None by (auto simp: od_inv_def od_Add_def NewOpenDirEntry_def)
qed (use assms in \<open>simp add: od_Add_def\<close>)

lemma od_inv_detach: "od_inv od \<Longrightarrow> od_inv (fst (od_detach key od))"
  by (auto simp: od_inv_def od_detach_def signalReady_def Let_def split: option.splits if_splits)

lemma od_inv_ForceRemove: "od_inv od \<Longrightarrow> od_inv (od_ForceRemove key od)"
  by (auto simp: od_inv_def od_ForceRemove_def split: if_splits)

lemma od_inv_Acquire: "od_inv od \<Longrightarrow> od_inv (fst (od_Acquire key od))"
  by (fastforce simp: od_inv_def od_Acquire_def add_refs_def split: option.splits if_splits)

lemma release_store:
  assumes "od_store od p = Some e"
  shows "od_store (add_refs p n od) = (od_store od)(p \<mapsto> e\<lparr>oe_RefCount := oe_RefCount e + n\<rparr>)"
    "od_entries (add_refs p n od) = od_entries od" "refs_gone p (add_refs p n od) = (oe_RefCount e + n \<le> 0)"
    "od_next (add_refs p n od) = od_next od"
  using assms by (simp_all add: add_refs_def refs_gone_def)

lemma od_inv_Release:
  assumes "od_inv od" "release_ok key expected od"
  shows "od_inv (od_Release key expected od)"
proof (cases expected)
  case (Some p)
  then obtain e where e: "od_store od p = Some e" and k: "\<And>k. od_entries od k = Some p \<Longrightarrow> k = key"
    using assms(2) by (auto simp: release_ok_def)
  note R = release_store [OF e, of "- 1"]
  have "od_next od \<le> q \<longrightarrow> q \<noteq> p" for q using assms(1) e unfolding od_inv_def by (metis option.distinct(1))
  then show ?thesis
    using assms(1) k e R unfolding od_inv_def od_Release_def Some by (auto simp: Let_def split: if_splits)
qed (use assms in \<open>simp add: od_Release_def\<close>)

lemma od_Remove_Release: "od_entries od key = Some p \<Longrightarrow> od_Remove key od = od_Release key (Some p) od"
  by (simp add: od_Remove_def od_Release_def add_refs_def)

lemma od_inv_Remove:
  assumes "od_inv od"
  shows "od_inv (od_Remove key od)"
proof (cases "od_entries od key")
  case None
  then show ?thesis using assms by (simp add: od_Remove_def)
next
  case (Some p)
  have "od_store od p \<noteq> None" "\<And>k. od_entries od k = Some p \<Longrightarrow> k = key"
    using assms Some unfolding od_inv_def by blast+
  then have "release_ok key (Some p) od" by (simp add: release_ok_def)
  then show ?thesis using od_inv_Release [OF assms] od_Remove_Release [OF Some] by simp
qed

section \<open>Properties\<close>

text \<open>One writer per document. \<^verbatim>\<open>Add\<close> makes the caller the writer exactly when no writer is registered for the
  key; otherwise it returns the registered entry and changes nothing. After it the key is registered, and
  every other key as before.\<close>

theorem od_single_writer:
  "case od_Add now key w od of (od', p, leader) \<Rightarrow>
     leader = (od_entries od key = None) \<and> od_entries od' key = Some p \<and>
     (\<not> leader \<longrightarrow> od' = od) \<and>
     (leader \<longrightarrow> od_store od' p = Some (NewOpenDirEntry now w)) \<and>
     (\<forall>k. k \<noteq> key \<longrightarrow> od_entries od' k = od_entries od k)"
  by (auto simp: od_Add_def split: option.splits)

theorem od_single_writer_witness:
  "case od_Add 5 [1] 9 NewOpenDir of (od', p, leader) \<Rightarrow> leader \<and> od_entries od' [1] = Some p"
  using od_single_writer [where now = 5 and key = "[1]" and w = 9 and od = NewOpenDir] by (simp add: NewOpenDir_def split: prod.splits)

datatype od_op = OAdd int bytes nat | ORemove bytes | OForceRemove bytes | OAcquire bytes | ORelease bytes "nat option" | ODetach bytes

definition od_step :: "od_op \<Rightarrow> OpenDir \<Rightarrow> OpenDir" where
  "od_step x od = (case x of
     OAdd now key w \<Rightarrow> fst (od_Add now key w od)
   | ORemove key \<Rightarrow> od_Remove key od
   | OForceRemove key \<Rightarrow> od_ForceRemove key od
   | OAcquire key \<Rightarrow> fst (od_Acquire key od)
   | ORelease key p \<Rightarrow> od_Release key p od
   | ODetach key \<Rightarrow> fst (od_detach key od))"

definition od_pre :: "od_op \<Rightarrow> OpenDir \<Rightarrow> bool" where
  "od_pre x od = (case x of ORelease key p \<Rightarrow> release_ok key p od | _ \<Rightarrow> True)"

primrec od_run :: "od_op list \<Rightarrow> OpenDir \<Rightarrow> OpenDir option" where
  "od_run [] od = Some od"
| "od_run (x # xs) od =
     (if od_pre x od then od_run xs (od_step x od) else None)"

lemma od_step_inv: "od_inv od \<Longrightarrow> od_pre x od \<Longrightarrow> od_inv (od_step x od)"
  by (cases x) (simp_all add: od_step_def od_pre_def od_inv_Add od_inv_Remove od_inv_ForceRemove od_inv_Acquire od_inv_detach od_inv_Release)

lemma od_run_inv: "od_inv od \<Longrightarrow> od_run xs od = Some od' \<Longrightarrow> od_inv od'"
proof (induction xs arbitrary: od)
  case (Cons x xs)
  then have "od_pre x od" "od_run xs (od_step x od) = Some od'" by (auto split: if_splits)
  then show ?case using Cons.IH od_step_inv [OF Cons.prems(1)] by blast
qed simp

text \<open>C32. A registered writer always has a reference, and a late release cannot drop its successor. In every state
  reached from an empty table by adding, acquiring, releasing, removing and detaching, each registered entry
  has a positive reference count and one key; releasing an entry that has been replaced leaves the table
  unchanged.\<close>

theorem od_references:
  assumes "od_run xs NewOpenDir = Some od" and "od_entries od key = Some p"
  shows "(\<exists>e. od_store od p = Some e \<and> 0 < oe_RefCount e) \<and> (\<forall>k. od_entries od k = Some p \<longrightarrow> k = key) \<and>
    (\<forall>q. q \<noteq> p \<longrightarrow> od_entries (od_Release key (Some q) od) = od_entries od)"
proof -
  have i: "od_inv od" using od_run_inv [OF od_inv_new assms(1)] .
  then have "(\<exists>e. od_store od p = Some e \<and> 0 < oe_RefCount e) \<and> (\<forall>k. od_entries od k = Some p \<longrightarrow> k = key)"
    using assms(2) unfolding od_inv_def by blast
  moreover have "od_entries (od_Release key (Some q) od) = od_entries od" if "q \<noteq> p" for q
    using assms(2) that by (simp add: od_Release_def add_refs_def)
  ultimately show ?thesis by simp
qed

theorem od_references_witness:
  "\<exists>od. od_run [OAdd 0 [1] 4, OAcquire [1], ODetach [1], OAdd 1 [1] 5, ORelease [1] (Some 0)] NewOpenDir = Some od \<and>
     od_entries od [1] = Some 1 \<and> (\<exists>e. od_store od 1 = Some e \<and> 0 < oe_RefCount e)"
proof -
  let ?xs = "[OAdd 0 [1] 4, OAcquire [1], ODetach [1], OAdd 1 [1] 5, ORelease [1] (Some 0)]"
  have "\<exists>od. od_run ?xs NewOpenDir = Some od \<and> od_entries od [1] = Some 1"
    by (simp add: od_step_def od_pre_def od_Add_def od_Acquire_def od_detach_def od_Release_def release_ok_def NewOpenDir_def
        NewOpenDirEntry_def add_refs_def refs_gone_def signalReady_def Let_def)
  then obtain od where od: "od_run ?xs NewOpenDir = Some od" "od_entries od [1] = Some 1" by blast
  show ?thesis using od_references [OF od] od by blast
qed

end
