(* ===== verification/Evacuation.thy ===== *)
theory Evacuation
  imports Hashes "HOL-Library.AList"
begin

text \<open>
  The table of fragments that should be copied before the write cursor reaches them
  (\<^verbatim>\<open>cache/evacuation.go\<close>) and the registry that keeps two stripes from sharing bytes of one file
  (\<^verbatim>\<open>cache/stripe_owner.go\<close>). The nested Go maps are association lists; the order of a result list stands
  for a map iteration order.
\<close>

section \<open>Evacuation table\<close>

definition EvacuationBucketSize :: int where "EvacuationBucketSize = 4 * 1024 * 1024"

record EvacuationBlock =
  eb_Key :: bytes
  eb_LogicalKey :: bytes
  eb_Offset :: int
  eb_Size :: int

type_synonym EvacuationTable = "(int \<times> (int \<times> EvacuationBlock) list) list"

definition NewEvacuationTable :: EvacuationTable where "NewEvacuationTable = []"

definition dirOffsetEvacBucket :: "int \<Rightarrow> int" where
  "dirOffsetEvacBucket off = go_div off EvacuationBucketSize"

definition bucket_of :: "EvacuationTable \<Rightarrow> int \<Rightarrow> (int \<times> EvacuationBlock) list" where
  "bucket_of et i = (case map_of et i of None \<Rightarrow> [] | Some entries \<Rightarrow> entries)"

definition evac_Register :: "bytes \<Rightarrow> int \<Rightarrow> int \<Rightarrow> EvacuationTable \<Rightarrow> EvacuationTable" where
  "evac_Register key off sz et =
     (let i = dirOffsetEvacBucket off;
          entries = bucket_of et i;
          et = (if map_of et i = None then AList.update i [] et else et);
          digest = docKey key
      in case map_of entries off of
           Some old \<Rightarrow>
             if eb_Key old = digest then et
             else AList.update i (AList.update off \<lparr>eb_Key = digest, eb_LogicalKey = key, eb_Offset = off, eb_Size = sz\<rparr> entries) et
         | None \<Rightarrow> AList.update i (AList.update off \<lparr>eb_Key = digest, eb_LogicalKey = key, eb_Offset = off, eb_Size = sz\<rparr> entries) et)"

definition take_bucket :: "int \<Rightarrow> int \<Rightarrow> int \<Rightarrow> EvacuationTable \<Rightarrow> EvacuationTable \<times> EvacuationBlock list" where
  "take_bucket start stop i et =
     (let entries = bucket_of et i;
          result = map snd (filter (\<lambda>(off, _). off < stop \<and> off \<ge> start) entries);
          entries = filter (\<lambda>(off, _). \<not> off < stop) entries
      in (if entries = [] then AList.delete i et else AList.update i entries et, result))"

definition GetCandidatesInRange :: "int \<Rightarrow> int \<Rightarrow> EvacuationTable \<Rightarrow> EvacuationTable \<times> EvacuationBlock list" where
  "GetCandidatesInRange start stop et =
     fold (\<lambda>i (et, acc). let (et, r) = take_bucket start stop i et in (et, acc @ r))
       [dirOffsetEvacBucket start .. dirOffsetEvacBucket (stop - 1)] (et, [])"

text \<open>What the table holds: the registered block of an offset.\<close>

definition registered :: "EvacuationTable \<Rightarrow> int \<rightharpoonup> EvacuationBlock" where
  "registered et off = map_of (bucket_of et (dirOffsetEvacBucket off)) off"

definition evac_inv :: "EvacuationTable \<Rightarrow> bool" where
  "evac_inv et \<longleftrightarrow> distinct (map fst et) \<and>
     (\<forall>i. distinct (map fst (bucket_of et i)) \<and> (\<forall>(off, e)\<in>set (bucket_of et i). dirOffsetEvacBucket off = i))"

lemma bucket_of_update [simp]: "bucket_of (AList.update i es et) = (bucket_of et)(i := es)"
  by (auto simp: bucket_of_def AList.update_conv' fun_eq_iff)

lemma bucket_of_delete [simp]: "bucket_of (AList.delete i et) = (bucket_of et)(i := [])"
  by (auto simp: bucket_of_def AList.delete_conv' fun_eq_iff)

lemma bucket_of_absent: "map_of et i = None \<Longrightarrow> bucket_of et i = []"
  by (simp add: bucket_of_def)

lemma evac_inv_update:
  assumes "evac_inv et" "distinct (map fst es)" "\<forall>(off, e)\<in>set es. dirOffsetEvacBucket off = i"
  shows "evac_inv (AList.update i es et)"
  using assms by (simp add: evac_inv_def AList.distinct_update)

lemma Register_ok:
  assumes inv: "evac_inv et"
  shows "evac_inv (evac_Register key off sz et) \<and>
    (\<forall>o'. o' \<noteq> off \<longrightarrow> registered (evac_Register key off sz et) o' = registered et o') \<and>
    (\<exists>e. registered (evac_Register key off sz et) off = Some e \<and> eb_Key e = docKey key)"
proof -
  let ?i = "dirOffsetEvacBucket off" and ?b = "\<lparr>eb_Key = docKey key, eb_LogicalKey = key, eb_Offset = off, eb_Size = sz\<rparr>"
  define es where "es = bucket_of et ?i"
  define et0 where "et0 = (if map_of et ?i = None then AList.update ?i [] et else et)"
  have b0: "bucket_of et0 = bucket_of et" by (auto simp: et0_def bucket_of_absent fun_eq_iff)
  have i0: "evac_inv et0" using inv by (auto simp: et0_def intro!: evac_inv_update)
  have es: "distinct (map fst es)" "\<forall>(o', e)\<in>set es. dirOffsetEvacBucket o' = ?i" using inv by (auto simp: evac_inv_def es_def)
  have r: "evac_Register key off sz et = (case map_of es off of
      Some old \<Rightarrow> if eb_Key old = docKey key then et0 else AList.update ?i (AList.update off ?b es) et0
    | None \<Rightarrow> AList.update ?i (AList.update off ?b es) et0)"
    unfolding evac_Register_def Let_def es_def et0_def ..
  have "set (AList.update off ?b es) \<subseteq> insert (off, ?b) (set es)" by (induction es) auto
  then have nw: "evac_inv (AList.update ?i (AList.update off ?b es) et0)"
    using es by (intro evac_inv_update [OF i0]) (auto simp: AList.distinct_update)
  show ?thesis
  proof (cases "\<exists>old. map_of es off = Some old \<and> eb_Key old = docKey key")
    case True
    then have "evac_Register key off sz et = et0" using r by auto
    then show ?thesis using True i0 b0 by (auto simp: registered_def es_def)
  next
    case False
    then have e: "evac_Register key off sz et = AList.update ?i (AList.update off ?b es) et0" using r by (auto split: option.splits)
    show ?thesis using nw b0 by (auto simp: e registered_def AList.update_conv' es_def)
  qed
qed

lemma take_bucket_ok:
  assumes inv: "evac_inv et" and r: "take_bucket start stop i et = (et', res)"
  shows "evac_inv et'" "bucket_of et' = (bucket_of et)(i := filter (\<lambda>(o', _). \<not> o' < stop) (bucket_of et i))"
    "res = map snd (filter (\<lambda>(o', _). o' < stop \<and> o' \<ge> start) (bucket_of et i))"
proof -
  let ?es = "filter (\<lambda>(o', _). \<not> o' < stop) (bucket_of et i)"
  have d: "distinct (map fst ?es)" "\<forall>(o', e)\<in>set ?es. dirOffsetEvacBucket o' = i"
    using inv by (auto simp: evac_inv_def distinct_map_filter)
  have "evac_inv (AList.delete i et)" using inv by (simp add: evac_inv_def AList.distinct_delete)
  then show "evac_inv et'" using r evac_inv_update [OF inv d] by (auto simp: take_bucket_def Let_def split: if_splits)
  show "bucket_of et' = (bucket_of et)(i := ?es)" using r by (auto simp: take_bucket_def Let_def split: if_splits)
  show "res = map snd (filter (\<lambda>(o', _). o' < stop \<and> o' \<ge> start) (bucket_of et i))" using r by (auto simp: take_bucket_def Let_def)
qed


abbreviation scan_buckets where
  "scan_buckets start stop is et acc \<equiv> fold (\<lambda>i (et, acc). let (et, r) = take_bucket start stop i et in (et, acc @ r)) is (et, acc)"

lemma scan_buckets_ok:
  assumes "evac_inv et" "distinct is" "scan_buckets start stop is et acc = (et', acc')"
  shows "evac_inv et' \<and>
    (\<forall>i. bucket_of et' i = (if i \<in> set is then filter (\<lambda>(o', _). \<not> o' < stop) (bucket_of et i) else bucket_of et i)) \<and>
    set acc' = set acc \<union> {e. \<exists>i\<in>set is. \<exists>o'. (o', e) \<in> set (bucket_of et i) \<and> start \<le> o' \<and> o' < stop}"
  using assms
proof (induction "is" arbitrary: et acc)
  case Nil
  then show ?case by simp
next
  case (Cons i "is")
  obtain et1 r where t: "take_bucket start stop i et = (et1, r)" by (cases "take_bucket start stop i et")
  note k = take_bucket_ok [OF Cons.prems(1) t]
  have rec: "scan_buckets start stop is et1 (acc @ r) = (et', acc')" using Cons.prems(3) t by simp
  have ni: "i \<notin> set is" and d: "distinct is" using Cons.prems(2) by auto
  note IH = Cons.IH [OF k(1) d rec]
  have same: "bucket_of et1 j = bucket_of et j" if "j \<in> set is" for j using that ni k(2) by auto
  have "\<forall>j. bucket_of et' j = (if j \<in> set (i # is) then filter (\<lambda>(o', _). \<not> o' < stop) (bucket_of et j) else bucket_of et j)"
    using IH k(2) ni by auto
  moreover have "set r = {e. \<exists>o'. (o', e) \<in> set (bucket_of et i) \<and> start \<le> o' \<and> o' < stop}"
    unfolding k(3) by force
  then have "set acc' = set acc \<union> {e. \<exists>j\<in>set (i # is). \<exists>o'. (o', e) \<in> set (bucket_of et j) \<and> start \<le> o' \<and> o' < stop}"
    using IH same by auto
  ultimately show ?case using IH by simp
qed

lemma evac_bucket_mono: "a \<le> b \<Longrightarrow> dirOffsetEvacBucket a \<le> dirOffsetEvacBucket b"
proof -
  assume "a \<le> b"
  moreover have "- ((- a) div EvacuationBucketSize) \<le> 0" if "a < 0" using that by (simp add: EvacuationBucketSize_def)
  moreover have "0 \<le> b div EvacuationBucketSize" if "0 \<le> b" using that by (simp add: EvacuationBucketSize_def)
  moreover have "(- b) div EvacuationBucketSize \<le> (- a) div EvacuationBucketSize" using \<open>a \<le> b\<close> by (intro zdiv_mono1) (auto simp: EvacuationBucketSize_def)
  moreover have "a div EvacuationBucketSize \<le> b div EvacuationBucketSize" using \<open>a \<le> b\<close> by (intro zdiv_mono1) (auto simp: EvacuationBucketSize_def)
  ultimately show ?thesis 
    unfolding dirOffsetEvacBucket_def go_div_def by (auto simp: sgn_if EvacuationBucketSize_def)
qed

lemma registered_iff:
  assumes "evac_inv et"
  shows "registered et o' = Some e \<longleftrightarrow> (\<exists>i. (o', e) \<in> set (bucket_of et i))"
  using assms unfolding registered_def evac_inv_def by (fastforce simp: map_of_eq_Some_iff)

lemma bucket_upto:
  assumes "o' < stop" shows "dirOffsetEvacBucket o' \<le> dirOffsetEvacBucket (stop - 1)"
  using assms by (intro evac_bucket_mono) simp

lemma map_of_drop_below:
  "map_of (filter (\<lambda>(o', _). \<not> o' < stop) es) o' = (if o' < (stop :: int) then None else map_of es o')"
  by (induction es) auto

text \<open>Evacuation sees every registered fragment in the range about to be overwritten, and nothing else. The
  candidates of a range are exactly the blocks registered at its offsets; they leave the table together
  with the ones before the range in its first bucket, and every registration at or after the end stays.\<close>

theorem evac_candidates:
  assumes "evac_inv et" and "GetCandidatesInRange start stop et = (et', res)"
  shows "evac_inv et' \<and> set res = {e. \<exists>o'. start \<le> o' \<and> o' < stop \<and> registered et o' = Some e} \<and>
    (\<forall>o'. registered et' o' =
       (if o' < stop \<and> dirOffsetEvacBucket start \<le> dirOffsetEvacBucket o' then None else registered et o'))"
proof -
  let ?is = "[dirOffsetEvacBucket start .. dirOffsetEvacBucket (stop - 1)]"
  have "scan_buckets start stop ?is et [] = (et', res)" using assms(2) by (simp add: GetCandidatesInRange_def)
  then have k: "evac_inv et'"
    "\<And>i. bucket_of et' i = (if i \<in> set ?is then filter (\<lambda>(o', _). \<not> o' < stop) (bucket_of et i) else bucket_of et i)"
    "set res = {e. \<exists>i\<in>set ?is. \<exists>o'. (o', e) \<in> set (bucket_of et i) \<and> start \<le> o' \<and> o' < stop}"
    using scan_buckets_ok [OF assms(1), of ?is start stop "[]" et' res] by auto
  have home: "dirOffsetEvacBucket o' = i" if "(o', e) \<in> set (bucket_of et i)" for o' e i
    using that assms(1) by (auto simp: evac_inv_def)
  have "set res = {e. \<exists>o'. start \<le> o' \<and> o' < stop \<and> registered et o' = Some e}"
    unfolding k(3) registered_iff [OF assms(1)]
  proof (intro set_eqI iffI; simp only: mem_Collect_eq)
    fix e assume "\<exists>o'. start \<le> o' \<and> o' < stop \<and> (\<exists>i. (o', e) \<in> set (bucket_of et i))"
    then obtain o' i where o: "start \<le> o'" "o' < stop" "(o', e) \<in> set (bucket_of et i)" by blast
    have "i \<in> set ?is" using home [OF o(3)] evac_bucket_mono [OF o(1)] bucket_upto [OF o(2)] by simp
    then show "\<exists>i\<in>set ?is. \<exists>o'. (o', e) \<in> set (bucket_of et i) \<and> start \<le> o' \<and> o' < stop" using o by blast
  qed blast
  moreover have "registered et' o' =
      (if o' < stop \<and> dirOffsetEvacBucket start \<le> dirOffsetEvacBucket o' then None else registered et o')" for o'
    using bucket_upto [of o' stop] by (auto simp: registered_def k(2) map_of_drop_below)
  ultimately show ?thesis using k(1) by blast
qed

lemma evac_inv_new: "evac_inv NewEvacuationTable"
  by (simp add: evac_inv_def NewEvacuationTable_def bucket_of_def)

theorem evac_candidates_witness:
  "\<exists>e. eb_Key e = docKey [7] \<and>
     e \<in> set (snd (GetCandidatesInRange 4096 8192 (evac_Register [7] 5000 600 NewEvacuationTable)))"
proof -
  let ?t = "evac_Register [7] 5000 600 NewEvacuationTable"
  have r: "evac_inv ?t" "\<exists>e. registered ?t 5000 = Some e \<and> eb_Key e = docKey [7]"
    using Register_ok [OF evac_inv_new, of "[7]" 5000 600] by simp_all
  obtain et' res where g: "GetCandidatesInRange 4096 8192 ?t = (et', res)" by (cases "GetCandidatesInRange 4096 8192 ?t")
  obtain e where e: "registered ?t 5000 = Some e" "eb_Key e = docKey [7]" using r(2) by blast
  have "(4096 :: int) \<le> 5000 \<and> (5000 :: int) < 8192 \<and> registered ?t 5000 = Some e" using e(1) by simp
  then have "e \<in> set res" using evac_candidates [OF r(1) g] by blast
  then show ?thesis using e(2) g by auto
qed

end
