(* ===== verification/Agg_Buffer.thy ===== *)
theory Agg_Buffer
  imports Doc_Format
begin

text \<open>
  The aggregation buffer of a stripe (\<^verbatim>\<open>cache/aggregate_write_buffer.go\<close>): two buffers, one that collects
  records and one that the disk worker may be writing. The mutex makes every method one step; a method
  that waits for the \<^verbatim>\<open>changed\<close> channel ends its step with \<open>Wait\<close> and runs its loop again when it is woken.
  The two-element arrays are functions of the index \<open>bool\<close> (\<^verbatim>\<open>1 - idx\<close> is \<open>\<not> idx\<close>); a buffer holds the
  bytes below its position, the rest is never read. Sequence numbers and generations are unbounded.
\<close>

section \<open>State\<close>

definition AggHighWaterMark :: nat where "AggHighWaterMark = AggBufferSize div 2"

record 'w FlushTask =
  ft_Buffer :: bytes
  ft_Writers :: "'w list"
  ft_Offset :: int
  ft_Generation :: nat

record allocation =
  al_offset :: int
  al_generation :: nat
  al_sequence :: nat

record 'w AggregateWriteBuffer =
  buffers :: "bool \<Rightarrow> bytes"
  bufferPos :: "bool \<Rightarrow> nat"
  bufferStart :: "bool \<Rightarrow> int"
  bufferGeneration :: "bool \<Rightarrow> nat"
  bufferSequence :: "bool \<Rightarrow> nat"
  pendingWriters :: "bool \<Rightarrow> 'w list"
  activeIdx :: bool
  writeCursor :: int
  ab_generation :: nat
  ab_sequence :: nat
  ab_completed :: nat
  flushChan :: "'w FlushTask list"
  isFlushing :: bool
  minOffset :: int
  maxOffset :: int
  ab_err :: "go_err option"
  ab_closed :: bool

definition NewAggregateWriteBuffer :: "'w AggregateWriteBuffer" where
  "NewAggregateWriteBuffer = \<lparr>buffers = \<lambda>_. [], bufferPos = \<lambda>_. 0, bufferStart = \<lambda>_. 0, bufferGeneration = \<lambda>_. 0,
     bufferSequence = \<lambda>_. 0, pendingWriters = \<lambda>_. [], activeIdx = False, writeCursor = 0, ab_generation = 0,
     ab_sequence = 0, ab_completed = 0, flushChan = [], isFlushing = False, minOffset = 0, maxOffset = 0,
     ab_err = None, ab_closed = False\<rparr>"

definition initPosition :: "int \<Rightarrow> nat \<Rightarrow> 'w AggregateWriteBuffer \<Rightarrow> 'w AggregateWriteBuffer" where
  "initPosition offset gen b =
     (let b = b\<lparr>writeCursor := offset\<rparr>;
          b = (if maxOffset b = 0 then b\<lparr>minOffset := offset\<rparr> else b)
      in b\<lparr>ab_generation := gen\<rparr>)"

definition ab_Init :: "int \<Rightarrow> 'w AggregateWriteBuffer \<Rightarrow> 'w AggregateWriteBuffer" where
  "ab_Init offset b = initPosition offset 0 b"

definition SetBounds :: "int \<Rightarrow> int \<Rightarrow> 'w AggregateWriteBuffer \<Rightarrow> 'w AggregateWriteBuffer" where
  "SetBounds lo hi b =
     (let b = b\<lparr>minOffset := lo, maxOffset := hi\<rparr>
      in if writeCursor b < lo then b\<lparr>writeCursor := lo\<rparr> else b)"

definition IsEmpty :: "'w AggregateWriteBuffer \<Rightarrow> bool" where
  "IsEmpty b \<longleftrightarrow> bufferPos b (activeIdx b) = 0 \<and> \<not> isFlushing b"

definition GetBufferPos :: "'w AggregateWriteBuffer \<Rightarrow> nat" where
  "GetBufferPos b = bufferPos b (activeIdx b)"

definition ab_Stats :: "'w AggregateWriteBuffer \<Rightarrow> nat \<times> int" where
  "ab_Stats b =
     (let bytes = int (bufferPos b (activeIdx b));
          queued = (if bytes > 0 then 1 else 0)
      in if isFlushing b then (queued + 1, bytes + int (bufferPos b (\<not> activeIdx b))) else (queued, bytes))"

section \<open>Adding and flushing\<close>

definition swapAndFlushLocked :: "'w AggregateWriteBuffer \<Rightarrow> 'w AggregateWriteBuffer" where
  "swapAndFlushLocked b =
     (let idx = activeIdx b in
      if isFlushing b \<or> bufferPos b idx = 0 \<or> ab_err b \<noteq> None then b
      else let task = \<lparr>ft_Buffer = take (bufferPos b idx) (buffers b idx), ft_Writers = pendingWriters b idx,
                       ft_Offset = bufferStart b idx, ft_Generation = bufferGeneration b idx\<rparr>
           in b\<lparr>isFlushing := True, activeIdx := \<not> idx, bufferPos := (bufferPos b)(\<not> idx := 0),
                pendingWriters := (pendingWriters b)(\<not> idx := []), flushChan := flushChan b @ [task]\<rparr>)"

definition fits :: "bytes \<Rightarrow> 'w AggregateWriteBuffer \<Rightarrow> bool" where
  "fits data b \<longleftrightarrow> \<not> (length data = 0 \<or> length data > AggBufferSize \<or>
     (maxOffset b \<noteq> 0 \<and> (maxOffset b \<le> minOffset b \<or> int (length data) > maxOffset b - minOffset b)))"

definition put_record :: "bytes \<Rightarrow> 'w option \<Rightarrow> 'w AggregateWriteBuffer \<Rightarrow> 'w AggregateWriteBuffer" where
  "put_record data writer b =
     (let idx = activeIdx b; pos = bufferPos b idx;
          b = (if pos = 0 then b\<lparr>bufferStart := (bufferStart b)(idx := writeCursor b),
                                 bufferGeneration := (bufferGeneration b)(idx := ab_generation b)\<rparr> else b);
          b = b\<lparr>buffers := (buffers b)(idx := take pos (buffers b idx) @ data),
                bufferPos := (bufferPos b)(idx := pos + length data)\<rparr>;
          b = (case writer of None \<Rightarrow> b
               | Some w \<Rightarrow> b\<lparr>pendingWriters := (pendingWriters b)(idx := pendingWriters b idx @ [w])\<rparr>)
      in b\<lparr>ab_sequence := ab_sequence b + 1, bufferSequence := (bufferSequence b)(idx := ab_sequence b + 1)\<rparr>)"

definition place :: "bytes \<Rightarrow> 'w option \<Rightarrow> 'w AggregateWriteBuffer \<Rightarrow> 'w AggregateWriteBuffer \<times> allocation" where
  "place data writer b =
     (let idx = activeIdx b;
          b = put_record data writer b;
          a = \<lparr>al_offset = writeCursor b, al_generation = ab_generation b, al_sequence = ab_sequence b\<rparr>;
          b = b\<lparr>writeCursor := writeCursor b + int (length data)\<rparr>
      in (if bufferPos b idx \<ge> AggHighWaterMark \<and> \<not> isFlushing b then swapAndFlushLocked b else b, a))"

datatype add_result = Added allocation | Failed go_err | Wait

text \<open>The loop of \<^verbatim>\<open>addContext\<close> up to a return or a wait; \<open>ctx\<close> is the state of the context.\<close>

partial_function (option) add_loop :: "go_err option \<Rightarrow> bytes \<Rightarrow> 'w option \<Rightarrow> 'w AggregateWriteBuffer \<Rightarrow>
    ('w AggregateWriteBuffer \<times> add_result) option" where
  "add_loop ctx data writer b =
     (case ab_err b of Some e \<Rightarrow> Some (b, Failed e) | None \<Rightarrow>
      if ab_closed b then Some (b, Failed ErrCacheClosed)
      else case ctx of Some e \<Rightarrow> Some (b, Failed e) | None \<Rightarrow>
      if maxOffset b > 0 \<and> writeCursor b + int (length data) > maxOffset b then
        (if isFlushing b then Some (b, Wait)
         else let b = swapAndFlushLocked b
              in add_loop ctx data writer (b\<lparr>writeCursor := minOffset b, ab_generation := ab_generation b + 1\<rparr>))
      else if bufferPos b (activeIdx b) + length data \<le> AggBufferSize
      then Some (let (b, a) = place data writer b in (b, Added a))
      else if \<not> isFlushing b then add_loop ctx data writer (swapAndFlushLocked b)
      else Some (b, Wait))"

definition addContext :: "go_err option \<Rightarrow> bytes \<Rightarrow> 'w option \<Rightarrow> 'w AggregateWriteBuffer \<Rightarrow>
    ('w AggregateWriteBuffer \<times> add_result) option" where
  "addContext ctx data writer b =
     (if \<not> fits data b then Some (b, Failed (Err ''record does not fit aggregate or stripe''))
      else add_loop ctx data writer b)"

definition TriggerFlush :: "'w AggregateWriteBuffer \<Rightarrow> 'w AggregateWriteBuffer" where
  "TriggerFlush b = swapAndFlushLocked b"

datatype flush_result = Flushed | FlushFailed go_err | FlushWait

text \<open>One round of \<^verbatim>\<open>flushThrough\<close>.\<close>

definition flushThrough :: "go_err option \<Rightarrow> nat \<Rightarrow> 'w AggregateWriteBuffer \<Rightarrow> 'w AggregateWriteBuffer \<times> flush_result" where
  "flushThrough ctx target b =
     (case ab_err b of Some e \<Rightarrow> (b, FlushFailed e) | None \<Rightarrow>
      case ctx of Some e \<Rightarrow> (b, FlushFailed e) | None \<Rightarrow>
      if ab_completed b \<ge> target then (b, Flushed) else (swapAndFlushLocked b, FlushWait))"

definition FlushContext :: "go_err option \<Rightarrow> 'w AggregateWriteBuffer \<Rightarrow> 'w AggregateWriteBuffer \<times> flush_result" where
  "FlushContext ctx b = flushThrough ctx (ab_sequence b) b"

text \<open>The result is the list of writers that are told of the failure.\<close>

definition NotifyFlushDone :: "go_err option \<Rightarrow> 'w AggregateWriteBuffer \<Rightarrow> 'w AggregateWriteBuffer \<times> ('w \<times> go_err) list" where
  "NotifyFlushDone res b =
     (let b = (if res \<noteq> None \<and> ab_err b = None then b\<lparr>ab_err := res\<rparr> else b);
          b = (if isFlushing b then b\<lparr>ab_completed := bufferSequence b (\<not> activeIdx b), isFlushing := False\<rparr> else b)
      in case ab_err b of
           None \<Rightarrow> (b, [])
         | Some e \<Rightarrow> (b\<lparr>pendingWriters := (pendingWriters b)(activeIdx b := []), bufferPos := (bufferPos b)(activeIdx b := 0)\<rparr>,
                      map (\<lambda>w. (w, e)) (pendingWriters b (activeIdx b))))"

definition ab_Fail :: "go_err option \<Rightarrow> 'w AggregateWriteBuffer \<Rightarrow> 'w AggregateWriteBuffer" where
  "ab_Fail res b = (if res = None then b else if ab_err b = None then b\<lparr>ab_err := res\<rparr> else b)"

definition stopAdds :: "'w AggregateWriteBuffer \<Rightarrow> 'w AggregateWriteBuffer" where
  "stopAdds b = b\<lparr>ab_closed := True\<rparr>"

definition ab_Reset :: "'w AggregateWriteBuffer \<Rightarrow> 'w AggregateWriteBuffer" where
  "ab_Reset b = b\<lparr>bufferPos := \<lambda>_. 0, activeIdx := False, isFlushing := False, writeCursor := 0, ab_sequence := 0,
     ab_completed := 0, ab_generation := 0, ab_err := None, ab_closed := False\<rparr>"

section \<open>Reading back\<close>

definition in_buffer :: "int \<Rightarrow> bool \<Rightarrow> 'w AggregateWriteBuffer \<Rightarrow> bool" where
  "in_buffer offset idx b \<longleftrightarrow> \<not> (idx \<noteq> activeIdx b \<and> \<not> isFlushing b) \<and>
     bufferStart b idx \<le> offset \<and> offset < bufferStart b idx + int (bufferPos b idx)"

definition DirAggBufValid :: "int \<Rightarrow> 'w AggregateWriteBuffer \<Rightarrow> bool" where
  "DirAggBufValid offset b \<longleftrightarrow> in_buffer offset (activeIdx b) b \<or> in_buffer offset (\<not> activeIdx b) b"

text \<open>The bytes copied into a slice of length \<open>n\<close>.\<close>

definition CopyFrom :: "int \<Rightarrow> nat \<Rightarrow> 'w AggregateWriteBuffer \<Rightarrow> bytes" where
  "CopyFrom offset n b =
     (let read = (\<lambda>idx. take n (drop (nat (offset - bufferStart b idx)) (take (bufferPos b idx) (buffers b idx))))
      in if in_buffer offset (activeIdx b) b then read (activeIdx b)
         else if in_buffer offset (\<not> activeIdx b) b then read (\<not> activeIdx b)
         else [])"

section \<open>Invariant\<close>

definition agg_inv :: "'w AggregateWriteBuffer \<Rightarrow> bool" where
  "agg_inv b \<longleftrightarrow>
     (\<forall>i. bufferPos b i \<le> AggBufferSize \<and> bufferPos b i \<le> length (buffers b i)) \<and>
     (bufferPos b (activeIdx b) > 0 \<longrightarrow>
        bufferStart b (activeIdx b) + int (bufferPos b (activeIdx b)) = writeCursor b \<and>
        bufferGeneration b (activeIdx b) = ab_generation b) \<and>
     (ab_err b = None \<longrightarrow>
        (if bufferPos b (activeIdx b) > 0 then bufferSequence b (activeIdx b) = ab_sequence b
         else if isFlushing b then bufferSequence b (\<not> activeIdx b) = ab_sequence b
         else ab_completed b = ab_sequence b))"

lemma agg_inv_new: "agg_inv NewAggregateWriteBuffer"
  by (simp add: agg_inv_def NewAggregateWriteBuffer_def)

lemma swap_inv: "agg_inv b \<Longrightarrow> agg_inv (swapAndFlushLocked b)"
  by (auto simp: agg_inv_def swapAndFlushLocked_def Let_def)

lemma swap_fields:
  "maxOffset (swapAndFlushLocked b) = maxOffset b" "minOffset (swapAndFlushLocked b) = minOffset b"
  "writeCursor (swapAndFlushLocked b) = writeCursor b" "ab_err (swapAndFlushLocked b) = ab_err b"
  "ab_closed (swapAndFlushLocked b) = ab_closed b" "ab_sequence (swapAndFlushLocked b) = ab_sequence b"
  "ab_generation (swapAndFlushLocked b) = ab_generation b" "ab_completed (swapAndFlushLocked b) = ab_completed b"
  by (simp_all add: swapAndFlushLocked_def Let_def)

lemma swap_empties:
  "\<not> isFlushing b \<Longrightarrow> ab_err b = None \<Longrightarrow> bufferPos (swapAndFlushLocked b) (activeIdx (swapAndFlushLocked b)) = 0"
  by (simp add: swapAndFlushLocked_def Let_def)

lemma put_record_fields:
  assumes "r = put_record data writer b"
  shows "activeIdx r = activeIdx b" "writeCursor r = writeCursor b" "ab_generation r = ab_generation b" "isFlushing r = isFlushing b"
    "ab_err r = ab_err b" "ab_sequence r = ab_sequence b + 1" "ab_completed r = ab_completed b" "minOffset r = minOffset b" "maxOffset r = maxOffset b"
    "bufferPos r = (bufferPos b)(activeIdx b := bufferPos b (activeIdx b) + length data)"
    "buffers r = (buffers b)(activeIdx b := take (bufferPos b (activeIdx b)) (buffers b (activeIdx b)) @ data)"
    "bufferStart r = (if bufferPos b (activeIdx b) = 0 then (bufferStart b)(activeIdx b := writeCursor b) else bufferStart b)"
    "bufferGeneration r = (if bufferPos b (activeIdx b) = 0 then (bufferGeneration b)(activeIdx b := ab_generation b) else bufferGeneration b)"
    "bufferSequence r = (bufferSequence b)(activeIdx b := ab_sequence b + 1)"
  unfolding assms by (cases writer; simp add: put_record_def Let_def)+

lemma place_inv:
  assumes "agg_inv b" "bufferPos b (activeIdx b) + length data \<le> AggBufferSize" "0 < length data"
  shows "agg_inv (fst (place data writer b))"
proof -
  let ?r = "put_record data writer b"
  let ?c = "?r\<lparr>writeCursor := writeCursor ?r + int (length data)\<rparr>"
  have "agg_inv ?c"
    using assms unfolding agg_inv_def by (auto simp: put_record_fields [OF refl])
  then show ?thesis by (simp add: place_def Let_def swap_inv)
qed

lemma agg_inv_wrap:
  "agg_inv b \<Longrightarrow> bufferPos b (activeIdx b) = 0 \<Longrightarrow> agg_inv (b\<lparr>writeCursor := w, ab_generation := g\<rparr>)"
  by (simp add: agg_inv_def)

text \<open>The loop ends: after at most one wrap and one swap the record is placed or the caller waits.\<close>

definition add_good :: "bytes \<Rightarrow> 'w option \<Rightarrow> int \<Rightarrow> nat \<Rightarrow> nat \<Rightarrow> 'w AggregateWriteBuffer \<Rightarrow> add_result \<Rightarrow> bool" where
  "add_good data writer w g n b' r \<longleftrightarrow> agg_inv b' \<and> (\<forall>a. r = Added a \<longrightarrow>
     (\<exists>b0. agg_inv b0 \<and> writeCursor b0 = w \<and> ab_generation b0 = g \<and> ab_sequence b0 = n \<and> ab_err b0 = None \<and>
        bufferPos b0 (activeIdx b0) + length data \<le> AggBufferSize \<and> (b', a) = place data writer b0))"

lemma add_loop_direct:
  assumes i: "agg_inv b" and l: "0 < length data"
    and cur: "maxOffset b \<le> 0 \<or> writeCursor b + int (length data) \<le> maxOffset b"
    and room: "bufferPos b (activeIdx b) + length data \<le> AggBufferSize \<or> isFlushing b \<or> ab_err b \<noteq> None \<or> ab_closed b \<or> ctx \<noteq> None"
  shows "\<exists>b' r. add_loop ctx data writer b = Some (b', r) \<and> add_good data writer (writeCursor b) (ab_generation b) (ab_sequence b) b' r \<and>
    (r = Wait \<longrightarrow> isFlushing b)"
proof -
  consider e where "ab_err b = Some e" | "ab_err b = None" "ab_closed b" | e where "ab_err b = None" "\<not> ab_closed b" "ctx = Some e"
    | "ab_err b = None" "\<not> ab_closed b" "ctx = None" "bufferPos b (activeIdx b) + length data \<le> AggBufferSize"
    | "ab_err b = None" "\<not> ab_closed b" "ctx = None" "\<not> bufferPos b (activeIdx b) + length data \<le> AggBufferSize" "isFlushing b"
    using room by (cases "ab_err b"; cases ctx) auto
  then show ?thesis
  proof cases
    case 4
    obtain b' a where p: "place data writer b = (b', a)" by force
    have "agg_inv b'" using place_inv [OF i 4(4) l, of writer] p by simp
    then have "add_good data writer (writeCursor b) (ab_generation b) (ab_sequence b) b' (Added a)"
      using i 4 p unfolding add_good_def by auto
    then show ?thesis using 4 cur p by (subst add_loop.simps) auto
  qed (use i cur in \<open>(subst add_loop.simps, auto simp: add_good_def)+\<close>)
qed

lemma add_loop_room:
  assumes i: "agg_inv b" and f: "fits data b" and cur: "maxOffset b \<le> 0 \<or> writeCursor b + int (length data) \<le> maxOffset b"
  shows "\<exists>b' r. add_loop ctx data writer b = Some (b', r) \<and> add_good data writer (writeCursor b) (ab_generation b) (ab_sequence b) b' r \<and>
    (r = Wait \<longrightarrow> isFlushing b)"
proof -
  have l: "0 < length data" "length data \<le> AggBufferSize" using f by (auto simp: fits_def)
  let ?room = "bufferPos b (activeIdx b) + length data \<le> AggBufferSize \<or> isFlushing b \<or> ab_err b \<noteq> None \<or> ab_closed b \<or> ctx \<noteq> None"
  show ?thesis
  proof (cases ?room)
    case True
    then show ?thesis by (rule add_loop_direct [OF i l(1) cur])
  next
    case False
    let ?s = "swapAndFlushLocked b"
    have z: "bufferPos ?s (activeIdx ?s) = 0" using False by (intro swap_empties) auto
    have e: "add_loop ctx data writer b = add_loop ctx data writer ?s"
      using False cur by (subst add_loop.simps) auto
    obtain b' a where p: "place data writer ?s = (b', a)" by force
    have r: "add_loop ctx data writer ?s = Some (b', Added a)"
      using False cur z l(2) p by (subst add_loop.simps) (auto simp: swap_fields)
    have "agg_inv b'" using place_inv [OF swap_inv [OF i] _ l(1), of writer] z l(2) p by simp
    then have "add_good data writer (writeCursor b) (ab_generation b) (ab_sequence b) b' (Added a)"
      unfolding add_good_def
      by (auto intro!: exI [of _ ?s] swap_inv [OF i]) (use False z l(2) p in \<open>auto simp: swap_fields\<close>)
    then show ?thesis using e r by auto
  qed
qed

lemma add_loop_ok:
  assumes i: "agg_inv b" and f: "fits data b"
  shows "\<exists>b' r w g. add_loop ctx data writer b = Some (b', r) \<and> add_good data writer w g (ab_sequence b) b' r \<and> (r = Wait \<longrightarrow> isFlushing b) \<and>
    (w = writeCursor b \<and> g = ab_generation b \<or> w = minOffset b \<and> g = ab_generation b + 1) \<and> (maxOffset b > 0 \<longrightarrow> w + int (length data) \<le> maxOffset b \<or> (\<forall>a. r \<noteq> Added a))"
proof (cases "maxOffset b > 0 \<and> writeCursor b + int (length data) > maxOffset b")
  case False
  then have cur: "maxOffset b \<le> 0 \<or> writeCursor b + int (length data) \<le> maxOffset b" by linarith
  then show ?thesis using add_loop_room [OF i f cur, of ctx writer] by fastforce
next
  case True
  consider e where "ab_err b = Some e" | "ab_err b = None" "ab_closed b" | e where "ab_err b = None" "\<not> ab_closed b" "ctx = Some e"
    | "ab_err b = None" "\<not> ab_closed b" "ctx = None" "isFlushing b"
    | "ab_err b = None" "\<not> ab_closed b" "ctx = None" "\<not> isFlushing b"
    by (cases "ab_err b"; cases ctx) auto
  then show ?thesis
  proof cases
    case 5
    let ?s = "swapAndFlushLocked b"
    let ?b1 = "?s\<lparr>writeCursor := minOffset ?s, ab_generation := ab_generation ?s + 1\<rparr>"
    have z: "bufferPos ?s (activeIdx ?s) = 0" using 5 by (intro swap_empties) auto
    have i1: "agg_inv ?b1" by (rule agg_inv_wrap [OF swap_inv [OF i] z])
    have f1: "fits data ?b1" using f by (simp add: fits_def swap_fields)
    have c1: "maxOffset ?b1 \<le> 0 \<or> writeCursor ?b1 + int (length data) \<le> maxOffset ?b1"
      using f True by (auto simp: fits_def swap_fields)
    have l1: "length data \<le> AggBufferSize" "0 < length data" using f by (auto simp: fits_def)
    obtain b' r where r: "add_loop ctx data writer ?b1 = Some (b', r)"
      "add_good data writer (writeCursor ?b1) (ab_generation ?b1) (ab_sequence ?b1) b' r"
      using add_loop_room [OF i1 f1 c1] by blast
    have nw: "r \<noteq> Wait"
      using r(1) 5 c1 z l1 by (subst (asm) add_loop.simps) (auto simp: swap_fields split: prod.splits)
    have "add_loop ctx data writer b = Some (b', r)" using 5 True r(1) by (subst add_loop.simps) (simp add: Let_def)
    then show ?thesis
      using r(2) nw c1 True by (intro exI [of _ b'] exI [of _ r] exI [of _ "minOffset b"] exI [of _ "ab_generation b + 1"]) (auto simp: swap_fields)
  qed (use i True in \<open>(subst add_loop.simps, auto simp: add_good_def)+\<close>)
qed

section \<open>Properties\<close>

lemma swap_keeps:
  "bufferPos (swapAndFlushLocked c) (activeIdx c) = bufferPos c (activeIdx c)" "buffers (swapAndFlushLocked c) = buffers c"
  "bufferStart (swapAndFlushLocked c) = bufferStart c"
  "activeIdx (swapAndFlushLocked c) = activeIdx c \<or>
     isFlushing (swapAndFlushLocked c) \<and> bufferPos (swapAndFlushLocked c) (activeIdx (swapAndFlushLocked c)) = 0"
  by (simp_all add: swapAndFlushLocked_def Let_def)

lemma place_readback:
  assumes i: "agg_inv b" and l: "0 < length data" and p: "place data writer b = (b', a)"
  shows "al_offset a = writeCursor b" "al_sequence a = ab_sequence b + 1" "al_generation a = ab_generation b"
    "in_buffer (writeCursor b) (activeIdx b) b'"
    "take (length data) (drop (nat (writeCursor b - bufferStart b' (activeIdx b))) (take (bufferPos b' (activeIdx b)) (buffers b' (activeIdx b)))) = data"
    "activeIdx b' \<noteq> activeIdx b \<Longrightarrow> bufferPos b' (activeIdx b') = 0"
proof -
  define r where "r = put_record data writer b"
  define c where "c = r\<lparr>writeCursor := writeCursor r + int (length data)\<rparr>"
  note F = put_record_fields [OF r_def]
  have p': "a = \<lparr>al_offset = writeCursor r, al_generation = ab_generation r, al_sequence = ab_sequence r\<rparr>"
    "b' = c \<or> b' = swapAndFlushLocked c"
    using p by (auto simp: place_def Let_def r_def c_def)
  show "al_offset a = writeCursor b" "al_sequence a = ab_sequence b + 1" "al_generation a = ab_generation b" by (simp_all add: p' F)
  have ca: "activeIdx c = activeIdx b" by (simp add: c_def F)
  have eq: "bufferPos b' (activeIdx b) = bufferPos c (activeIdx b)" "buffers b' = buffers c" "bufferStart b' = bufferStart c"
    "activeIdx b' = activeIdx b \<or> isFlushing b' \<and> bufferPos b' (activeIdx b') = 0"
    using p'(2) swap_keeps [of c, unfolded ca] ca by auto
  have st: "bufferStart b' (activeIdx b) = writeCursor b - int (bufferPos b (activeIdx b))"
    using i by (auto simp: eq(3) c_def F agg_inv_def)
  have po: "bufferPos b' (activeIdx b) = bufferPos b (activeIdx b) + length data" by (simp add: eq(1) c_def F)
  have bu: "buffers b' (activeIdx b) = take (bufferPos b (activeIdx b)) (buffers b (activeIdx b)) @ data" by (simp add: eq(2) c_def F)
  show "activeIdx b' \<noteq> activeIdx b \<Longrightarrow> bufferPos b' (activeIdx b') = 0" using eq(4) by blast
  show "in_buffer (writeCursor b) (activeIdx b) b'" unfolding in_buffer_def st po using eq(4) l by auto
  have "bufferPos b (activeIdx b) \<le> length (buffers b (activeIdx b))" using i by (simp add: agg_inv_def)
  then show "take (length data) (drop (nat (writeCursor b - bufferStart b' (activeIdx b))) (take (bufferPos b' (activeIdx b)) (buffers b' (activeIdx b)))) = data"
    unfolding st po bu by simp
qed

lemma CopyFrom_readback:
  assumes "in_buffer o' i b" "activeIdx b \<noteq> i \<Longrightarrow> bufferPos b (activeIdx b) = 0"
  shows "CopyFrom o' n b = take n (drop (nat (o' - bufferStart b i)) (take (bufferPos b i) (buffers b i)))" "DirAggBufValid o' b"
proof -
  have "activeIdx b = i \<or> \<not> in_buffer o' (activeIdx b) b \<and> i = (\<not> activeIdx b)"
    using assms(2) by (cases "activeIdx b = i") (auto simp: in_buffer_def)
  then show "CopyFrom o' n b = take n (drop (nat (o' - bufferStart b i)) (take (bufferPos b i) (buffers b i)))" "DirAggBufValid o' b"
    using assms(1) by (auto simp: CopyFrom_def DirAggBufValid_def Let_def)
qed


definition small_agg :: "nat AggregateWriteBuffer" where
  "small_agg = SetBounds 100 110 (NewAggregateWriteBuffer)"

lemma small_agg_inv: "agg_inv small_agg"
  by (simp add: small_agg_def SetBounds_def NewAggregateWriteBuffer_def agg_inv_def)

lemma small_agg_add: "\<exists>b' a. addContext None [1, 2, 3] (Some 7) small_agg = Some (b', Added a) \<and> al_offset a = 100"
  by (simp add: addContext_def fits_def small_agg_def SetBounds_def NewAggregateWriteBuffer_def AggBufferSize_def
      add_loop.simps place_def put_record_def AggHighWaterMark_def Let_def)


text \<open>C30. Adding never spins. From a consistent buffer \<^verbatim>\<open>Add\<close> either returns or waits, and it waits only while the
  disk worker owns a buffer, whose completion wakes it.\<close>

theorem agg_add_returns:
  assumes "agg_inv b"
  shows "\<exists>b' r. addContext ctx data writer b = Some (b', r) \<and> agg_inv b' \<and> (r = Wait \<longrightarrow> isFlushing b)"
proof (cases "fits data b")
  case True
  then show ?thesis using add_loop_ok [OF assms True, of ctx writer] unfolding addContext_def add_good_def by auto
next
  case False
  then show ?thesis using assms by (simp add: addContext_def)
qed

theorem agg_add_returns_witness:
  "\<exists>b' r. addContext None [1, 2, 3] (Some 7) small_agg = Some (b', r) \<and> agg_inv b' \<and> (r = Wait \<longrightarrow> isFlushing small_agg)"
  by (rule agg_add_returns [OF small_agg_inv])

lemma notify_ok:
  assumes "agg_inv b" "ab_err b = None"
  shows "agg_inv (fst (NotifyFlushDone None b))" "ab_err (fst (NotifyFlushDone None b)) = None" "\<not> isFlushing (fst (NotifyFlushDone None b))"
    "ab_sequence (fst (NotifyFlushDone None b)) = ab_sequence b"
    "bufferPos (fst (NotifyFlushDone None b)) = bufferPos b" "activeIdx (fst (NotifyFlushDone None b)) = activeIdx b"
  using assms by (auto simp: NotifyFlushDone_def agg_inv_def Let_def)

lemma flush_idle:
  assumes "agg_inv b" "ab_err b = None" "\<not> isFlushing b"
  shows "ab_completed (fst (NotifyFlushDone None (swapAndFlushLocked b))) = ab_sequence b"
  using assms by (auto simp: NotifyFlushDone_def swapAndFlushLocked_def agg_inv_def Let_def)

text \<open>C24. A flush completes everything that was added before it. If the disk reports success, then after at most
  two completions every round of \<^verbatim>\<open>FlushContext\<close> for the additions made so far returns success: one
  completion for a buffer the worker already owns and one for the buffer that was still filling.\<close>

theorem agg_flush_completes:
  assumes "agg_inv b" and "ab_err b = None"
  shows "let b1 = fst (NotifyFlushDone None (fst (FlushContext None b)));
             b2 = fst (NotifyFlushDone None (fst (flushThrough None (ab_sequence b) b1)))
         in snd (flushThrough None (ab_sequence b) b2) = Flushed"
proof -
  let ?f = "fst (FlushContext None b)"
  let ?b1 = "fst (NotifyFlushDone None ?f)"
  have f: "?f = b \<or> ?f = swapAndFlushLocked b" using assms(2) by (auto simp: FlushContext_def flushThrough_def)
  then have i: "agg_inv ?f" "ab_err ?f = None" "ab_sequence ?f = ab_sequence b"
    using assms swap_inv [OF assms(1)] by (auto simp: swap_fields)
  note N = notify_ok [OF i(1,2)]
  let ?g = "fst (flushThrough None (ab_sequence b) ?b1)"
  let ?b2 = "fst (NotifyFlushDone None ?g)"
  have "ab_err ?b2 = None \<and> ab_completed ?b2 \<ge> ab_sequence b"
  proof (cases "ab_completed ?b1 \<ge> ab_sequence b")
    case True
    then have "?g = ?b1" using N(2) by (simp add: flushThrough_def)
    then show ?thesis using True N(2,3) by (simp add: NotifyFlushDone_def Let_def)
  next
    case False
    then have "?g = swapAndFlushLocked ?b1" using N(2) by (simp add: flushThrough_def)
    moreover have "ab_err (fst (NotifyFlushDone None (swapAndFlushLocked ?b1))) = None"
      using notify_ok(2) [OF swap_inv [OF N(1)]] N(2) by (simp add: swap_fields)
    ultimately show ?thesis using flush_idle [OF N(1-3)] N(4) i(3) by simp
  qed
  then show ?thesis by (simp add: Let_def flushThrough_def)
qed

theorem agg_flush_completes_witness:
  "let b1 = fst (NotifyFlushDone None (fst (FlushContext None small_agg)));
       b2 = fst (NotifyFlushDone None (fst (flushThrough None (ab_sequence small_agg) b1)))
   in snd (flushThrough None (ab_sequence small_agg) b2) = Flushed"
  by (rule agg_flush_completes [OF small_agg_inv])
    (simp add: small_agg_def SetBounds_def NewAggregateWriteBuffer_def)



end
