(* ===== verification/Stripe.thy ===== *)
theory Stripe
  imports Dir_Manager Evacuation Agg_Buffer Doc_Format
begin

text \<open>
  The stripe (\<^verbatim>\<open>cache/stripe.go\<close>): a region of a file written as a circular log. The disk worker writes the buffers of the
  aggregation buffer in order; a directory entry or an allocation is valid while the write position has not passed it again.
  \<^verbatim>\<open>handleFlushTask\<close> releases the lock while it writes, so it is two steps with a disk write in between, and the states
  in between are observable. The outcome of the write is a parameter.
\<close>

section \<open>The file\<close>

record disk =
  dk_byte :: "int \<Rightarrow> u8"
  dk_size :: int

definition disk_write :: "int \<Rightarrow> bytes \<Rightarrow> disk \<Rightarrow> disk" where
  "disk_write off data d =
     \<lparr>dk_byte = (\<lambda>i. if off \<le> i \<and> i < off + int (length data) then data ! nat (i - off) else dk_byte d i),
      dk_size = max (dk_size d) (off + int (length data))\<rparr>"

definition disk_read :: "int \<Rightarrow> nat \<Rightarrow> disk \<Rightarrow> bytes result" where
  "disk_read off n d =
     (if off + int n \<le> dk_size d then Inr (map (\<lambda>i. dk_byte d (off + int i)) [0..<n]) else Inl ErrEOF)"

text \<open>\<^verbatim>\<open>WriteAt\<close> reports how many bytes it wrote and an error; only these bytes reach the file.\<close>

definition writeFullAt :: "nat \<times> go_err option \<Rightarrow> bytes \<Rightarrow> int \<Rightarrow> disk \<Rightarrow> disk \<times> go_err option" where
  "writeFullAt outcome p off d =
     (case outcome of (n, err) \<Rightarrow>
        (disk_write off (take n p) d, if err = None \<and> n \<noteq> length p then Some (Err ''short write'') else err))"

section \<open>State\<close>

record Stripe =
  st_DirMgr :: DirManager
  st_EvacMgr :: EvacuationTable
  st_disk :: "disk option"
  st_Start :: int
  st_Len :: int
  st_Skip :: int
  st_WritePos :: int
  st_Phase :: bool
  st_writingStart :: int
  st_writingEnd :: int
  st_writingGeneration :: nat
  st_generation :: nat
  st_storageErr :: "go_err option"
  st_closing :: bool
  st_hitEvacuateWindow :: int
  st_invalidation :: nat

definition phase_of :: "nat \<Rightarrow> bool" where "phase_of g \<longleftrightarrow> g mod 2 \<noteq> 0"

definition recomputeHitEvacuateWindow :: "Stripe \<Rightarrow> Stripe" where
  "recomputeHitEvacuateWindow s =
     (let w = go_div (st_Skip s + st_Len s - st_Start s) 10 in s\<lparr>st_hitEvacuateWindow := (if w < 10 * 2 ^ 20 then 10 * 2 ^ 20 else w)\<rparr>)"

text \<open>\<open>Init\<close> returns the positioned stripe; the aggregation buffer gets \<open>Start\<close> and the end of the stripe as its bounds.\<close>

definition stripe_Init :: "Stripe \<Rightarrow> Stripe result option" where
  "stripe_Init s =
     (if st_Skip s < 0 \<or> st_Len s < 32768 \<or> i64 (st_Skip s + st_Len s) < st_Skip s then Some (Inl (Err ''invalid stripe bounds''))
      else do {
        (dm, _) \<leftarrow> dm_Init (nat (st_Len s) div 8192);
        let meta = int (StripeHeaderSize + BinarySize dm);
        let meta = (meta + int SectorSize - 1) div int SectorSize * int SectorSize;
        let s = s\<lparr>st_DirMgr := dm, st_Start := st_Skip s + meta\<rparr>;
        Some (if st_Start s \<ge> st_Skip s + st_Len s then Inl (Err ''stripe has no data area'')
              else Inr (recomputeHitEvacuateWindow (s\<lparr>st_WritePos := st_Start s\<rparr>)))
      })"

definition failLocked :: "go_err option \<Rightarrow> Stripe \<Rightarrow> Stripe" where
  "failLocked err s = (if err \<noteq> None \<and> st_storageErr s = None then s\<lparr>st_storageErr := err\<rparr> else s)"

definition writeError :: "Stripe \<Rightarrow> go_err option" where
  "writeError s = (case st_storageErr s of Some e \<Rightarrow> Some e | None \<Rightarrow> if st_closing s \<or> st_disk s = None then Some ErrCacheClosed else None)"

definition allocationValid :: "allocation \<Rightarrow> nat \<Rightarrow> Stripe \<Rightarrow> bool" where
  "allocationValid a sz s =
     (if st_writingEnd s > 0 \<and> al_generation a \<noteq> st_writingGeneration s \<and> al_offset a < st_writingEnd s \<and>
         al_offset a + int sz > st_writingStart s then False
      else if al_offset a < st_Start s \<or> al_offset a + int sz > st_Skip s + st_Len s then False
      else al_generation a = st_generation s \<and> al_offset a + int sz \<le> st_WritePos s \<or>
           al_generation a + 1 = st_generation s \<and> al_offset a \<ge> st_WritePos s)"

definition dirValid :: "Dir \<Rightarrow> Stripe \<Rightarrow> bool" where
  "dirValid d s =
     (let off = uint (dir_offset d) in
      if st_writingEnd s > 0 \<and> dir_phase d \<noteq> phase_of (st_writingGeneration s) \<and> off < st_writingEnd s \<and>
         off + uint (dir_approxSize d) > st_writingStart s then False
      else if st_storageErr s \<noteq> None \<or> st_disk s = None \<or> off < st_Start s \<or> off \<ge> st_Skip s + st_Len s then False
      else if dir_phase d = st_Phase s then off < st_WritePos s else off \<ge> st_WritePos s)"

definition withinHitEvacuateWindow :: "int \<Rightarrow> Stripe \<Rightarrow> bool" where
  "withinHitEvacuateWindow off s =
     (let distance = off - st_WritePos s;
          distance = (if distance < 0 then distance + (st_Skip s + st_Len s - st_Start s) else distance)
      in distance < st_hitEvacuateWindow s)"

section \<open>Evacuation of what is about to be overwritten\<close>

record evacuationRecord =
  er_key :: bytes
  er_data :: bytes
  er_old :: Dir
  er_generation :: nat
  er_invalidation :: nat

definition evac_one :: "int \<Rightarrow> int \<Rightarrow> Stripe \<Rightarrow> EvacuationBlock \<Rightarrow> evacuationRecord list \<times> nat \<Rightarrow> evacuationRecord list \<times> nat" where
  "evac_one start stop s e acc =
     (case acc of (result, taken) \<Rightarrow>
      case dm_Get (st_DirMgr s) (eb_LogicalKey e) of (hit, _, d) \<Rightarrow>
      if \<not> hit \<or> uint (dir_offset d) \<noteq> eb_Offset e \<or> \<not> dirValid d s then acc
      else case st_disk s of None \<Rightarrow> acc | Some dk \<Rightarrow>
      case disk_read (eb_Offset e) DocHeaderSize dk of Inl _ \<Rightarrow> acc | Inr hdr \<Rightarrow>
      case doc_UnmarshalBinary hdr of Inl _ \<Rightarrow> acc | Inr doc \<Rightarrow>
      if d_Magic doc \<noteq> DocMagic \<or> d_VMajor doc \<noteq> docIdentityVersion \<or> d_Key doc \<noteq> eb_Key e then acc
      else let sz = unat (d_Len doc) in
      if sz < DocHeaderSize \<or> sz > AggBufferSize \<or> unat (d_HLen doc) > sz - DocHeaderSize \<or> eb_Offset e + int sz > st_Skip s + st_Len s \<or>
         taken + sz > AggBufferSize \<or> int sz + stop - start > st_Skip s + st_Len s - st_Start s then acc
      else case disk_read (eb_Offset e) sz dk of Inl _ \<Rightarrow> acc | Inr data \<Rightarrow>
      if doc_validate doc data \<noteq> Inr () \<or> int (unat (d_TotalLen doc)) > st_Skip s + st_Len s - st_Start s then acc
      else if dir_phase d \<noteq> st_Phase s \<and> st_generation s = 0 then acc
      else let gen = (if dir_phase d \<noteq> st_Phase s then st_generation s - 1 else st_generation s) in
      (result @ [\<lparr>er_key = eb_LogicalKey e, er_data = data, er_old = d, er_generation = gen, er_invalidation = st_invalidation s\<rparr>], taken + sz))"

definition collectEvacuationData :: "int \<Rightarrow> int \<Rightarrow> Stripe \<Rightarrow> Stripe \<times> evacuationRecord list" where
  "collectEvacuationData start stop s =
     (case GetCandidatesInRange start stop (st_EvacMgr s) of (et, es) \<Rightarrow>
        (s\<lparr>st_EvacMgr := et\<rparr>, fst (fold (evac_one start stop s) es ([], 0))))"

section \<open>Writing a buffer\<close>

abbreviation task_end :: "'w FlushTask \<Rightarrow> int" where "task_end t \<equiv> ft_Offset t + int (length (ft_Buffer t))"

text \<open>The part under the lock before the write: \<open>Inl\<close> is the error that skips it.\<close>

definition flush_begin :: "'w FlushTask \<Rightarrow> Stripe \<Rightarrow> (Stripe \<times> evacuationRecord list) result option" where
  "flush_begin task s =
     (case st_storageErr s of Some e \<Rightarrow> Some (Inl e) | None \<Rightarrow>
        if ft_Offset task < st_Start s \<or> task_end task > st_Skip s + st_Len s then Some (Inl (Err ''flush outside stripe data area''))
        else let (s, victims) = collectEvacuationData (ft_Offset task) (task_end task) s in
        do {
          dm \<leftarrow> (if ft_Generation task \<noteq> st_generation s then removePhase (phase_of (ft_Generation task)) (st_DirMgr s) else Some (st_DirMgr s));
          Some (Inr (s\<lparr>st_DirMgr := dm, st_writingStart := ft_Offset task, st_writingEnd := task_end task,
                       st_writingGeneration := ft_Generation task\<rparr>, victims))
        })"

text \<open>The part under the lock after the write.\<close>

definition flush_end :: "'w FlushTask \<Rightarrow> go_err option \<Rightarrow> Stripe \<Rightarrow> Stripe" where
  "flush_end task err s =
     (let s = s\<lparr>st_writingStart := 0, st_writingEnd := 0\<rparr> in
      if err = None then s\<lparr>st_WritePos := task_end task, st_generation := ft_Generation task, st_Phase := phase_of (ft_Generation task)\<rparr>
      else failLocked err s)"

definition handleFlushTask :: "nat \<times> go_err option \<Rightarrow> 'w FlushTask \<Rightarrow> Stripe \<Rightarrow>
    (Stripe \<times> evacuationRecord list \<times> ('w \<times> go_err option) list) option" where
  "handleFlushTask outcome task s = do {
     r \<leftarrow> flush_begin task s;
     case r of
       Inl e \<Rightarrow> Some (failLocked (Some e) s, [], map (\<lambda>w. (w, Some e)) (ft_Writers task))
     | Inr (s, victims) \<Rightarrow> do {
         dk \<leftarrow> st_disk s;
         let (dk, err) = writeFullAt outcome (ft_Buffer task) (ft_Offset task) dk in
         Some (flush_end task err (s\<lparr>st_disk := Some dk\<rparr>), if err = None then victims else [], map (\<lambda>w. (w, err)) (ft_Writers task))
       }
   }"

section \<open>Publishing an evacuated record\<close>

text \<open>The locked section of \<^verbatim>\<open>evacuate\<close> for a record that was added and flushed at \<open>a\<close>. The flag says that the RAM copy is
  replaced as well.\<close>

definition evac_publish :: "(nat \<Rightarrow> nat) \<Rightarrow> evacuationRecord \<Rightarrow> allocation \<Rightarrow> Stripe \<Rightarrow> (Stripe \<times> bool) option" where
  "evac_publish rnd v a s =
     (case dm_Get (st_DirMgr s) (er_key v) of (hit, _, current) \<Rightarrow>
        if \<not> st_closing s \<and> st_storageErr s = None \<and> er_invalidation v = st_invalidation s \<and> hit \<and>
           dir_offset current = dir_offset (er_old v) \<and> dir_phase current = dir_phase (er_old v) \<and>
           er_generation v + 1 \<ge> st_generation s \<and> allocationValid a (length (er_data v)) s
        then (case dm_Set rnd (er_key v) (nat (al_offset a)) (int (length (er_data v))) (phase_of (al_generation a)) (st_DirMgr s) of
                None \<Rightarrow> None | Some (dm, _) \<Rightarrow> Some (s\<lparr>st_DirMgr := dm\<rparr>, True))
        else Some (s, False))"


section \<open>The log\<close>

text \<open>The buffers reach the disk in the order in which the aggregation buffer places them: each one follows the write position, or
  starts the next generation at the beginning of the data area. A state has the stripe, the tasks written so far (latest
  first), and the task whose write is in progress.\<close>

definition continues :: "'w FlushTask \<Rightarrow> Stripe \<Rightarrow> bool" where
  "continues t s \<longleftrightarrow> ft_Offset t = st_WritePos s \<and> ft_Generation t = st_generation s \<or>
     ft_Offset t = st_Start s \<and> ft_Generation t = st_generation s + 1"

definition fresh_stripe :: "Stripe \<Rightarrow> bool" where
  "fresh_stripe s \<longleftrightarrow> 0 < st_Start s \<and> st_WritePos s = st_Start s \<and> st_Start s \<le> st_Skip s + st_Len s \<and> st_writingEnd s = 0 \<and> st_disk s \<noteq> None"

inductive log_reach :: "Stripe \<Rightarrow> 'w FlushTask list \<Rightarrow> 'w FlushTask option \<Rightarrow> bool" where
  start: "fresh_stripe s \<Longrightarrow> log_reach s [] None"
| begin_write: "log_reach s hist None \<Longrightarrow> continues t s \<Longrightarrow> flush_begin t s = Some (Inr (s', victims)) \<Longrightarrow> log_reach s' hist (Some t)"
| end_write: "log_reach s hist (Some t) \<Longrightarrow> st_disk s = Some dk \<Longrightarrow> writeFullAt outcome (ft_Buffer t) (ft_Offset t) dk = (dk', None) \<Longrightarrow>
    log_reach (flush_end t None (s\<lparr>st_disk := Some dk'\<rparr>)) (t # hist) None"
| fail_write: "log_reach s hist (Some t) \<Longrightarrow> st_disk s = Some dk \<Longrightarrow> writeFullAt outcome (ft_Buffer t) (ft_Offset t) dk = (dk', Some e) \<Longrightarrow>
    log_reach (flush_end t (Some e) (s\<lparr>st_disk := Some dk'\<rparr>)) hist None"

definition covered :: "'w FlushTask \<Rightarrow> int \<Rightarrow> bool" where
  "covered t i \<longleftrightarrow> ft_Offset t \<le> i \<and> i < task_end t"

text \<open>The byte that the latest task covering a position wrote there.\<close>

primrec log_byte :: "'w FlushTask list \<Rightarrow> int \<Rightarrow> u8 option" where
  "log_byte [] i = None"
| "log_byte (t # ts) i = (if covered t i then Some (ft_Buffer t ! nat (i - ft_Offset t)) else log_byte ts i)"

definition in_order :: "'w FlushTask \<Rightarrow> 'w FlushTask \<Rightarrow> bool" where
  "in_order u t \<longleftrightarrow> ft_Generation t < ft_Generation u \<or> ft_Generation t = ft_Generation u \<and> task_end t \<le> ft_Offset u"

definition hist_ok :: "Stripe \<Rightarrow> 'w FlushTask list \<Rightarrow> bool" where
  "hist_ok s hist \<longleftrightarrow> 0 < st_Start s \<and> st_Start s \<le> st_WritePos s \<and> sorted_wrt in_order hist \<and>
     (\<forall>t\<in>set hist. st_Start s \<le> ft_Offset t \<and> ft_Generation t \<le> st_generation s \<and> (ft_Generation t = st_generation s \<longrightarrow> task_end t \<le> st_WritePos s))"

definition disk_ok :: "Stripe \<Rightarrow> 'w FlushTask list \<Rightarrow> bool" where
  "disk_ok s hist \<longleftrightarrow> (\<exists>dk. st_disk s = Some dk \<and> (\<forall>i b. log_byte hist i = Some b \<longrightarrow> dk_byte dk i = b))"

definition cur_ok :: "Stripe \<Rightarrow> 'w FlushTask option \<Rightarrow> bool" where
  "cur_ok s cur = (case cur of None \<Rightarrow> st_writingEnd s = 0
     | Some t \<Rightarrow> st_writingStart s = ft_Offset t \<and> st_writingEnd s = task_end t \<and> st_writingGeneration s = ft_Generation t \<and> continues t s \<and> st_Start s \<le> ft_Offset t)"

lemma flush_begin_fields:
  assumes "flush_begin t s = Some (Inr (s', victims))"
  shows "st_Start s' = st_Start s \<and> st_WritePos s' = st_WritePos s \<and> st_generation s' = st_generation s \<and> st_disk s' = st_disk s \<and>
    st_storageErr s' = None \<and> st_storageErr s = None \<and> st_Skip s' = st_Skip s \<and> st_Len s' = st_Len s \<and>
    st_writingStart s' = ft_Offset t \<and> st_writingEnd s' = task_end t \<and> st_writingGeneration s' = ft_Generation t \<and> st_Start s \<le> ft_Offset t"
  using assms by (auto simp: flush_begin_def collectEvacuationData_def Let_def split: option.splits if_splits prod.splits bind_splits)

lemma flush_end_fields:
  "st_Start (flush_end t err s) = st_Start s" "st_disk (flush_end t err s) = st_disk s" "st_writingEnd (flush_end t err s) = 0"
  "err = None \<Longrightarrow> st_WritePos (flush_end t err s) = task_end t" "err = None \<Longrightarrow> st_generation (flush_end t err s) = ft_Generation t"
  "err = None \<Longrightarrow> st_storageErr (flush_end t err s) = st_storageErr s" "err \<noteq> None \<Longrightarrow> st_storageErr (flush_end t err s) \<noteq> None"
  by (auto simp: flush_end_def failLocked_def Let_def)

lemma write_complete:
  assumes "writeFullAt outcome p off dk = (dk', None)"
  shows "dk' = disk_write off p dk"
  using assms by (auto simp: writeFullAt_def split: prod.splits if_splits)

lemma disk_ok_write:
  assumes "disk_ok s hist" "st_disk s = Some dk"
  shows "disk_ok (flush_end t None (s\<lparr>st_disk := Some (disk_write (ft_Offset t) (ft_Buffer t) dk)\<rparr>)) (t # hist)"
  using assms by (auto simp: disk_ok_def flush_end_fields disk_write_def covered_def split: if_splits)

lemma hist_ok_cons:
  assumes "hist_ok s hist" "continues t s" "st_Start s \<le> ft_Offset t"
  shows "hist_ok (flush_end t None (s\<lparr>st_disk := x\<rparr>)) (t # hist)"
proof -
  have ord: "in_order t u" if "u \<in> set hist" for u
    using assms(1,2) that unfolding hist_ok_def continues_def in_order_def by fastforce
  have gen: "ft_Generation u \<le> ft_Generation t \<and> (ft_Generation u = ft_Generation t \<longrightarrow> task_end u \<le> task_end t) \<and> st_Start s \<le> ft_Offset u"
    if "u \<in> set hist" for u
  proof -
    have "st_Start s \<le> ft_Offset u" using assms(1) that by (simp add: hist_ok_def)
    then show ?thesis using ord [OF that] unfolding in_order_def by auto
  qed
  have "sorted_wrt in_order hist" "0 < st_Start s" using assms(1) by (simp_all add: hist_ok_def)
  then show ?thesis using ord gen assms(3) by (auto simp: hist_ok_def flush_end_fields)
qed

lemma log_reach_ok: "log_reach s hist cur \<Longrightarrow> st_storageErr s = None \<Longrightarrow> hist_ok s hist \<and> disk_ok s hist \<and> cur_ok s cur"
proof (induction rule: log_reach.induct)
  case (start s)
  then show ?case by (auto simp: fresh_stripe_def hist_ok_def disk_ok_def cur_ok_def)
next
  case (begin_write s hist t s' victims)
  have f: "st_storageErr s = None" using flush_begin_fields [OF begin_write.hyps(3)] by simp
  then have "hist_ok s hist" "disk_ok s hist" using begin_write.IH by simp_all
  then have "hist_ok s' hist" "disk_ok s' hist" using flush_begin_fields [OF begin_write.hyps(3)] by (simp_all add: hist_ok_def disk_ok_def)
  moreover have "cur_ok s' (Some t)"
    using flush_begin_fields [OF begin_write.hyps(3)] begin_write.hyps(2) by (simp add: cur_ok_def continues_def)
  ultimately show ?case by simp
next
  case (end_write s hist t dk outcome dk')
  have e: "st_storageErr s = None" using end_write.prems by (simp add: flush_end_fields)
  have i: "hist_ok s hist" "disk_ok s hist" "cur_ok s (Some t)" using end_write.IH e by simp_all
  have d: "dk' = disk_write (ft_Offset t) (ft_Buffer t) dk" using write_complete [OF end_write.hyps(3)] .
  have "continues t s" "st_Start s \<le> ft_Offset t" using i(3) by (simp_all add: cur_ok_def)
  then show ?case using hist_ok_cons [OF i(1), of t] disk_ok_write [OF i(2) end_write.hyps(2), of t] d by (simp add: cur_ok_def flush_end_fields)
next
  case (fail_write s hist t dk outcome dk' e)
  then show ?case using flush_end_fields(7) [of "Some e" t "s\<lparr>st_disk := Some dk'\<rparr>"] by simp
qed

lemma log_byte_skip: "(\<And>u. u \<in> set later \<Longrightarrow> \<not> covered u i) \<Longrightarrow> log_byte (later @ ts) i = log_byte ts i"
  by (induction later) auto

text \<open>C2. A valid allocation still holds its record. Whatever has been written since, and while a write is in progress, if the
  stripe has not failed and calls an allocation inside a written buffer valid, then its bytes on disk are those of the
  buffer, and no write in progress touches them.\<close>

theorem valid_allocation_intact:
  assumes "log_reach s hist cur" "st_storageErr s = None" "t \<in> set hist" "ft_Generation t = al_generation a" "0 < sz"
    "ft_Offset t \<le> al_offset a" "al_offset a + int sz \<le> task_end t" "allocationValid a sz s"
  shows "(\<exists>dk. st_disk s = Some dk \<and> (\<forall>i < sz. dk_byte dk (al_offset a + int i) = ft_Buffer t ! nat (al_offset a - ft_Offset t + int i))) \<and>
    (\<forall>u. cur = Some u \<longrightarrow> al_offset a + int sz \<le> ft_Offset u \<or> task_end u \<le> al_offset a)"
proof -
  have k: "hist_ok s hist" "disk_ok s hist" "cur_ok s cur" using log_reach_ok [OF assms(1,2)] by auto
  have v: "al_generation a = st_generation s \<and> al_offset a + int sz \<le> st_WritePos s \<or> al_generation a + 1 = st_generation s \<and> st_WritePos s \<le> al_offset a"
    using assms(8) by (simp add: allocationValid_def split: if_splits)
  obtain later earlier where h: "hist = later @ t # earlier" using split_list [OF assms(3)] by blast
  have clear: "al_offset a + int sz \<le> ft_Offset u \<or> task_end u \<le> al_offset a" if u: "u \<in> set later" for u
  proof -
    have o: "in_order u t" using k(1) u by (auto simp: hist_ok_def h sorted_wrt_append)
    have g: "ft_Generation u \<le> st_generation s" "ft_Generation u = st_generation s \<longrightarrow> task_end u \<le> st_WritePos s"
      using k(1) u by (auto simp: hist_ok_def h)
    show ?thesis using o g v assms(4,7) unfolding in_order_def by linarith
  qed
  have "log_byte hist (al_offset a + int i) = Some (ft_Buffer t ! nat (al_offset a - ft_Offset t + int i))" if less: "i < sz" for i
  proof -
    have "\<not> covered u (al_offset a + int i)" if "u \<in> set later" for u using clear [OF that] less by (auto simp: covered_def)
    moreover have "covered t (al_offset a + int i)" using assms(6,7) less by (simp add: covered_def)
    ultimately show ?thesis unfolding h by (simp add: log_byte_skip algebra_simps)
  qed
  then have "\<exists>dk. st_disk s = Some dk \<and> (\<forall>i < sz. dk_byte dk (al_offset a + int i) = ft_Buffer t ! nat (al_offset a - ft_Offset t + int i))"
    using k(2) unfolding disk_ok_def by blast
  moreover have "al_offset a + int sz \<le> ft_Offset u \<or> task_end u \<le> al_offset a" if "cur = Some u" for u
  proof (cases "al_generation a = ft_Generation u")
    case True
    have "continues u s" using k(3) that by (simp add: cur_ok_def)
    then show ?thesis using v True unfolding continues_def by linarith
  next
    case False
    have "0 < st_Start s" "st_Start s \<le> ft_Offset u" using k(1,3) that by (simp_all add: hist_ok_def cur_ok_def)
    then show ?thesis using assms(8) False k(3) that by (auto simp: allocationValid_def cur_ok_def split: if_splits)
  qed
  ultimately show ?thesis by blast
qed


lemma no_candidates: "GetCandidatesInRange start stop [] = ([], [])"
proof -
  have "take_bucket start stop i [] = ([], [])" for i by (simp add: take_bucket_def bucket_of_def Let_def)
  then have "fold (\<lambda>i (et, acc). let (et, r) = take_bucket start stop i et in (et, acc @ r)) is ([], []) = ([], [])" for "is"
    by (induction "is") simp_all
  then show ?thesis by (simp add: GetCandidatesInRange_def)
qed

definition sample_stripe :: Stripe where
  "sample_stripe = \<lparr>st_DirMgr = \<lparr>FragmentsNum = 0, SegmentsNum = 0, BucketsNum = 0, BucketsNumPerSegment = 0, Dirs = [], DirFreeStart = [],
     identities = [], dm_trie = NewDirTrie []\<rparr>, st_EvacMgr = [], st_disk = Some \<lparr>dk_byte = (\<lambda>_. 0), dk_size = 1000\<rparr>, st_Start = 100, st_Len = 1000,
     st_Skip = 0, st_WritePos = 100, st_Phase = False, st_writingStart = 0, st_writingEnd = 0, st_writingGeneration = 0, st_generation = 2,
     st_storageErr = None, st_closing = False, st_hitEvacuateWindow = 0, st_invalidation = 0\<rparr>"

definition sample_task :: "nat FlushTask" where
  "sample_task = \<lparr>ft_Buffer = [1, 2, 3], ft_Writers = [], ft_Offset = 100, ft_Generation = 2\<rparr>"

lemma sample_log: "\<exists>s. log_reach s [sample_task] None \<and> st_storageErr s = None \<and> st_generation s = 2 \<and> st_WritePos s = 103 \<and>
    allocationValid \<lparr>al_offset = 101, al_generation = 2, al_sequence = 1\<rparr> 2 s"
proof -
  let ?s = "sample_stripe\<lparr>st_writingStart := 100, st_writingEnd := 103, st_writingGeneration := 2\<rparr>"
  let ?d = "\<lparr>dk_byte = (\<lambda>_. 0), dk_size = 1000\<rparr>"
  let ?e = "flush_end sample_task None (?s\<lparr>st_disk := Some (disk_write 100 [1, 2, 3] ?d)\<rparr>)"
  have 0: "log_reach sample_stripe [] None" by (rule log_reach.start) (simp add: fresh_stripe_def sample_stripe_def)
  have c: "continues sample_task sample_stripe" by (simp add: continues_def sample_task_def sample_stripe_def)
  have f: "flush_begin sample_task sample_stripe = Some (Inr (?s, []))"
    by (simp add: flush_begin_def collectEvacuationData_def sample_task_def sample_stripe_def no_candidates)
  have w: "writeFullAt (3, None) (ft_Buffer sample_task) (ft_Offset sample_task) ?d = (disk_write 100 [1, 2, 3] ?d, None)"
    by (simp add: writeFullAt_def sample_task_def)
  have "st_disk ?s = Some ?d" by (simp add: sample_stripe_def)
  then have r: "log_reach ?e [sample_task] None" using log_reach.end_write [OF log_reach.begin_write [OF 0 c f] _ w] by blast
  show ?thesis
    by (rule exI [of _ ?e]) (use r in \<open>simp add: flush_end_def sample_task_def sample_stripe_def allocationValid_def Let_def\<close>)
qed

theorem valid_allocation_intact_witness:
  "\<exists>s dk. log_reach s [sample_task] None \<and> st_disk s = Some dk \<and> dk_byte dk 102 = 3"
proof -
  let ?a = "\<lparr>al_offset = 101, al_generation = 2, al_sequence = 1\<rparr>"
  obtain s where s: "log_reach s [sample_task] None" "st_storageErr s = None" "allocationValid ?a 2 s" using sample_log by blast
  have t: "ft_Generation sample_task = al_generation ?a" "ft_Offset sample_task \<le> al_offset ?a" "al_offset ?a + int 2 \<le> task_end sample_task"
    by (simp_all add: sample_task_def)
  obtain dk where d: "st_disk s = Some dk"
    "\<forall>i < (2 :: nat). dk_byte dk (al_offset ?a + int i) = ft_Buffer sample_task ! nat (al_offset ?a - ft_Offset sample_task + int i)"
    using valid_allocation_intact [OF s(1,2) _ t(1) _ t(2,3) s(3)] by auto
  have "dk_byte dk 102 = 3" using d(2) [rule_format, of 1] by (simp add: sample_task_def)
  then show ?thesis using s(1) d(1) by blast
qed

end
