(* ===== verification/Fill_Tokens.thy ===== *)
theory Fill_Tokens
  imports Dir_Calls Ram_Cache Open_Dir Stripe Go_Strings
begin

text \<open>
  Purging and the tokens that fence unfinished fills (\<^verbatim>\<open>cache/invalidation.go\<close>, the token part of \<^verbatim>\<open>cache/http_update.go\<close>, key placement and
  removal of \<^verbatim>\<open>cache/cache.go\<close>), over the models of the directory, the identity index, the open directory, the RAM cache and the log.
  The operations hold the locks of all stripes (\<^verbatim>\<open>lockStripes\<close>), so each is one step. A cache is its list of stripes; a stripe pointer is
  \<open>cs_ptr\<close>. The writers that an operation aborts after releasing the locks are part of its result. \<open>None\<close> is a panic of the directory.
\<close>

section \<open>Stripes and keys\<close>

record 'o cacheStripe =
  cs_ptr :: nat
  cs_stripe :: Stripe
  cs_OpenDir :: OpenDir
  cs_RamCache :: "'o RamCache option"

type_synonym 'o cache = "'o cacheStripe list"

abbreviation cs_trie :: "'o cacheStripe \<Rightarrow> DirTrie" where "cs_trie s \<equiv> dm_trie (st_DirMgr (cs_stripe s))"

definition set_dm :: "DirManager \<Rightarrow> 'o cacheStripe \<Rightarrow> 'o cacheStripe" where
  "set_dm dm s = s\<lparr>cs_stripe := (cs_stripe s)\<lparr>st_DirMgr := dm\<rparr>\<rparr>"

definition set_trie :: "DirTrie \<Rightarrow> 'o cacheStripe \<Rightarrow> 'o cacheStripe" where
  "set_trie t s = set_dm ((st_DirMgr (cs_stripe s))\<lparr>dm_trie := t\<rparr>) s"

definition KeyToStripe :: "bytes \<Rightarrow> 'o cache \<Rightarrow> nat option" where
  "KeyToStripe key c =
     (if length c = 0 then None else if length c = 1 then Some 0
      else Some (unat (crc32_ChecksumIEEE key mod of_nat (length c))))"

definition FragmentKey :: "bytes \<Rightarrow> nat \<Rightarrow> bytes" where
  "FragmentKey firstKey n = (if n = 0 then firstKey else md5 (firstKey @ put_be64 (of_nat n)))"

section \<open>Tokens\<close>

definition MaxFillVariants :: int where "MaxFillVariants = 64"

record fillHead =
  fh_stripe :: nat
  fh_key :: bytes
  fh_dir :: Dir
  fh_present :: bool
  fh_writer :: "nat option"

datatype FillToken = FillToken
  (ft_parent: "FillToken option") (ft_key: bytes) (ft_selector: bytes) (ft_stripes: "nat list") (ft_generations: "nat list")
  (ft_snapshot: "fillHead list") (ft_rangeSnapshot: "fillHead list") (ft_wraps: "nat list") (ft_policies: "nat list")

definition head_of :: "'o cacheStripe \<Rightarrow> bytes \<Rightarrow> fillHead" where
  "head_of s key = (case dm_Get (st_DirMgr (cs_stripe s)) key of (hit, _, d) \<Rightarrow>
     \<lparr>fh_stripe = cs_ptr s, fh_key = key, fh_dir = d, fh_present = hit, fh_writer = od_Get key (cs_OpenDir s)\<rparr>)"

primrec snapshot_loop :: "(DirTrie \<Rightarrow> int \<Rightarrow> bytes list result) \<Rightarrow> 'o cache \<Rightarrow> fillHead list \<Rightarrow> fillHead list result" where
  "snapshot_loop keys_of [] heads = Inr heads"
| "snapshot_loop keys_of (s # ss) heads =
     (case keys_of (cs_trie s) (MaxFillVariants - int (length heads)) of
        Inl e \<Rightarrow> Inl e
      | Inr keys \<Rightarrow> snapshot_loop keys_of ss (heads @ map (head_of s) keys))"

definition fillSnapshotLocked :: "bytes \<Rightarrow> 'o cache \<Rightarrow> fillHead list result" where
  "fillSnapshotLocked selector c = snapshot_loop (\<lambda>t. KeysForSelectorLimit t selector) c []"

definition rangeSnapshotLocked :: "bytes \<Rightarrow> 'o cache \<Rightarrow> fillHead list result" where
  "rangeSnapshotLocked selector c =
     snapshot_loop (\<lambda>t. KeysForPrefixLimit t (selector @ 10 # go_str ''range:manifest:'')) c []"

definition BeginFill :: "bytes \<Rightarrow> bytes \<Rightarrow> 'o cache \<Rightarrow> FillToken result" where
  "BeginFill key selector c =
     (case validateIdentity key selector of Inl e \<Rightarrow> Inl e | Inr _ \<Rightarrow>
      if KeyToStripe key c = None then Inl (Err ''no stripe found'')
      else if \<exists>s\<in>set c. st_closing (cs_stripe s) then Inl ErrCacheClosed
      else case fillSnapshotLocked selector c of Inl e \<Rightarrow> Inl e | Inr snapshot \<Rightarrow>
           case rangeSnapshotLocked selector c of Inl e \<Rightarrow> Inl e | Inr ranges \<Rightarrow>
             Inr (FillToken None key selector (map cs_ptr c) (map (od_Generation \<circ> cs_OpenDir) c) snapshot ranges
               (map (st_generation \<circ> cs_stripe) c) (map (policyEpoch selector \<circ> cs_OpenDir) c)))"

fun epoch_loop :: "bytes \<Rightarrow> 'o cache \<Rightarrow> nat list \<Rightarrow> nat list \<Rightarrow> nat list \<Rightarrow> go_err option" where
  "epoch_loop selector (s # ss) (p # ps) (g # gs) (q # qs) =
     (if st_closing (cs_stripe s) then Some ErrCacheClosed
      else if p \<noteq> cs_ptr s \<or> g \<noteq> od_Generation (cs_OpenDir s) \<or> q \<noteq> policyEpoch selector (cs_OpenDir s) then Some ErrInvalidated
      else epoch_loop selector ss ps gs qs)"
| "epoch_loop selector _ _ _ _ = None"

fun checkFillEpochsLocked :: "'o cache \<Rightarrow> FillToken \<Rightarrow> go_err option" where
  "checkFillEpochsLocked c (FillToken parent key selector stripes generations snapshot ranges wraps policies) =
     (if length stripes \<noteq> length c \<or> length generations \<noteq> length c \<or> length wraps \<noteq> length c \<or> length policies \<noteq> length c
      then Some ErrInvalidated
      else case (case parent of None \<Rightarrow> None | Some p \<Rightarrow> checkFillEpochsLocked c p) of
        Some e \<Rightarrow> Some e | None \<Rightarrow> epoch_loop selector c stripes generations policies)"

definition CheckFill :: "'o cache \<Rightarrow> FillToken option \<Rightarrow> go_err option" where
  "CheckFill c token = (case token of None \<Rightarrow> Some ErrInvalidated | Some t \<Rightarrow> checkFillEpochsLocked c t)"

definition checkFillLocked :: "'o cache \<Rightarrow> FillToken \<Rightarrow> go_err option" where
  "checkFillLocked c token =
     (case checkFillEpochsLocked c token of Some e \<Rightarrow> Some e | None \<Rightarrow>
      if ft_wraps token \<noteq> map (st_generation \<circ> cs_stripe) c then Some ErrInvalidated
      else case fillSnapshotLocked (ft_selector token) c of Inl e \<Rightarrow> Some e
           | Inr heads \<Rightarrow> if heads \<noteq> ft_snapshot token then Some ErrInvalidated else None)"

definition deriveFillLocked :: "FillToken option \<Rightarrow> bytes \<Rightarrow> 'o cache \<Rightarrow> FillToken result" where
  "deriveFillLocked parent key c =
     (case parent of None \<Rightarrow> Inl ErrInvalidated | Some p \<Rightarrow>
      if ft_parent p \<noteq> None \<or> \<not> prefix (ft_selector p @ 10 # go_str ''range:'') key then Inl ErrInvalidated
      else case validateIdentity key key of Inl e \<Rightarrow> Inl e | Inr _ \<Rightarrow>
      case checkFillEpochsLocked c p of Some e \<Rightarrow> Inl e | None \<Rightarrow>
      case fillSnapshotLocked key c of Inl e \<Rightarrow> Inl e | Inr snapshot \<Rightarrow>
        Inr (FillToken (Some p) key key (ft_stripes p) (ft_generations p) snapshot [] (map (st_generation \<circ> cs_stripe) c)
          (map (policyEpoch key \<circ> cs_OpenDir) c)))"

section \<open>Removal\<close>

primrec remove_fragments :: "'o otter_ops \<Rightarrow> bytes \<Rightarrow> nat list \<Rightarrow> 'o cacheStripe \<Rightarrow> 'o cacheStripe option" where
  "remove_fragments ops key [] s = Some s"
| "remove_fragments ops key (n # ns) s =
     (let fragment = FragmentKey key n;
          hit = fst (dm_Get (st_DirMgr (cs_stripe s)) fragment);
          s = s\<lparr>cs_RamCache := map_option (rc_Delete ops fragment) (cs_RamCache s)\<rparr>
      in if \<not> hit then Some s
         else case dm_Delete fragment (st_DirMgr (cs_stripe s)) of None \<Rightarrow> None
              | Some (dm, _) \<Rightarrow> remove_fragments ops key ns (set_dm dm s))"

definition removeLocked :: "'o otter_ops \<Rightarrow> bytes \<Rightarrow> 'o cacheStripe \<Rightarrow> ('o cacheStripe \<times> nat list) option" where
  "removeLocked ops key s =
     (case od_detach key (cs_OpenDir s) of (od, entry, writer) \<Rightarrow>
        let s = s\<lparr>cs_OpenDir := od\<rparr>; s = set_trie (dt_Delete key (cs_trie s)) s
        in map_option (\<lambda>s. (s, case writer of None \<Rightarrow> [] | Some w \<Rightarrow> [w]))
             (remove_fragments ops key [0..<FragmentsNum (st_DirMgr (cs_stripe s))] s))"

primrec remove_keys :: "'o otter_ops \<Rightarrow> bytes list \<Rightarrow> 'o cacheStripe \<Rightarrow> ('o cacheStripe \<times> nat list) option" where
  "remove_keys ops [] s = Some (s, [])"
| "remove_keys ops (k # ks) s = (case removeLocked ops k s of None \<Rightarrow> None
     | Some (s, ws) \<Rightarrow> map_option (\<lambda>(s, ws'). (s, ws @ ws')) (remove_keys ops ks s))"

text \<open>\<open>generation.Add(1)\<close>; \<open>st_invalidation\<close> is the stripe's view of the same counter.\<close>

definition advance_generation :: "'o cacheStripe \<Rightarrow> 'o cacheStripe" where
  "advance_generation s = s\<lparr>cs_OpenDir := (cs_OpenDir s)\<lparr>od_generation := od_generation (cs_OpenDir s) + 1\<rparr>,
     cs_stripe := (cs_stripe s)\<lparr>st_invalidation := st_invalidation (cs_stripe s) + 1\<rparr>\<rparr>"

definition advance_policy :: "bytes \<Rightarrow> 'o cacheStripe \<Rightarrow> 'o cacheStripe" where
  "advance_policy selector s = s\<lparr>cs_OpenDir := (cs_OpenDir s)\<lparr>od_policyEpochs :=
     (od_policyEpochs (cs_OpenDir s))(policy_slot selector := policyEpoch selector (cs_OpenDir s) + 1)\<rparr>\<rparr>"

definition purge_keys :: "bytes \<Rightarrow> bool \<Rightarrow> DirTrie \<Rightarrow> bytes list" where
  "purge_keys selector by_prefix t =
     (if by_prefix then dt_Get t selector else KeysForSelector t selector @ dt_Get t (selector @ 10 # go_str ''range:''))"

primrec purge_loop :: "'o otter_ops \<Rightarrow> bytes \<Rightarrow> bool \<Rightarrow> 'o cache \<Rightarrow> ('o cache \<times> bytes list \<times> nat list) option" where
  "purge_loop ops selector by_prefix [] = Some ([], [], [])"
| "purge_loop ops selector by_prefix (s # ss) =
     (let s = advance_generation s; keys = purge_keys selector by_prefix (cs_trie s) in
      case remove_keys ops keys s of None \<Rightarrow> None | Some (s, ws) \<Rightarrow>
        map_option (\<lambda>(ss, ks, ws'). (s # ss, keys @ ks, ws @ ws')) (purge_loop ops selector by_prefix ss))"

definition PurgeSelector :: "'o otter_ops \<Rightarrow> bytes \<Rightarrow> bool \<Rightarrow> 'o cache \<Rightarrow> ('o cache \<times> (bytes list \<times> nat list) result) option" where
  "PurgeSelector ops selector by_prefix c =
     (if length selector = 0 then Some (c, Inl (Err ''empty purge selector''))
      else if \<exists>s\<in>set c. st_closing (cs_stripe s) then Some (c, Inl ErrCacheClosed)
      else map_option (\<lambda>(c, purged, writers). (c, Inr (sort purged, writers))) (purge_loop ops selector by_prefix c))"

definition cache_Purge :: "'o otter_ops \<Rightarrow> bytes \<Rightarrow> 'o cache \<Rightarrow> ('o cache \<times> bytes list) option" where
  "cache_Purge ops key c =
     (if length key = 0 then Some (c, [])
      else map_option (\<lambda>(c, r). (c, case r of Inl _ \<Rightarrow> [] | Inr (keys, _) \<Rightarrow> keys)) (PurgeSelector ops key (last key = 47) c))"

definition cache_Remove :: "'o otter_ops \<Rightarrow> bytes \<Rightarrow> 'o cache \<Rightarrow> ('o cache \<times> nat list result) option" where
  "cache_Remove ops key c =
     (if length key = 0 then Some (c, Inl (Err ''empty cache key''))
      else case KeyToStripe key c of None \<Rightarrow> Some (c, Inl (Err ''no stripe found''))
      | Some i \<Rightarrow>
          if st_closing (cs_stripe (c ! i)) then Some (c, Inl ErrCacheClosed)
          else map_option (\<lambda>(s, ws). (c[i := s], Inr ws)) (removeLocked ops key (advance_generation (c ! i))))"

definition snapshot_owned :: "nat \<Rightarrow> fillHead list \<Rightarrow> fillHead \<Rightarrow> 'o cacheStripe \<Rightarrow> bool" where
  "snapshot_owned wrap snapshots head s =
     (if head \<notin> set snapshots then \<not> fh_present head \<and> fh_writer head \<noteq> None
      else if \<not> fh_present head then True
      else let d = fh_dir head; valid = (\<lambda>g. allocationValid \<lparr>al_offset = uint (dir_offset d), al_generation = g, al_sequence = 0\<rparr> 1 (cs_stripe s))
           in if dir_phase d \<noteq> phase_of wrap then wrap \<noteq> 0 \<and> valid (wrap - 1) else valid wrap)"

primrec invalidate_heads :: "'o otter_ops \<Rightarrow> nat \<Rightarrow> fillHead list \<Rightarrow> fillHead list \<Rightarrow> 'o cacheStripe \<Rightarrow> ('o cacheStripe \<times> nat list) option" where
  "invalidate_heads ops wrap snapshots [] s = Some (s, [])"
| "invalidate_heads ops wrap snapshots (h # hs) s =
     (if fh_stripe h = cs_ptr s \<and> snapshot_owned wrap snapshots h s
      then case removeLocked ops (fh_key h) s of None \<Rightarrow> None
           | Some (s, ws) \<Rightarrow> map_option (\<lambda>(s, ws'). (s, ws @ ws')) (invalidate_heads ops wrap snapshots hs s)
      else invalidate_heads ops wrap snapshots hs s)"

fun invalidate_loop :: "'o otter_ops \<Rightarrow> FillToken \<Rightarrow> fillHead list \<Rightarrow> 'o cache \<Rightarrow> nat list \<Rightarrow> ('o cache \<times> nat list) option" where
  "invalidate_loop ops token heads (s # ss) (wrap # wraps) =
     (case invalidate_heads ops wrap (ft_snapshot token @ ft_rangeSnapshot token) heads (advance_policy (ft_selector token) s) of None \<Rightarrow> None
      | Some (s, ws) \<Rightarrow> map_option (\<lambda>(ss, ws'). (s # ss, ws @ ws')) (invalidate_loop ops token heads ss wraps))"
| "invalidate_loop ops token heads c _ = Some (c, [])"

definition InvalidateFill :: "'o otter_ops \<Rightarrow> FillToken option \<Rightarrow> 'o cache \<Rightarrow> ('o cache \<times> nat list result) option" where
  "InvalidateFill ops token c =
     (case token of None \<Rightarrow> Some (c, Inl ErrInvalidated) | Some t \<Rightarrow>
      case checkFillEpochsLocked c t of Some e \<Rightarrow> Some (c, Inl e) | None \<Rightarrow>
      case fillSnapshotLocked (ft_selector t) c of Inl e \<Rightarrow> Some (c, Inl e) | Inr heads \<Rightarrow>
      case rangeSnapshotLocked (ft_selector t) c of Inl e \<Rightarrow> Some (c, Inl e) | Inr ranges \<Rightarrow>
        map_option (\<lambda>(c, ws). (c, Inr ws)) (invalidate_loop ops t (heads @ ranges) c (ft_wraps t)))"

text \<open>Making room in the index: identities without writer and without a valid entry are dropped.\<close>

definition drop_stale :: "bytes \<Rightarrow> 'o cacheStripe \<Rightarrow> 'o cacheStripe" where
  "drop_stale k s =
     (if od_Get k (cs_OpenDir s) \<noteq> None then s
      else case dm_Get (st_DirMgr (cs_stripe s)) k of (hit, _, d) \<Rightarrow>
        if \<not> hit \<or> \<not> dirValid d (cs_stripe s) then set_trie (dt_Delete k (cs_trie s)) s else s)"

definition reserveIdentityLocked :: "bytes \<Rightarrow> bytes \<Rightarrow> 'o cacheStripe \<Rightarrow> 'o cacheStripe \<times> unit result" where
  "reserveIdentityLocked key selector s =
     (case SetIdentity key selector (cs_trie s) of (t, r) \<Rightarrow>
        if r \<noteq> Inl ErrIndexFull then (set_trie t s, r)
        else let s = fold drop_stale (map ie_Key (Snapshot t)) (set_trie t s)
             in case SetIdentity key selector (cs_trie s) of (t, r) \<Rightarrow> (set_trie t s, r))"

section \<open>Epochs only grow\<close>

definition same_epochs :: "'o cacheStripe \<Rightarrow> 'o cacheStripe \<Rightarrow> bool" where
  "same_epochs s s' \<longleftrightarrow> cs_ptr s' = cs_ptr s \<and> od_generation (cs_OpenDir s') = od_generation (cs_OpenDir s) \<and>
     od_policyEpochs (cs_OpenDir s') = od_policyEpochs (cs_OpenDir s)"

definition newer_stripe :: "'o cacheStripe \<Rightarrow> 'o cacheStripe \<Rightarrow> bool" where
  "newer_stripe s s' \<longleftrightarrow> cs_ptr s' = cs_ptr s \<and> od_generation (cs_OpenDir s) \<le> od_generation (cs_OpenDir s') \<and>
     od_policyEpochs (cs_OpenDir s) \<le> od_policyEpochs (cs_OpenDir s')"

abbreviation newer :: "'o cache \<Rightarrow> 'o cache \<Rightarrow> bool" where "newer \<equiv> list_all2 newer_stripe"

named_theorems epoch_simps \<open>what the operations keep of a stripe\<close>

lemma set_dm_keeps [epoch_simps]: "cs_ptr (set_dm dm s) = cs_ptr s" "cs_OpenDir (set_dm dm s) = cs_OpenDir s" "st_DirMgr (cs_stripe (set_dm dm s)) = dm"
  by (simp_all add: set_dm_def)

lemma set_trie_keeps [epoch_simps]: "cs_ptr (set_trie t s) = cs_ptr s" "cs_OpenDir (set_trie t s) = cs_OpenDir s" "cs_trie (set_trie t s) = t"
  by (simp_all add: set_trie_def epoch_simps)

lemma od_detach_keeps [epoch_simps]:
  "od_detach k od = (od', e, w) \<Longrightarrow> od_generation od' = od_generation od \<and> od_policyEpochs od' = od_policyEpochs od \<and> od_entries od' = (od_entries od)(k := None)"
  by (auto simp: od_detach_def Let_def signalReady_def split: option.splits)

lemma dm_Delete_trie: "dm_Delete k dm = Some (dm', n) \<Longrightarrow> dm_trie dm' = dm_trie dm"
  by (auto simp: dm_Delete_def put_seg_def Let_def split: prod.splits if_splits option.splits bind_splits)

lemma remove_fragments_keeps:
  "remove_fragments ops k ns s = Some s' \<Longrightarrow> cs_ptr s' = cs_ptr s \<and> cs_OpenDir s' = cs_OpenDir s \<and> cs_trie s' = cs_trie s"
proof (induction ns arbitrary: s)
  case (Cons n ns)
  show ?case
  proof (cases "fst (dm_Get (st_DirMgr (cs_stripe s)) (FragmentKey k n))")
    case True
    then obtain dm j where d: "dm_Delete (FragmentKey k n) (st_DirMgr (cs_stripe s)) = Some (dm, j)"
      and r: "remove_fragments ops k ns (set_dm dm (s\<lparr>cs_RamCache := map_option (rc_Delete ops (FragmentKey k n)) (cs_RamCache s)\<rparr>)) = Some s'"
      using Cons.prems by (auto simp: Let_def split: option.splits)
    show ?thesis using Cons.IH [OF r] dm_Delete_trie [OF d] by (simp add: epoch_simps)
  qed (use Cons.prems in \<open>auto simp: Let_def\<close>)
qed simp

lemma removeLocked_keeps:
  assumes "removeLocked ops k s = Some (s', ws)"
  shows "same_epochs s s' \<and> od_entries (cs_OpenDir s') = (od_entries (cs_OpenDir s))(k := None) \<and> cs_trie s' = dt_Delete k (cs_trie s)"
proof -
  obtain od e w where d: "od_detach k (cs_OpenDir s) = (od, e, w)" by (metis prod_cases3)
  obtain ns where "remove_fragments ops k ns (set_trie (dt_Delete k (cs_trie s)) (s\<lparr>cs_OpenDir := od\<rparr>)) = Some s'"
    using assms d by (auto simp: removeLocked_def Let_def)
  from remove_fragments_keeps [OF this] od_detach_keeps [OF d] show ?thesis by (simp add: same_epochs_def epoch_simps)
qed

lemma same_epochs_trans: "same_epochs a b \<Longrightarrow> same_epochs b c \<Longrightarrow> same_epochs a c"
  by (simp add: same_epochs_def)

lemma remove_keys_keeps:
  "remove_keys ops ks s = Some (s', ws) \<Longrightarrow> same_epochs s s' \<and> od_entries (cs_OpenDir s') = od_entries (cs_OpenDir s) |` (- set ks) \<and>
     cs_trie s' = fold dt_Delete ks (cs_trie s)"
proof (induction ks arbitrary: s ws)
  case Nil
  then show ?case by (simp add: same_epochs_def restrict_map_def)
next
  case (Cons k ks)
  then obtain s1 w1 w2 where r: "removeLocked ops k s = Some (s1, w1)" "remove_keys ops ks s1 = Some (s', w2)" by (auto split: option.splits)
  have "od_entries (cs_OpenDir s') = od_entries (cs_OpenDir s) |` (- set (k # ks))"
    using Cons.IH [OF r(2)] removeLocked_keeps [OF r(1)] by (auto simp: restrict_map_def fun_eq_iff)
  then show ?case using Cons.IH [OF r(2)] removeLocked_keeps [OF r(1)] same_epochs_trans by auto
qed

lemma invalidate_heads_keeps: "invalidate_heads ops wrap sn hs s = Some (s', ws) \<Longrightarrow> same_epochs s s'"
proof (induction hs arbitrary: s ws)
  case (Cons h hs)
  show ?case
  proof (cases "fh_stripe h = cs_ptr s \<and> snapshot_owned wrap sn h s")
    case True
    then obtain s1 w1 w2 where r: "removeLocked ops (fh_key h) s = Some (s1, w1)" "invalidate_heads ops wrap sn hs s1 = Some (s', w2)"
      using Cons.prems by (auto split: option.splits)
    show ?thesis using removeLocked_keeps [OF r(1)] Cons.IH [OF r(2)] same_epochs_trans by blast
  next
    case False
    then have "invalidate_heads ops wrap sn hs s = Some (s', ws)" using Cons.prems by (simp only: invalidate_heads.simps if_False)
    then show ?thesis by (rule Cons.IH)
  qed
qed (simp add: same_epochs_def)

lemma purge_loop_stripes:
  "purge_loop ops sel p c = Some (c', ks, ws) \<Longrightarrow>
     list_all2 (\<lambda>s s'. \<exists>ws. remove_keys ops (purge_keys sel p (cs_trie s)) (advance_generation s) = Some (s', ws)) c c' \<and>
     set ks = (\<Union>s\<in>set c. set (purge_keys sel p (cs_trie s)))"
proof (induction c arbitrary: c' ks ws)
  case (Cons s c)
  have t: "cs_trie (advance_generation s) = cs_trie s" by (simp add: advance_generation_def)
  from Cons.prems obtain s1 w1 c1 k1 w2 where "remove_keys ops (purge_keys sel p (cs_trie s)) (advance_generation s) = Some (s1, w1)"
    "purge_loop ops sel p c = Some (c1, k1, w2)" "c' = s1 # c1" "ks = purge_keys sel p (cs_trie s) @ k1"
    by (auto simp: Let_def t split: option.splits)
  then show ?case using Cons.IH by auto
qed simp

lemma invalidate_loop_stripes:
  "length wraps = length c \<Longrightarrow> invalidate_loop ops t hs c wraps = Some (c', ws) \<Longrightarrow> list_all2 (\<lambda>s. same_epochs (advance_policy (ft_selector t) s)) c c'"
proof (induction ops t hs c wraps arbitrary: c' ws rule: invalidate_loop.induct)
  case (1 ops t hs s ss wrap wraps)
  then obtain s1 w1 c1 w2 where r: "invalidate_heads ops wrap (ft_snapshot t @ ft_rangeSnapshot t) hs (advance_policy (ft_selector t) s) = Some (s1, w1)"
    "invalidate_loop ops t hs ss wraps = Some (c1, w2)" "c' = s1 # c1" by (auto split: option.splits)
  have "list_all2 (\<lambda>s. same_epochs (advance_policy (ft_selector t) s)) ss c1" using "1.IH" [OF r(1) refl _ r(2)] "1.prems"(1) by simp
  then show ?case using invalidate_heads_keeps [OF r(1)] r(3) by simp
qed auto

lemma newer_advance:
  "same_epochs s s' \<Longrightarrow> newer_stripe s s'" "same_epochs (advance_generation s) s' \<Longrightarrow> newer_stripe s s'"
  "same_epochs (advance_policy sel s) s' \<Longrightarrow> newer_stripe s s'"
  by (auto simp: same_epochs_def newer_stripe_def advance_generation_def advance_policy_def policyEpoch_def le_fun_def)

lemma newer_refl: "newer c c"
  by (rule list_all2_refl) (simp add: newer_stripe_def)

lemma newer_trans: "newer a b \<Longrightarrow> newer b c \<Longrightarrow> newer a c"
  by (rule list_all2_trans [of newer_stripe newer_stripe]) (auto simp: newer_stripe_def)

lemma purge_advances:
  assumes "PurgeSelector ops sel p c = Some (c', Inr x)"
  shows "list_all2 (\<lambda>s. same_epochs (advance_generation s)) c c'"
proof -
  obtain ks ws where "purge_loop ops sel p c = Some (c', ks, ws)" using assms by (auto simp: PurgeSelector_def split: if_splits)
  from purge_loop_stripes [OF this, THEN conjunct1] show ?thesis by (rule list_all2_mono) (blast dest: remove_keys_keeps)
qed

lemma purge_newer: "PurgeSelector ops sel p c = Some (c', r) \<Longrightarrow> newer c c'"
proof (cases r)
  case (Inr x)
  assume a: "PurgeSelector ops sel p c = Some (c', r)"
  then show ?thesis using purge_advances [of ops sel p c c' x] Inr by (auto elim!: list_all2_mono intro: newer_advance(2))
next
  case (Inl e)
  assume "PurgeSelector ops sel p c = Some (c', r)"
  then show ?thesis using Inl newer_refl by (auto simp: PurgeSelector_def split: if_splits)
qed

lemma checkFill_lengths: "checkFillEpochsLocked c t = None \<Longrightarrow> length (ft_wraps t) = length c"
  by (cases t) (auto split: if_splits)

lemma invalidate_advances:
  assumes "InvalidateFill ops (Some t) c = Some (c', Inr ws)"
  shows "list_all2 (\<lambda>s. same_epochs (advance_policy (ft_selector t) s)) c c'"
proof -
  obtain hs where c: "checkFillEpochsLocked c t = None" and "invalidate_loop ops t hs c (ft_wraps t) = Some (c', ws)"
    using assms by (auto simp: InvalidateFill_def split: option.splits sum.splits)
  then show ?thesis using invalidate_loop_stripes [OF checkFill_lengths [OF c]] by blast
qed

lemma invalidate_newer:
  assumes "InvalidateFill ops t c = Some (c', r)"
  shows "newer c c'"
proof (cases "c' = c")
  case False
  then obtain t' ws where "t = Some t'" "r = Inr ws" using assms by (auto simp: InvalidateFill_def split: option.splits sum.splits)
  then have "list_all2 (\<lambda>s. same_epochs (advance_policy (ft_selector t') s)) c c'" using assms by (intro invalidate_advances) simp
  then show ?thesis by (rule list_all2_mono) (rule newer_advance(3))
qed (simp add: newer_refl)

lemma remove_newer:
  assumes "cache_Remove ops k c = Some (c', r)"
  shows "newer c c'"
proof (cases "c' = c")
  case False
  then obtain i s ws where "c' = c[i := s]" "removeLocked ops k (advance_generation (c ! i)) = Some (s, ws)"
    using assms by (auto simp: cache_Remove_def split: if_splits option.splits)
  then have "newer_stripe (c ! i) s" "c' = c[i := s]" using removeLocked_keeps newer_advance(2) by blast+
  moreover have "newer_stripe (c ! j) (c ! j)" for j by (simp add: newer_stripe_def)
  ultimately have "newer_stripe (c ! j) (c' ! j)" if "j < length c" for j using that by (cases "j = i") auto
  then show ?thesis using \<open>c' = c[i := s]\<close> by (simp add: list_all2_conv_all_nth)
qed (simp add: newer_refl)

text \<open>Any history of the cache: the operations above, and other work, which may only advance the epochs (closing a stripe does).\<close>

inductive cache_steps :: "'o otter_ops \<Rightarrow> 'o cache \<Rightarrow> 'o cache \<Rightarrow> bool" for ops c where
  stop: "cache_steps ops c c"
| purge: "cache_steps ops c c' \<Longrightarrow> PurgeSelector ops sel p c' = Some (c'', r) \<Longrightarrow> cache_steps ops c c''"
| remove: "cache_steps ops c c' \<Longrightarrow> cache_Remove ops k c' = Some (c'', ws) \<Longrightarrow> cache_steps ops c c''"
| invalidate: "cache_steps ops c c' \<Longrightarrow> InvalidateFill ops t c' = Some (c'', ws) \<Longrightarrow> cache_steps ops c c''"
| work: "cache_steps ops c c' \<Longrightarrow> newer c' c'' \<Longrightarrow> cache_steps ops c c''"

lemma cache_steps_newer: "cache_steps ops c c' \<Longrightarrow> newer c c'"
proof (induction rule: cache_steps.induct)
  case stop
  show ?case by (rule newer_refl)
next
  case (purge c' sel p c'' r)
  then show ?case using newer_trans purge_newer by metis
next
  case (remove c' k c'' ws)
  then show ?case using newer_trans remove_newer by metis
next
  case (invalidate c' t c'' ws)
  then show ?case using newer_trans invalidate_newer by metis
next
  case (work c' c'')
  then show ?case using newer_trans by metis
qed

lemma epoch_loop_None:
  assumes "length ps = length c" "length gs = length c" "length qs = length c"
  shows "epoch_loop sel c ps gs qs = None \<longleftrightarrow> (\<forall>s\<in>set c. \<not> st_closing (cs_stripe s)) \<and> ps = map cs_ptr c \<and>
    gs = map (od_Generation \<circ> cs_OpenDir) c \<and> qs = map (policyEpoch sel \<circ> cs_OpenDir) c"
  using assms
proof (induction c arbitrary: ps gs qs)
  case (Cons s c)
  then obtain p ps' g gs' q qs' where "ps = p # ps'" "gs = g # gs'" "qs = q # qs'" by (metis Suc_length_conv length_Cons)
  then show ?case using Cons by auto
qed simp

lemma check_epochs_None:
  "checkFillEpochsLocked c t = None \<longleftrightarrow> (\<forall>p. ft_parent t = Some p \<longrightarrow> checkFillEpochsLocked c p = None) \<and>
     length (ft_wraps t) = length c \<and> (\<forall>s\<in>set c. \<not> st_closing (cs_stripe s)) \<and> ft_stripes t = map cs_ptr c \<and>
     ft_generations t = map (od_Generation \<circ> cs_OpenDir) c \<and> ft_policies t = map (policyEpoch (ft_selector t) \<circ> cs_OpenDir) c"
  by (cases t) (auto simp: epoch_loop_None split: option.splits)

lemma BeginFill_token:
  assumes "BeginFill key sel c = Inr tok"
  shows "c \<noteq> []" "ft_parent tok = None" "ft_selector tok = sel" "ft_stripes tok = map cs_ptr c" "\<forall>s\<in>set c. \<not> st_closing (cs_stripe s)"
    "ft_generations tok = map (od_Generation \<circ> cs_OpenDir) c" "ft_policies tok = map (policyEpoch sel \<circ> cs_OpenDir) c"
    "ft_wraps tok = map (st_generation \<circ> cs_stripe) c" "fillSnapshotLocked sel c = Inr (ft_snapshot tok)"
  using assms by (auto simp: BeginFill_def KeyToStripe_def split: sum.splits if_splits)

lemma KeysForSelector_set:
  assumes inv: "trie_inv dt"
  shows "set (KeysForSelector dt sel) = {k. map_of (dt_entries dt) k = Some sel}"
proof -
  have ti: "trie_index dt" using inv by (simp add: trie_inv_def)
  have "{k. map_of (dt_entries dt) k = Some sel} \<subseteq> fst ` set (dt_entries dt)" by (auto dest: map_of_SomeD intro: rev_image_eqI)
  then have "card {k. map_of (dt_entries dt) k = Some sel} \<le> card (fst ` set (dt_entries dt))" by (intro card_mono) auto
  also have "\<dots> \<le> length (dt_entries dt)" using card_length [of "map fst (dt_entries dt)"] by simp
  finally have "length (members dt sel) \<le> MaxIndexEntries" using members_sorted(4) [OF ti] inv by (simp add: trie_inv_def)
  then show ?thesis using members_sorted(1) [OF ti] by (simp add: KeysForSelector_def KeysForSelectorLimit_def)
qed

lemma fold_dt_Delete:
  "trie_inv dt \<Longrightarrow> trie_inv (fold dt_Delete ks dt) \<and> map_of (dt_entries (fold dt_Delete ks dt)) = map_of (dt_entries dt) |` (- set ks)"
proof (induction ks arbitrary: dt)
  case (Cons k ks)
  then have t: "trie_inv (dt_Delete k dt)" "map_of (dt_entries (dt_Delete k dt)) = (map_of (dt_entries dt))(k := None)"
    using deleteLocked_index [of dt k] trie_inv_deleteLocked by (auto simp: dt_Delete_def trie_inv_def)
  show ?case using Cons.IH [OF t(1)] unfolding t(2) by (auto simp: restrict_map_def fun_eq_iff)
qed (simp add: restrict_map_def)

text \<open>One empty stripe, and the same with an identity in its index.\<close>

definition sample_cache :: "unit cache" where
  "sample_cache = [\<lparr>cs_ptr = 1, cs_stripe = sample_stripe, cs_OpenDir = NewOpenDir, cs_RamCache = None\<rparr>]"

definition indexed_cache :: "unit cache" where
  "indexed_cache = [set_trie (fst (SetIdentity [1] [2] (NewDirTrie []))) (hd sample_cache)]"

lemma sample_begin: "\<exists>tok. BeginFill [1] [1] sample_cache = Inr tok"
  by (simp add: BeginFill_def validateIdentity_def MaxIndexKeyBytes_def KeyToStripe_def sample_cache_def sample_stripe_def fillSnapshotLocked_def
      rangeSnapshotLocked_def KeysForSelectorLimit_def KeysForPrefixLimit_def members_def NewDirTrie_def MaxFillVariants_def Let_def)

lemma sample_purge: "\<exists>c r. PurgeSelector no_otter [2] False sample_cache = Some (c, Inr r)"
  by (simp add: PurgeSelector_def sample_cache_def sample_stripe_def advance_generation_def purge_keys_def KeysForSelector_def dt_Get_def
      KeysForSelectorLimit_def KeysForPrefixLimit_def members_def NewDirTrie_def MaxIndexEntries_def Let_def)

lemma remove_keys_no_fragments: "FragmentsNum (st_DirMgr (cs_stripe s)) = 0 \<Longrightarrow> \<exists>s' ws. remove_keys ops ks s = Some (s', ws)"
proof (induction ks arbitrary: s)
  case (Cons k ks)
  then show ?case by (cases "od_detach k (cs_OpenDir s)") (fastforce simp: removeLocked_def Let_def set_trie_def set_dm_def)
qed simp

lemma indexed_purge: "\<exists>c keys ws. PurgeSelector no_otter [2] False indexed_cache = Some (c, Inr (keys, ws))"
proof -
  let ?s = "hd indexed_cache"
  have c: "indexed_cache = [?s]" "\<not> st_closing (cs_stripe ?s)"
    by (simp_all add: indexed_cache_def set_trie_def set_dm_def sample_cache_def sample_stripe_def)
  have "FragmentsNum (st_DirMgr (cs_stripe (advance_generation ?s))) = 0"
    by (simp add: advance_generation_def indexed_cache_def set_trie_def set_dm_def sample_cache_def sample_stripe_def)
  from remove_keys_no_fragments [OF this] obtain s' w where
    "remove_keys no_otter (purge_keys [2] False (cs_trie (advance_generation ?s))) (advance_generation ?s) = Some (s', w)" by blast
  then have "\<exists>c keys ws. PurgeSelector no_otter [2] False [?s] = Some (c, Inr (keys, ws))" using c(2) by (simp add: PurgeSelector_def Let_def)
  then show ?thesis using c(1) by simp
qed

lemma fence_refuses:
  assumes taken: "BeginFill key sel c0 = Inr tok" and before: "cache_steps ops c0 c1"
    and fence: "PurgeSelector ops purged p c1 = Some (c2, Inr r) \<or> ft_selector t = sel \<and> InvalidateFill ops (Some t) c1 = Some (c2, Inr ws)"
    and after: "cache_steps ops c2 c3"
  shows "checkFillEpochsLocked c3 tok \<noteq> None"
proof -
  note b = BeginFill_token [OF taken]
  have n: "newer c0 c1" "newer c2 c3" using before after by (simp_all add: cache_steps_newer)
  have l: "length c1 = length c0" "length c3 = length c2" using n by (simp_all add: list_all2_lengthD)
  have 0: "0 < length c0" using b(1) by simp
  have old: "newer_stripe (c0 ! 0) (c1 ! 0)" using n(1) 0 by (simp add: list_all2_conv_all_nth)
  have adv: "length c2 = length c1 \<and> (same_epochs (advance_generation (c1 ! 0)) (c2 ! 0) \<or> same_epochs (advance_policy sel (c1 ! 0)) (c2 ! 0))"
    using fence purge_advances [of ops purged p c1 c2 r] invalidate_advances [of ops t c1 c2 ws] l 0 by (auto simp: list_all2_conv_all_nth)
  then have new: "newer_stripe (c2 ! 0) (c3 ! 0)" using n(2) l 0 by (simp add: list_all2_conv_all_nth)
  have lt: "od_Generation (cs_OpenDir (c0 ! 0)) < od_Generation (cs_OpenDir (c3 ! 0)) \<or> policyEpoch sel (cs_OpenDir (c0 ! 0)) < policyEpoch sel (cs_OpenDir (c3 ! 0))"
    using adv
  proof (elim conjE disjE)
    assume "same_epochs (advance_generation (c1 ! 0)) (c2 ! 0)"
    then show ?thesis using old new by (simp add: same_epochs_def newer_stripe_def advance_generation_def od_Generation_def)
  next
    assume "same_epochs (advance_policy sel (c1 ! 0)) (c2 ! 0)"
    then have "policyEpoch sel (cs_OpenDir (c2 ! 0)) = policyEpoch sel (cs_OpenDir (c1 ! 0)) + 1"
      by (simp add: same_epochs_def advance_policy_def policyEpoch_def)
    moreover have "policyEpoch sel (cs_OpenDir (c0 ! 0)) \<le> policyEpoch sel (cs_OpenDir (c1 ! 0))"
      "policyEpoch sel (cs_OpenDir (c2 ! 0)) \<le> policyEpoch sel (cs_OpenDir (c3 ! 0))"
      using old new by (simp_all add: newer_stripe_def policyEpoch_def le_fun_def)
    ultimately show ?thesis by linarith
  qed
  have m: "map f c0 \<noteq> map f c3" if "f (c0 ! 0) \<noteq> f (c3 ! 0)" for f :: "'a cacheStripe \<Rightarrow> nat"
    using that 0 l adv by (metis nth_map)
  have "ft_generations tok \<noteq> map (od_Generation \<circ> cs_OpenDir) c3 \<or> ft_policies tok \<noteq> map (policyEpoch (ft_selector tok) \<circ> cs_OpenDir) c3"
    using lt m [of "od_Generation \<circ> cs_OpenDir"] m [of "policyEpoch sel \<circ> cs_OpenDir"] unfolding b(3,6,7) by (elim disjE) simp_all
  then show ?thesis by (subst check_epochs_None) blast
qed

lemma BeginFill_check: "BeginFill key sel c = Inr tok \<Longrightarrow> checkFillEpochsLocked c tok = None"
  using BeginFill_token [of key sel c tok] by (subst check_epochs_None) simp

section \<open>Properties\<close>

text \<open>C3. Fencing. A token taken before a purge of any selector, or before the invalidation of a fill of the same selector, is refused after
  it, whatever happens in between and afterwards; the tokens derived from it are refused too, and no new one can be derived.\<close>

theorem purge_fences_fills:
  assumes taken: "BeginFill key sel c0 = Inr tok" and before: "cache_steps ops c0 c1"
    and fence: "PurgeSelector ops purged p c1 = Some (c2, Inr r) \<or> ft_selector t = sel \<and> InvalidateFill ops (Some t) c1 = Some (c2, Inr ws)"
    and after: "cache_steps ops c2 c3"
  shows "CheckFill c3 (Some tok) \<noteq> None \<and> (ft_parent child = Some tok \<longrightarrow> CheckFill c3 (Some child) \<noteq> None) \<and>
    (\<exists>e. deriveFillLocked (Some tok) range_key c3 = Inl e)"
proof -
  note bad = fence_refuses [OF taken before fence after]
  have "ft_parent child = Some tok \<longrightarrow> checkFillEpochsLocked c3 child \<noteq> None" using bad by (metis check_epochs_None)
  moreover have "\<exists>e. deriveFillLocked (Some tok) range_key c3 = Inl e"
    using bad by (cases "checkFillEpochsLocked c3 tok") (auto simp: deriveFillLocked_def split: sum.splits)
  ultimately show ?thesis using bad by (simp add: CheckFill_def)
qed

theorem purge_fences_fills_witness:
  "\<exists>tok c r. BeginFill [1] [1] sample_cache = Inr tok \<and> PurgeSelector no_otter [2] False sample_cache = Some (c, Inr r) \<and> CheckFill c (Some tok) \<noteq> None"
proof -
  obtain tok where b: "BeginFill [1] [1] sample_cache = Inr tok" using sample_begin by blast
  obtain c r where p: "PurgeSelector no_otter [2] False sample_cache = Some (c, Inr r)" using sample_purge by blast
  show ?thesis using purge_fences_fills [OF b cache_steps.stop disjI1 [OF p] cache_steps.stop] b p by blast
qed

text \<open>C18. A new token is valid: as long as nothing has changed, \<^verbatim>\<open>CheckFill\<close> accepts it and the comparison with the snapshot succeeds, and the same
  holds for a token derived from it, so a fill that is not disturbed can be published.\<close>

theorem begin_fill_valid:
  assumes "BeginFill key sel c = Inr tok"
  shows "CheckFill c (Some tok) = None \<and> checkFillLocked c tok = None \<and>
    (\<forall>child. deriveFillLocked (Some tok) range_key c = Inr child \<longrightarrow> checkFillLocked c child = None)"
proof -
  note b = BeginFill_token [OF assms]
  note ok = BeginFill_check [OF assms]
  have "checkFillLocked c child = None" if d: "deriveFillLocked (Some tok) range_key c = Inr child" for child
  proof -
    obtain sn where child: "child = FillToken (Some tok) range_key range_key (ft_stripes tok) (ft_generations tok) sn [] (map (st_generation \<circ> cs_stripe) c)
        (map (policyEpoch range_key \<circ> cs_OpenDir) c)" "fillSnapshotLocked range_key c = Inr sn"
      using d by (auto simp: deriveFillLocked_def split: option.splits sum.splits if_splits)
    have "checkFillEpochsLocked c child = None" using ok b by (subst check_epochs_None) (simp add: child)
    then show ?thesis by (simp add: checkFillLocked_def child)
  qed
  then show ?thesis using ok b by (auto simp: CheckFill_def checkFillLocked_def)
qed

theorem begin_fill_valid_witness: "\<exists>tok. BeginFill [1] [1] sample_cache = Inr tok \<and> checkFillLocked sample_cache tok = None"
proof -
  obtain tok where b: "BeginFill [1] [1] sample_cache = Inr tok" using sample_begin by blast
  show ?thesis using begin_fill_valid [OF b] b by blast
qed

text \<open>C5. A purge of a selector reports and removes every representation: each key registered under the selector in a stripe is in the answer, and
  afterwards the stripe neither has its identity nor a writer for it. The index invariant is kept.\<close>

theorem purge_removes_selector:
  assumes inv: "\<forall>s\<in>set c. trie_inv (cs_trie s)" and purge: "PurgeSelector ops sel False c = Some (c', Inr (keys, ws))"
  shows "length c' = length c \<and> (\<forall>i < length c. trie_inv (cs_trie (c' ! i)) \<and> KeysForSelector (cs_trie (c' ! i)) sel = [] \<and>
    (\<forall>k. map_of (dt_entries (cs_trie (c ! i))) k = Some sel \<longrightarrow>
       k \<in> set keys \<and> map_of (dt_entries (cs_trie (c' ! i))) k = None \<and> od_Get k (cs_OpenDir (c' ! i)) = None))"
proof -
  obtain ks where l: "purge_loop ops sel False c = Some (c', ks, ws)" and keys: "keys = sort ks"
    using purge by (auto simp: PurgeSelector_def split: if_splits)
  note st = purge_loop_stripes [OF l]
  have len: "length c' = length c" using list_all2_lengthD [OF st [THEN conjunct1]] by simp
  have "trie_inv (cs_trie (c' ! i)) \<and> KeysForSelector (cs_trie (c' ! i)) sel = [] \<and> (\<forall>k. map_of (dt_entries (cs_trie (c ! i))) k = Some sel \<longrightarrow>
       k \<in> set keys \<and> map_of (dt_entries (cs_trie (c' ! i))) k = None \<and> od_Get k (cs_OpenDir (c' ! i)) = None)" if i: "i < length c" for i
  proof -
    let ?t = "cs_trie (c ! i)" and ?t' = "cs_trie (c' ! i)" and ?ks = "purge_keys sel False (cs_trie (c ! i))"
    have ti: "trie_inv ?t" using inv i by simp
    obtain w where "remove_keys ops ?ks (advance_generation (c ! i)) = Some (c' ! i, w)" using st i by (auto simp: list_all2_conv_all_nth)
    from remove_keys_keeps [OF this] have r: "?t' = fold dt_Delete ?ks ?t" "od_entries (cs_OpenDir (c' ! i)) = od_entries (cs_OpenDir (c ! i)) |` (- set ?ks)"
      by (simp_all add: advance_generation_def)
    have k: "k \<in> set ?ks" if "map_of (dt_entries ?t) k = Some sel" for k
      using that KeysForSelector_set [OF ti, of sel] by (simp add: purge_keys_def)
    have t': "trie_inv ?t'" "map_of (dt_entries ?t') = map_of (dt_entries ?t) |` (- set ?ks)" using fold_dt_Delete [OF ti, of ?ks] r(1) by auto
    have "set (KeysForSelector ?t' sel) = {}" using KeysForSelector_set [OF t'(1), of sel] k by (auto simp: t'(2) restrict_map_def split: if_splits)
    moreover have "set ?ks \<subseteq> set keys" using st i by (auto simp: keys)
    ultimately show ?thesis using t' k r(2) by (auto simp: restrict_map_def od_Get_def)
  qed
  then show ?thesis using len by blast
qed

theorem purge_removes_selector_witness:
  "\<exists>c keys ws. PurgeSelector no_otter [2] False indexed_cache = Some (c, Inr (keys, ws)) \<and> [1] \<in> set keys"
proof -
  have t: "cs_trie (hd indexed_cache) = fst (SetIdentity [1] [2] (NewDirTrie []))" by (simp add: indexed_cache_def epoch_simps)
  have "trie_inv (fst (SetIdentity [1] [2] (NewDirTrie [])))" using trie_inv_step [OF trie_inv_NewDirTrie, of "[]" "TSet [1] [2]"] by simp
  then have inv: "\<forall>s\<in>set indexed_cache. trie_inv (cs_trie s)" using t by (simp add: indexed_cache_def)
  have e: "map_of (dt_entries (fst (SetIdentity [1] [2] (NewDirTrie [])))) [1] = Some [2]"
    by (simp add: SetIdentity_def validateIdentity_def MaxIndexKeyBytes_def NewDirTrie_def MaxIndexBytes_def MaxIndexEntries_def Let_def)
  obtain c keys ws where p: "PurgeSelector no_otter [2] False indexed_cache = Some (c, Inr (keys, ws))" using indexed_purge by blast
  have "length indexed_cache = 1" "indexed_cache ! 0 = hd indexed_cache" by (simp_all add: indexed_cache_def)
  then show ?thesis using purge_removes_selector [OF inv p] p e t by auto
qed

end
