(* ===== verification/Balancer.thy ===== *)
theory Balancer
  imports Go_Strings
begin

text \<open>
  The choice of an upstream host (\<^verbatim>\<open>balancer/\<close>). The hosts of a balancer are a list without repetitions that the health
  checks shrink and grow. The consistent-hash ring is third-party code: a balancer of that kind is the record of
  its operations \<open>ring_ops\<close>.
\<close>

definition NoHostError :: go_err where "NoHostError = Err ''no host''"
definition AlgorithmNotSupportedError :: go_err where "AlgorithmNotSupportedError = Err ''algorithm not supported''"

definition ConsistentHashBalancer :: bytes where "ConsistentHashBalancer = go_str ''consistent-hash''"
definition R2Balancer :: bytes where "R2Balancer = go_str ''round-robin''"

section \<open>Round robin\<close>

record RoundRobin =
  rr_hosts :: "bytes list"
  rr_i :: u64

definition NewRoundRobin :: "bytes list \<Rightarrow> RoundRobin" where
  "NewRoundRobin hosts = \<lparr>rr_hosts = hosts, rr_i = 0\<rparr>"

definition base_Add :: "bytes \<Rightarrow> bytes list \<Rightarrow> bytes list" where
  "base_Add host hosts = (if host \<in> set hosts then hosts else hosts @ [host])"

primrec base_Remove :: "bytes \<Rightarrow> bytes list \<Rightarrow> bytes list" where
  "base_Remove host [] = []"
| "base_Remove host (h # hs) = (if h = host then hs else h # base_Remove host hs)"

definition rr_Balance :: "RoundRobin \<Rightarrow> RoundRobin \<times> bytes result" where
  "rr_Balance r =
     (if rr_hosts r = [] then (r, Inl NoHostError)
      else let i = rr_i r + 1 in (r\<lparr>rr_i := i\<rparr>, Inr (rr_hosts r ! (unat i mod length (rr_hosts r)))))"

section \<open>Consistent hashing\<close>

record 'c ring_ops =
  ring_New :: 'c
  ring_Add :: "bytes \<Rightarrow> 'c \<Rightarrow> 'c"
  ring_Remove :: "bytes \<Rightarrow> 'c \<Rightarrow> 'c"
  ring_Hosts :: "'c \<Rightarrow> bytes list"
  ring_Get :: "bytes \<Rightarrow> 'c \<Rightarrow> bytes result"

definition NewConsistent :: "'c ring_ops \<Rightarrow> bytes list \<Rightarrow> 'c" where
  "NewConsistent ops hosts = fold (ring_Add ops) hosts (ring_New ops)"

definition ch_Balance :: "'c ring_ops \<Rightarrow> bytes \<Rightarrow> 'c \<Rightarrow> bytes result" where
  "ch_Balance ops key c = (if ring_Hosts ops c = [] then Inl NoHostError else ring_Get ops key c)"

section \<open>The common interface\<close>

datatype 'c balancer = RR RoundRobin | CH 'c

definition Build :: "'c ring_ops \<Rightarrow> bytes \<Rightarrow> bytes list \<Rightarrow> 'c balancer result" where
  "Build ops algorithm hosts =
     (if algorithm = ConsistentHashBalancer then Inr (CH (NewConsistent ops hosts))
      else if algorithm = R2Balancer then Inr (RR (NewRoundRobin hosts))
      else Inl AlgorithmNotSupportedError)"

definition lb_Add :: "'c ring_ops \<Rightarrow> bytes \<Rightarrow> 'c balancer \<Rightarrow> 'c balancer" where
  "lb_Add ops host b = (case b of RR r \<Rightarrow> RR (r\<lparr>rr_hosts := base_Add host (rr_hosts r)\<rparr>) | CH c \<Rightarrow> CH (ring_Add ops host c))"

definition lb_Remove :: "'c ring_ops \<Rightarrow> bytes \<Rightarrow> 'c balancer \<Rightarrow> 'c balancer" where
  "lb_Remove ops host b = (case b of RR r \<Rightarrow> RR (r\<lparr>rr_hosts := base_Remove host (rr_hosts r)\<rparr>) | CH c \<Rightarrow> CH (ring_Remove ops host c))"

definition lb_Balance :: "'c ring_ops \<Rightarrow> bytes \<Rightarrow> 'c balancer \<Rightarrow> 'c balancer \<times> bytes result" where
  "lb_Balance ops key b = (case b of RR r \<Rightarrow> (case rr_Balance r of (r, h) \<Rightarrow> (RR r, h)) | CH c \<Rightarrow> (CH c, ch_Balance ops key c))"

section \<open>Every host gets its turn\<close>

lemma base_Remove_set: "distinct hs \<Longrightarrow> set (base_Remove h hs) = set hs - {h} \<and> distinct (base_Remove h hs)"
  by (induction hs) auto

lemma base_Add_set: "distinct hs \<Longrightarrow> set (base_Add h hs) = insert h (set hs) \<and> distinct (base_Add h hs)"
  by (auto simp: base_Add_def)

primrec balance_n :: "nat \<Rightarrow> RoundRobin \<Rightarrow> bytes result list" where
  "balance_n 0 r = []"
| "balance_n (Suc n) r = (case rr_Balance r of (r, h) \<Rightarrow> h # balance_n n r)"

lemma balance_n_nth:
  assumes "rr_hosts r \<noteq> []" "unat (rr_i r) + n < 2 ^ 64"
  shows "balance_n n r = map (\<lambda>k. Inr (rr_hosts r ! ((unat (rr_i r) + 1 + k) mod length (rr_hosts r)))) [0..<n]"
  using assms
proof (induction n arbitrary: r)
  case (Suc n)
  let ?r = "r\<lparr>rr_i := rr_i r + 1\<rparr>"
  have i: "unat (rr_i r + 1) = unat (rr_i r) + 1"
    using Suc.prems(2) by (subst unat_word_ariths) simp
  have "balance_n n ?r = map (\<lambda>k. Inr (rr_hosts r ! ((unat (rr_i r) + 2 + k) mod length (rr_hosts r)))) [0..<n]"
    using Suc.IH [of ?r] Suc.prems i by simp
  moreover have "[0..<Suc n] = 0 # map Suc [0..<n]" by (simp add: upt_conv_Cons map_Suc_upt del: upt_Suc)
  ultimately show ?case using Suc.prems(1) i by (simp add: rr_Balance_def Let_def del: upt_Suc)
qed simp

lemma mod_window_surj:
  assumes "0 < (n :: nat)" "j < n"
  shows "\<exists>k<n. (a + k) mod n = j"
proof -
  let ?k = "(j + (n - a mod n)) mod n"
  have "(a + ?k) mod n = (a mod n + (j + (n - a mod n))) mod n" by (simp add: mod_simps)
  also have "\<dots> = (j + n) mod n" using mod_less_divisor [OF assms(1), of a] by (intro arg_cong [of _ _ "\<lambda>x. x mod n"]) linarith
  finally show ?thesis using assms by (intro exI [of _ ?k]) simp
qed

text \<open>Round robin is fair: with as many choices as there are hosts every host is chosen, and only hosts of the list are,
  as long as the 64-bit counter does not wrap in between; without hosts the choice fails.\<close>

theorem round_robin_fair:
  assumes "unat (rr_i r) + length (rr_hosts r) < 2 ^ 64"
  shows "set (balance_n (length (rr_hosts r)) r) = Inr ` set (rr_hosts r) \<and> (rr_hosts r = [] \<longrightarrow> snd (rr_Balance r) = Inl NoHostError)"
proof (cases "rr_hosts r = []")
  case False
  let ?n = "length (rr_hosts r)" and ?a = "unat (rr_i r) + 1"
  have b: "balance_n ?n r = map (\<lambda>k. Inr (rr_hosts r ! ((?a + k) mod ?n))) [0..<?n]" using balance_n_nth [OF False assms] .
  have "(\<lambda>k. (?a + k) mod ?n) ` {0..<?n} = {0..<?n}"
  proof (intro equalityI subsetI)
    fix j assume "j \<in> {0..<?n}"
    then obtain k where "k < ?n" "(?a + k) mod ?n = j" using mod_window_surj [of ?n j ?a] False by auto
    then show "j \<in> (\<lambda>k. (?a + k) mod ?n) ` {0..<?n}" by force
  qed (use False in auto)
  then have "(\<lambda>j. Inr (rr_hosts r ! j)) ` (\<lambda>k. (?a + k) mod ?n) ` {0..<?n} = (\<lambda>j. Inr (rr_hosts r ! j)) ` {0..<?n}" by (rule arg_cong)
  then have "set (balance_n ?n r) = (\<lambda>j. Inr (rr_hosts r ! j)) ` {0..<?n}" unfolding b by (simp add: image_image)
  moreover have "(\<lambda>j. Inr (rr_hosts r ! j)) ` {0..<?n} = Inr ` set (rr_hosts r)"
    using nth_image [of ?n "rr_hosts r"] by (simp add: image_image [symmetric, of Inr "(!) (rr_hosts r)"])
  ultimately show ?thesis using False by simp
qed (simp add: rr_Balance_def)

theorem round_robin_fair_witness: "set (balance_n 2 (NewRoundRobin [[1], [2]])) = {Inr [1], Inr [2]}"
proof -
  have "length (rr_hosts (NewRoundRobin [[1], [2]])) = 2" "unat (rr_i (NewRoundRobin [[1], [2]])) = 0" by (simp_all add: NewRoundRobin_def)
  then have "set (balance_n 2 (NewRoundRobin [[1], [2]])) = Inr ` set (rr_hosts (NewRoundRobin [[1], [2]]))"
    using round_robin_fair [of "NewRoundRobin [[1], [2]]"] by (simp del: balance_n.simps)
  then show ?thesis by (simp add: NewRoundRobin_def)
qed

end
