(* ===== verification/Proxy_Config.thy ===== *)
theory Proxy_Config
  imports Balancer
begin

text \<open>
  The configuration (\<^verbatim>\<open>config/\<close>): \<^verbatim>\<open>records.config\<close> is read into a table of typed values, the values are applied to the
  defaults, and the result is validated. The integer fields of the Go struct, to which the field tables hold pointers, are
  the function \<open>c_int\<close> on their names. What \<^verbatim>\<open>url.Parse\<close>, \<^verbatim>\<open>url.ParseRequestURI\<close> and \<^verbatim>\<open>netip.ParsePrefix\<close> make of a text is the
  parameter \<open>config_env\<close>; the files are their lines.
\<close>

section \<open>The structure\<close>

datatype int_field =
    RAMCacheBytes | MaxClientConnections | SharedFillPublicStatic | RangeBlockBytes | CacheWriteTimeout
  | SharedFillMaxTasks | SharedFillMaxWaiters | SharedFillTimeout
  | HealthCheckInterval | HealthCheckTimeout | HealthCheckFailures | HealthCheckSuccesses | ServerPort
  | MaxRequests | MaxQueuedRequests | MaxOriginRequests | MaxOriginQueuedRequests | MaxOriginConnections
  | MaxCacheWriters | MaxQueuedCacheWriters | CacheWriteBufferBytes | MaxCacheObjectBytes
  | RequestHeaderTimeout | ConnectTimeout | TLSHandshakeTimeout | ResponseHeaderTimeout | QueueTimeout | ShutdownTimeout
  | KeepAliveTimeout | TransactionTimeoutIn | TransactionTimeoutOut

record Config =
  c_int :: "int_field \<Rightarrow> int"
  c_RAMCacheAlgorithm :: bytes
  c_resourceDefaults :: bool
  c_ConfigDir :: bytes
  c_TLSCertFile :: bytes
  c_TLSKeyFile :: bytes
  c_UpstreamCAFile :: bytes
  c_HealthCheckPath :: bytes
  c_PurgeToken :: bytes
  c_UpstreamTargets :: "bytes list"
  c_UpstreamAlgo :: bytes
  c_TrustedProxies :: "bytes list"
  c_LogfileDir :: bytes
  c_AccessLogFilename :: bytes
  c_ErrorLogFilename :: bytes

definition set_int :: "int_field \<Rightarrow> int \<Rightarrow> Config \<Rightarrow> Config" where
  "set_int f v c = c\<lparr>c_int := (c_int c)(f := v)\<rparr>"

type_synonym field_spec = "string \<times> int_field \<times> int \<times> int \<times> int"

definition networkFields :: "field_spec list" where
  "networkFields =
     [(''interval'', HealthCheckInterval, 0, 0, 86400), (''timeout'', HealthCheckTimeout, 3, 1, 60),
      (''failures'', HealthCheckFailures, 2, 1, 1000), (''successes'', HealthCheckSuccesses, 2, 1, 1000)]"

definition coalescingFields :: "field_spec list" where
  "coalescingFields =
     [(''cache.range_block_bytes'', RangeBlockBytes, 2 ^ 20, 64 * 2 ^ 10, 8 * 2 ^ 20),
      (''cache.shared_fill_public_static'', SharedFillPublicStatic, 0, 0, 1),
      (''cache.shared_fill_max_tasks'', SharedFillMaxTasks, 16, 1, 1000000),
      (''cache.shared_fill_max_waiters'', SharedFillMaxWaiters, 256, 1, 1000000),
      (''cache.shared_fill_timeout'', SharedFillTimeout, 300, 1, 86400)]"

definition resourceFields :: "field_spec list" where
  "resourceFields =
     [(''http.max_client_connections'', MaxClientConnections, 512, 1, 1000000),
      (''http.max_requests'', MaxRequests, 256, 1, 1000000),
      (''http.max_queued_requests'', MaxQueuedRequests, 64, 0, 1000000),
      (''http.max_origin_requests'', MaxOriginRequests, 64, 1, 1000000),
      (''http.max_origin_queued_requests'', MaxOriginQueuedRequests, 32, 0, 1000000),
      (''http.max_origin_connections'', MaxOriginConnections, 64, 1, 1000000),
      (''cache.max_writers'', MaxCacheWriters, 16, 1, 1000000),
      (''cache.max_queued_writers'', MaxQueuedCacheWriters, 16, 0, 1000000),
      (''cache.write_buffer_bytes'', CacheWriteBufferBytes, 128 * 2 ^ 20, 1, 2 ^ 40),
      (''cache.max_object_bytes'', MaxCacheObjectBytes, 64 * 2 ^ 20, 1, 2 ^ 40),
      (''http.request_header_timeout'', RequestHeaderTimeout, 10, 1, 86400),
      (''http.connect_timeout'', ConnectTimeout, 5, 1, 86400),
      (''http.tls_handshake_timeout'', TLSHandshakeTimeout, 5, 1, 86400),
      (''http.response_header_timeout'', ResponseHeaderTimeout, 30, 1, 86400),
      (''cache.write_timeout'', CacheWriteTimeout, 5, 1, 86400),
      (''http.queue_timeout'', QueueTimeout, 1, 1, 86400),
      (''http.shutdown_timeout'', ShutdownTimeout, 30, 1, 86400),
      (''http.keep_alive_no_activity_timeout_in'', KeepAliveTimeout, 120, 1, 86400),
      (''http.transaction_no_activity_timeout_in'', TransactionTimeoutIn, 30, 1, 86400),
      (''http.transaction_no_activity_timeout_out'', TransactionTimeoutOut, 30, 1, 86400)] @ coalescingFields"

definition default_field :: "field_spec \<Rightarrow> Config \<Rightarrow> Config" where
  "default_field f c = (case f of (name, i, fallback, lo, hi) \<Rightarrow> if c_int c i = 0 then set_int i fallback c else c)"

definition field_ok :: "Config \<Rightarrow> field_spec \<Rightarrow> bool" where
  "field_ok c f = (case f of (name, i, fallback, lo, hi) \<Rightarrow> \<not> (c_int c i < lo \<or> c_int c i > hi))"

section \<open>Records\<close>

record RecordValue =
  rv_Type :: bytes
  rv_Value :: bytes

type_synonym RecordsConfig = "(bytes \<times> RecordValue) list"

definition rc_Has :: "bytes \<Rightarrow> RecordsConfig \<Rightarrow> bool" where "rc_Has key rc \<longleftrightarrow> map_of rc key \<noteq> None"

definition GetString :: "bytes \<Rightarrow> bytes \<Rightarrow> RecordsConfig \<Rightarrow> bytes" where
  "GetString key def rc = (case map_of rc key of Some val \<Rightarrow> rv_Value val | None \<Rightarrow> def)"

definition GetInt :: "bytes \<Rightarrow> int \<Rightarrow> RecordsConfig \<Rightarrow> int" where
  "GetInt key def rc = (case map_of rc key of Some val \<Rightarrow> (case ParseInt (rv_Value val) of Inr i \<Rightarrow> i | Inl _ \<Rightarrow> def) | None \<Rightarrow> def)"

definition GetStringSlice :: "bytes \<Rightarrow> bytes list \<Rightarrow> RecordsConfig \<Rightarrow> bytes list" where
  "GetStringSlice key def rc =
     (case map_of rc key of
        Some val \<Rightarrow> (let result = filter (\<lambda>t. t \<noteq> []) (map TrimSpace (go_Split 0x2c (rv_Value val))) in if result \<noteq> [] then result else def)
      | None \<Rightarrow> def)"

definition record_line :: "bytes \<Rightarrow> RecordsConfig \<Rightarrow> RecordsConfig result" where
  "record_line raw rc =
     (let line = TrimSpace raw in
      if line = [] \<or> starts [0x23] line then Inr rc
      else let parts = go_Fields [] line in
      if length parts < 4 \<or> parts ! 0 \<noteq> go_str ''CONFIG'' then Inl (Err ''invalid configuration syntax'')
      else if parts ! 2 \<noteq> go_str ''STRING'' \<and> parts ! 2 \<noteq> go_str ''INT'' \<and> parts ! 2 \<noteq> go_str ''FLOAT''
        then Inl (Err ''invalid configuration type'')
      else if rc_Has (parts ! 1) rc then Inl (Err ''duplicate configuration key'')
      else Inr (rc @ [(parts ! 1, \<lparr>rv_Type = parts ! 2, rv_Value = go_Join 0x20 (drop 3 parts)\<rparr>)]))"

primrec record_lines :: "bytes list \<Rightarrow> RecordsConfig \<Rightarrow> RecordsConfig result" where
  "record_lines [] rc = Inr rc"
| "record_lines (l # ls) rc = (case record_line l rc of Inl e \<Rightarrow> Inl e | Inr rc \<Rightarrow> record_lines ls rc)"

text \<open>The file is the error of opening it, or the lines the scanner yields and the error it ends with.\<close>

type_synonym text_file = "(bytes list \<times> go_err option) result"

definition LoadRecordsConfig :: "text_file \<Rightarrow> RecordsConfig result" where
  "LoadRecordsConfig file =
     (case file of Inl e \<Rightarrow> Inl (Err ''failed to open records.config'')
      | Inr (ls, scan_err) \<Rightarrow>
          (case record_lines ls [] of Inl e \<Rightarrow> Inl e
           | Inr rc \<Rightarrow> if scan_err \<noteq> None then Inl (Err ''error reading records.config'') else Inr rc))"

section \<open>Validation\<close>

record parsed_url =
  pu_Scheme :: bytes
  pu_Hostname :: bytes
  pu_HasUser :: bool
  pu_Fragment :: bytes
  pu_Port :: bytes

record config_env =
  url_Parse :: "bytes \<Rightarrow> parsed_url option"
  request_path :: "bytes \<Rightarrow> bool"
  ParsePrefix :: "bytes \<Rightarrow> bool"

definition networkDefaults :: "Config \<Rightarrow> Config" where
  "networkDefaults c =
     (let c = fold default_field networkFields c in
      if c_HealthCheckPath c = [] then c\<lparr>c_HealthCheckPath := [0x2f]\<rparr> else c)"

text \<open>\<open>request_path env p\<close>: \<^verbatim>\<open>ParseRequestURI\<close> accepts \<open>p\<close> as a relative reference without host and fragment.\<close>

definition validateNetwork :: "config_env \<Rightarrow> Config \<Rightarrow> go_err option" where
  "validateNetwork env c =
     (if (c_TLSCertFile c = []) \<noteq> (c_TLSKeyFile c = []) then Some (Err ''TLS certificate and key must both be configured'')
      else if \<not> list_all (field_ok c) networkFields then Some (Err ''health field out of range'')
      else if \<not> request_path env (c_HealthCheckPath c) \<or> hd (c_HealthCheckPath c) \<noteq> 0x2f
        then Some (Err ''health path must be an absolute request path'')
      else None)"

definition validateRAM :: "Config \<Rightarrow> go_err option" where
  "validateRAM c =
     (if c_RAMCacheAlgorithm c \<noteq> go_str ''otter'' \<and> c_RAMCacheAlgorithm c \<noteq> go_str ''s3-fifo''
        then Some (Err ''ram_cache_algorithm must be otter or s3-fifo'')
      else if c_int c RAMCacheBytes < 0 \<or> c_int c RAMCacheBytes > 2 ^ 40 then Some (Err ''ram_cache_bytes out of range'')
      else None)"

definition upstream_error :: "config_env \<Rightarrow> bytes \<Rightarrow> go_err option" where
  "upstream_error env raw =
     (case url_Parse env raw of None \<Rightarrow> Some (Err ''invalid upstream URL'')
      | Some target \<Rightarrow>
          if (pu_Scheme target \<noteq> go_str ''http'' \<and> pu_Scheme target \<noteq> go_str ''https'') \<or> pu_Hostname target = [] \<or> pu_HasUser target \<or>
             pu_Fragment target \<noteq> [] then Some (Err ''invalid upstream URL'')
          else if pu_Port target \<noteq> [] \<and> (case ParseUint 16 (pu_Port target) of Inl e \<Rightarrow> True | Inr n \<Rightarrow> n = 0)
            then Some (Err ''upstream TCP port must be between 1 and 65535'')
          else None)"

primrec first_error :: "('a \<Rightarrow> go_err option) \<Rightarrow> 'a list \<Rightarrow> go_err option" where
  "first_error f [] = None"
| "first_error f (x # xs) = (case f x of Some e \<Rightarrow> Some e | None \<Rightarrow> first_error f xs)"

definition RangeReaderReservation :: "Config \<Rightarrow> int" where
  "RangeReaderReservation c = c_int c RangeBlockBytes + 2 * 2 ^ 20 + 64 * 2 ^ 10"

definition CacheWriterReservation :: "Config \<Rightarrow> int" where
  "CacheWriterReservation c =
     6 * 2 ^ 20 + (go_div (c_int c MaxCacheObjectBytes) (2 ^ 20) + 2) * 128 + c_int c RangeBlockBytes + RangeReaderReservation c"

definition config_Validate :: "config_env \<Rightarrow> Config \<Rightarrow> go_err option" where
  "config_Validate env c =
     (if c_UpstreamTargets c = [] then Some (Err ''at least one upstream is required'')
      else case first_error (upstream_error env) (c_UpstreamTargets c) of Some e \<Rightarrow> Some e | None \<Rightarrow>
      if c_UpstreamAlgo c \<noteq> ConsistentHashBalancer \<and> c_UpstreamAlgo c \<noteq> R2Balancer then Some AlgorithmNotSupportedError
      else if \<not> list_all (ParsePrefix env) (c_TrustedProxies c) then Some (Err ''invalid trusted proxy network'')
      else case validateNetwork env c of Some e \<Rightarrow> Some e | None \<Rightarrow>
      case validateRAM c of Some e \<Rightarrow> Some e | None \<Rightarrow>
      if c_int c ServerPort < 0 \<or> c_int c ServerPort > 65535 then Some (Err ''invalid server port'')
      else if \<not> list_all (field_ok c) resourceFields then Some (Err ''field out of range'')
      else if c_int c RangeBlockBytes AND (c_int c RangeBlockBytes - 1) \<noteq> 0 then Some (Err ''range_block_bytes must be a power of two'')
      else if c_int c CacheWriteBufferBytes < CacheWriterReservation c then Some (Err ''cache write budget cannot hold one writer'')
      else None)"

section \<open>Loading\<close>

definition WithDefaults :: "Config \<Rightarrow> Config" where
  "WithDefaults c =
     (if c_resourceDefaults c then c
      else let out = networkDefaults (c\<lparr>c_resourceDefaults := True\<rparr>);
               out = (if c_RAMCacheAlgorithm out = []
                      then let out = out\<lparr>c_RAMCacheAlgorithm := go_str ''otter''\<rparr>
                           in if c_int out RAMCacheBytes = 0 then set_int RAMCacheBytes (10 * 2 ^ 20) out else out
                      else out)
           in fold default_field resourceFields out)"

definition GetDefaultConfig :: Config where
  "GetDefaultConfig = WithDefaults
     \<lparr>c_int = (\<lambda>_. 0)(ServerPort := 80, KeepAliveTimeout := 120, TransactionTimeoutIn := 30, TransactionTimeoutOut := 30),
      c_RAMCacheAlgorithm = [], c_resourceDefaults = False, c_ConfigDir = go_str ''conf'', c_TLSCertFile = [], c_TLSKeyFile = [],
      c_UpstreamCAFile = [], c_HealthCheckPath = [], c_PurgeToken = [], c_UpstreamTargets = [go_str ''http://127.0.0.1:8081''],
      c_UpstreamAlgo = ConsistentHashBalancer, c_TrustedProxies = [], c_LogfileDir = go_str ''/var/log/razor'',
      c_AccessLogFilename = go_str ''access.log'', c_ErrorLogFilename = go_str ''error.log''\<rparr>"

primrec load_fields :: "string \<Rightarrow> RecordsConfig \<Rightarrow> field_spec list \<Rightarrow> Config \<Rightarrow> Config result" where
  "load_fields pre rc [] c = Inr c"
| "load_fields pre rc (f # fs) c =
     (let name = go_str (pre @ fst f) in
      if rc_Has name rc
      then (case ParseInt (GetString name [] rc) of Inl e \<Rightarrow> Inl (Err ''invalid integer'') | Inr v \<Rightarrow> load_fields pre rc fs (set_int (fst (snd f)) v c))
      else load_fields pre rc fs c)"

definition loadNetwork :: "config_env \<Rightarrow> RecordsConfig \<Rightarrow> Config \<Rightarrow> Config result" where
  "loadNetwork env rc c =
     (let c = c\<lparr>c_TLSCertFile := GetString (go_str ''proxy.config.ssl.cert_file'') [] rc,
                c_TLSKeyFile := GetString (go_str ''proxy.config.ssl.key_file'') [] rc,
                c_UpstreamCAFile := GetString (go_str ''proxy.config.http.upstream_ca_file'') [] rc,
                c_HealthCheckPath := GetString (go_str ''proxy.config.http.health.path'') (c_HealthCheckPath c) rc\<rparr> in
      case load_fields ''proxy.config.http.health.'' rc networkFields c of Inl e \<Rightarrow> Inl e
      | Inr c \<Rightarrow> (case validateNetwork env c of Some e \<Rightarrow> Inl e | None \<Rightarrow> Inr c))"

definition loadRAM :: "RecordsConfig \<Rightarrow> Config \<Rightarrow> Config result" where
  "loadRAM rc c =
     (let algorithm = map_of rc (go_str ''proxy.config.cache.ram_cache_algorithm''); capacity = map_of rc (go_str ''proxy.config.cache.ram_cache_bytes'') in
      case (case algorithm of None \<Rightarrow> Inr c
            | Some v \<Rightarrow> if rv_Type v \<noteq> go_str ''STRING'' then Inl (Err ''requires STRING'') else Inr (c\<lparr>c_RAMCacheAlgorithm := rv_Value v\<rparr>)) of
        Inl e \<Rightarrow> Inl e
      | Inr c \<Rightarrow>
          (case (case capacity of None \<Rightarrow> Inr c
                 | Some v \<Rightarrow> if rv_Type v \<noteq> go_str ''INT'' then Inl (Err ''requires INT'')
                             else (case ParseInt (rv_Value v) of Inl e \<Rightarrow> Inl (Err ''invalid'') | Inr n \<Rightarrow> Inr (set_int RAMCacheBytes n c))) of
             Inl e \<Rightarrow> Inl e
           | Inr c \<Rightarrow> (case validateRAM c of Some e \<Rightarrow> Inl e | None \<Rightarrow> Inr c)))"

definition loadLimits :: "config_env \<Rightarrow> RecordsConfig \<Rightarrow> Config \<Rightarrow> Config result" where
  "loadLimits env rc c =
     (case load_fields ''proxy.config.'' rc resourceFields c of Inl e \<Rightarrow> Inl e
      | Inr c \<Rightarrow> (case config_Validate env c of Some e \<Rightarrow> Inl e | None \<Rightarrow> Inr c))"

definition load_list :: "bytes \<Rightarrow> bytes list \<Rightarrow> RecordsConfig \<Rightarrow> bytes list result" where
  "load_list key old rc =
     (if \<not> rc_Has key rc then Inr old
      else let vals = map TrimSpace (go_Split 0x2c (GetString key [] rc)) in
           if [] \<in> set vals then Inl (Err ''empty value'') else Inr vals)"

text \<open>\<open>have_records\<close> and \<open>have_storage\<close> say whether the two files exist.\<close>

definition load_server_port :: "RecordsConfig \<Rightarrow> Config \<Rightarrow> Config result" where
  "load_server_port rc cfg =
     (let ports = go_str ''proxy.config.http.server_ports'' in
      if rc_Has ports rc
      then (case ParseInt (GetString ports [] rc) of Inl e \<Rightarrow> Inl (Err ''invalid server port'') | Inr p \<Rightarrow> Inr (set_int ServerPort p cfg))
      else Inr cfg)"

definition config_Load :: "config_env \<Rightarrow> bool \<Rightarrow> bool \<Rightarrow> bytes \<Rightarrow> text_file \<Rightarrow> Config result" where
  "config_Load env have_records have_storage configDir records =
     (if configDir = [] then Inr GetDefaultConfig
      else if \<not> have_records then Inl (Err ''records.config not found'')
      else if \<not> have_storage then Inl (Err ''storage.config not found'')
      else let cfg = GetDefaultConfig\<lparr>c_ConfigDir := configDir\<rparr> in
      case LoadRecordsConfig records of Inl e \<Rightarrow> Inl (Err ''failed to load records.config'') | Inr rc \<Rightarrow>
      let cfg = cfg\<lparr>c_PurgeToken := GetString (go_str ''proxy.config.http.purge_token'') [] rc\<rparr> in
      case load_server_port rc cfg of Inl e \<Rightarrow> Inl e | Inr cfg \<Rightarrow>
      let cfg = cfg\<lparr>c_LogfileDir := GetString (go_str ''proxy.config.log.logfile_dir'') (c_LogfileDir cfg) rc,
                    c_AccessLogFilename := GetString (go_str ''proxy.config.log.access_log_filename'') (c_AccessLogFilename cfg) rc,
                    c_ErrorLogFilename := GetString (go_str ''proxy.config.log.error_log_filename'') (c_ErrorLogFilename cfg) rc,
                    c_UpstreamAlgo := GetString (go_str ''proxy.config.http.parent_proxy.upstream_algo'') (c_UpstreamAlgo cfg) rc\<rparr> in
      case load_list (go_str ''proxy.config.http.parent_proxy.upstream_targets'') (c_UpstreamTargets cfg) rc of Inl e \<Rightarrow> Inl e | Inr targets \<Rightarrow>
      case load_list (go_str ''proxy.config.http.trusted_proxies'') (c_TrustedProxies cfg) rc of Inl e \<Rightarrow> Inl e | Inr trusted \<Rightarrow>
      case loadNetwork env rc (cfg\<lparr>c_UpstreamTargets := targets, c_TrustedProxies := trusted\<rparr>) of Inl e \<Rightarrow> Inl e | Inr cfg \<Rightarrow>
      case loadRAM rc cfg of Inl e \<Rightarrow> Inl e | Inr cfg \<Rightarrow>
      loadLimits env rc cfg)"


section \<open>What a loaded configuration guarantees\<close>

lemma power_of_two_and:
  fixes n :: int
  assumes "0 < n" "n AND (n - 1) = 0"
  shows "\<exists>k. n = 2 ^ k"
  using assms
proof (induction "nat n" arbitrary: n rule: less_induct)
  case less
  show ?case
  proof (cases "even n")
    case True
    then obtain m where m: "n = 2 * m" by (auto elim: evenE)
    have "n AND (n - 1) = 2 * (m AND (m - 1))"
    proof -
      have "(2 * m - 1) div 2 = m - 1" by presburger
      then show ?thesis by (subst and_rec) (simp add: m)
    qed
    then have "m AND (m - 1) = 0" "0 < m" "nat m < nat n" using less.prems m by simp_all
    then obtain k where "m = 2 ^ k" using less.hyps [of m] by blast
    then show ?thesis using m by (intro exI [of _ "Suc k"]) simp
  next
    case False
    then obtain m where m: "n = 2 * m + 1" by (auto elim: oddE)
    have "n AND (n - 1) = 2 * m" by (subst and_rec) (simp add: m)
    then have "n = 2 ^ 0" using less.prems m by simp
    then show ?thesis by blast
  qed
qed

text \<open>The properties of a configuration that the rest of the program relies on.\<close>

definition config_ok :: "Config \<Rightarrow> bool" where
  "config_ok c \<longleftrightarrow> c_UpstreamTargets c \<noteq> [] \<and> c_UpstreamAlgo c \<in> {ConsistentHashBalancer, R2Balancer} \<and>
     c_RAMCacheAlgorithm c \<in> {go_str ''otter'', go_str ''s3-fifo''} \<and> 0 \<le> c_int c RAMCacheBytes \<and> c_int c RAMCacheBytes \<le> 2 ^ 40 \<and>
     0 \<le> c_int c ServerPort \<and> c_int c ServerPort \<le> 65535 \<and>
     (\<forall>(name, i, fallback, lo, hi)\<in>set (networkFields @ resourceFields). lo \<le> c_int c i \<and> c_int c i \<le> hi) \<and>
     (\<exists>k. c_int c RangeBlockBytes = 2 ^ k) \<and> CacheWriterReservation c \<le> c_int c CacheWriteBufferBytes"

lemma validated_ok:
  assumes "config_Validate env c = None"
  shows "config_ok c"
proof -
  have v: "c_UpstreamTargets c \<noteq> []" "c_UpstreamAlgo c = ConsistentHashBalancer \<or> c_UpstreamAlgo c = R2Balancer"
    "validateNetwork env c = None" "validateRAM c = None" "\<not> (c_int c ServerPort < 0 \<or> c_int c ServerPort > 65535)"
    "list_all (field_ok c) resourceFields" "c_int c RangeBlockBytes AND (c_int c RangeBlockBytes - 1) = 0"
    "\<not> c_int c CacheWriteBufferBytes < CacheWriterReservation c"
    using assms unfolding config_Validate_def by (auto split: if_splits option.splits)
  have n: "list_all (field_ok c) networkFields" using v(3) by (auto simp: validateNetwork_def split: if_splits)
  have r: "c_RAMCacheAlgorithm c \<in> {go_str ''otter'', go_str ''s3-fifo''}" "0 \<le> c_int c RAMCacheBytes" "c_int c RAMCacheBytes \<le> 2 ^ 40"
    using v(4) by (auto simp: validateRAM_def split: if_splits)
  have f: "\<forall>(name, i, fallback, lo, hi)\<in>set (networkFields @ resourceFields). lo \<le> c_int c i \<and> c_int c i \<le> hi"
    using n v(6) by (auto simp: list_all_iff field_ok_def)
  have "(''cache.range_block_bytes'', RangeBlockBytes, 2 ^ 20, 64 * 2 ^ 10, 8 * 2 ^ 20) \<in> set (networkFields @ resourceFields)"
    by (simp add: resourceFields_def coalescingFields_def)
  then have "64 * 2 ^ 10 \<le> c_int c RangeBlockBytes" using f by blast
  then have "\<exists>k. c_int c RangeBlockBytes = 2 ^ k" using power_of_two_and v(7) by force
  then show ?thesis using v(1,2,5,8) r f unfolding config_ok_def by auto
qed


definition fallbacks :: "field_spec list \<Rightarrow> (int_field \<times> int) list" where
  "fallbacks fs = map (\<lambda>(name, i, fallback, lo, hi). (i, fallback)) fs"

lemma fallbacks_Cons: "fallbacks ((n, i, d, lo, hi) # fs) = (i, d) # fallbacks fs"
  by (simp add: fallbacks_def)

lemma fold_default_int:
  assumes "distinct (map fst (fallbacks fs))"
  shows "c_int (fold default_field fs c) i =
    (case map_of (fallbacks fs) i of None \<Rightarrow> c_int c i | Some d \<Rightarrow> if c_int c i = 0 then d else c_int c i)"
  using assms
proof (induction fs arbitrary: c)
  case (Cons f fs)
  obtain n j d lo hi where f: "f = (n, j, d, lo, hi)" by (cases f)
  have d: "distinct (map fst (fallbacks fs))" and nj: "map_of (fallbacks fs) j = None"
    using Cons.prems by (simp_all add: f fallbacks_Cons map_of_eq_None_iff)
  have "c_int (default_field f c) i = (if i = j \<and> c_int c j = 0 then d else c_int c i)" by (simp add: f default_field_def set_int_def)
  moreover have "map_of (fallbacks (f # fs)) i = (if i = j then Some d else map_of (fallbacks fs) i)" by (simp add: f fallbacks_Cons)
  ultimately show ?case using Cons.IH [OF d, of "default_field f c"] nj by (auto split: option.splits)
qed (simp add: fallbacks_def)

lemma fold_default_same:
  "c_RAMCacheAlgorithm (fold default_field fs c) = c_RAMCacheAlgorithm c" "c_UpstreamTargets (fold default_field fs c) = c_UpstreamTargets c"
  "c_UpstreamAlgo (fold default_field fs c) = c_UpstreamAlgo c" "c_TrustedProxies (fold default_field fs c) = c_TrustedProxies c"
  "c_TLSCertFile (fold default_field fs c) = c_TLSCertFile c" "c_TLSKeyFile (fold default_field fs c) = c_TLSKeyFile c"
  "c_HealthCheckPath (fold default_field fs c) = c_HealthCheckPath c"
  by (induction fs arbitrary: c) (auto simp: default_field_def set_int_def split: prod.splits)

lemma tables_distinct: "distinct (map fst (fallbacks networkFields))" "distinct (map fst (fallbacks resourceFields))"
  by (simp_all add: fallbacks_def networkFields_def resourceFields_def coalescingFields_def)

definition default_ints :: "int_field \<Rightarrow> int" where
  "default_ints = (\<lambda>_. 0)(ServerPort := 80, KeepAliveTimeout := 120, TransactionTimeoutIn := 30, TransactionTimeoutOut := 30)"

lemma default_int:
  "c_int GetDefaultConfig i =
     (case map_of (fallbacks resourceFields @ fallbacks networkFields @ [(RAMCacheBytes, 10 * 2 ^ 20)]) i of
        None \<Rightarrow> default_ints i | Some d \<Rightarrow> if default_ints i = 0 then d else default_ints i)"
proof -
  have r: "map_of (fallbacks resourceFields) RAMCacheBytes = None" "map_of (fallbacks networkFields) RAMCacheBytes = None"
    by (simp_all add: fallbacks_def networkFields_def resourceFields_def coalescingFields_def)
  have o: "map_of (fallbacks networkFields) j = None" if "map_of (fallbacks resourceFields) j = Some d" for j d
    using that by (auto simp: fallbacks_def networkFields_def resourceFields_def coalescingFields_def split: if_splits)
  have z: "default_ints RAMCacheBytes = 0" by (simp add: default_ints_def)
  show ?thesis
    unfolding GetDefaultConfig_def WithDefaults_def networkDefaults_def Let_def default_ints_def [symmetric]
    using r z o by (auto simp: fold_default_int tables_distinct fold_default_same set_int_def map_add_def split: option.splits)
qed

lemma default_other:
  "c_RAMCacheAlgorithm GetDefaultConfig = go_str ''otter''" "c_UpstreamTargets GetDefaultConfig = [go_str ''http://127.0.0.1:8081'']"
  "c_UpstreamAlgo GetDefaultConfig = ConsistentHashBalancer" "c_TrustedProxies GetDefaultConfig = []" "c_TLSCertFile GetDefaultConfig = []"
  "c_TLSKeyFile GetDefaultConfig = []" "c_HealthCheckPath GetDefaultConfig = [0x2f]"
  by (simp_all add: GetDefaultConfig_def WithDefaults_def networkDefaults_def Let_def fold_default_same set_int_def)

lemma default_ranges: "list_all (field_ok GetDefaultConfig) networkFields" "list_all (field_ok GetDefaultConfig) resourceFields"
  by (simp_all add: field_ok_def default_int fallbacks_def networkFields_def resourceFields_def coalescingFields_def default_ints_def)

text \<open>The built-in configuration is valid wherever its upstream URL and the path / parse as expected.\<close>

theorem config_default_valid:
  assumes "upstream_error env (go_str ''http://127.0.0.1:8081'') = None" "request_path env [0x2f]"
  shows "config_Validate env GetDefaultConfig = None \<and> config_ok GetDefaultConfig"
proof -
  have i: "c_int GetDefaultConfig RAMCacheBytes = 10 * 2 ^ 20" "c_int GetDefaultConfig ServerPort = 80"
    "c_int GetDefaultConfig RangeBlockBytes = 2 ^ 20" "c_int GetDefaultConfig CacheWriteBufferBytes = 128 * 2 ^ 20"
    "c_int GetDefaultConfig MaxCacheObjectBytes = 64 * 2 ^ 20"
    by (simp_all add: default_int fallbacks_def networkFields_def resourceFields_def coalescingFields_def default_ints_def)
  have "validateNetwork env GetDefaultConfig = None" using assms(2) default_ranges(1) by (simp add: validateNetwork_def default_other)
  moreover have "validateRAM GetDefaultConfig = None" by (simp add: validateRAM_def default_other i)
  moreover have "(2 ^ 20 :: int) AND (2 ^ 20 - 1) = 0" by simp
  ultimately have "config_Validate env GetDefaultConfig = None"
    using assms(1) default_ranges(2)
    by (simp add: config_Validate_def default_other i CacheWriterReservation_def RangeReaderReservation_def)
  then show ?thesis using validated_ok by blast
qed

definition sample_env :: config_env where
  "sample_env = \<lparr>url_Parse = (\<lambda>s. Some \<lparr>pu_Scheme = go_str ''http'', pu_Hostname = go_str ''127.0.0.1'', pu_HasUser = False, pu_Fragment = [],
       pu_Port = go_str ''8081''\<rparr>), request_path = (\<lambda>p. p = [0x2f]), ParsePrefix = (\<lambda>_. True)\<rparr>"

lemma sample_env_ok: "upstream_error sample_env s = None" "request_path sample_env [0x2f]"
  by (simp_all add: upstream_error_def sample_env_def go_str_def ParseUint_def dec_val_def is_digit_def)

theorem config_default_valid_witness: "config_Validate sample_env GetDefaultConfig = None"
  using config_default_valid [OF sample_env_ok] by blast


text \<open>Loading without records gives the defaults.\<close>

lemma load_fields_none: "load_fields pre [] fs c = Inr c"
  by (induction fs arbitrary: c) (simp_all add: rc_Has_def)

lemma load_empty:
  assumes "upstream_error env (go_str ''http://127.0.0.1:8081'') = None" "request_path env [0x2f]" "dir \<noteq> []"
  shows "\<exists>c. config_Load env True True dir (Inr ([], None)) = Inr c"
proof -
  let ?c = "GetDefaultConfig\<lparr>c_ConfigDir := dir, c_PurgeToken := [], c_UpstreamCAFile := []\<rparr>"
  let ?g = "GetDefaultConfig"
  have v: "config_Validate env ?g = None" using config_default_valid [OF assms(1,2)] by blast
  have f: "field_ok (?g\<lparr>c_ConfigDir := d, c_PurgeToken := p, c_UpstreamCAFile := u\<rparr>) = field_ok ?g" for d p u
    by (auto simp: field_ok_def fun_eq_iff)
  have n: "validateNetwork env ?c = None" using v by (simp add: validateNetwork_def f default_other assms(2) default_ranges)
  have r: "validateRAM ?c = None" by (simp add: validateRAM_def default_other default_int fallbacks_def networkFields_def resourceFields_def coalescingFields_def default_ints_def)
  have vc: "config_Validate env ?c = None"
    using v n r f by (auto simp: config_Validate_def CacheWriterReservation_def RangeReaderReservation_def split: if_splits option.splits)
  have e: "?g\<lparr>c_ConfigDir := dir, c_PurgeToken := [], c_TLSCertFile := [], c_TLSKeyFile := [], c_UpstreamCAFile := []\<rparr> = ?c"
    by (rule Config.equality) (simp_all add: default_other)
  show ?thesis using assms(3) n r vc
    by (simp add: config_Load_def LoadRecordsConfig_def load_server_port_def rc_Has_def GetString_def load_list_def loadNetwork_def loadRAM_def
        loadLimits_def load_fields_none Let_def e default_other)
qed


section \<open>Reading records back\<close>

text \<open>A word of the file is printable ASCII. A record is printed with single spaces.\<close>

definition word_byte :: "u8 \<Rightarrow> bool" where "word_byte c \<longleftrightarrow> 0x21 \<le> c \<and> c \<le> 0x7e"

definition go_word :: "bytes \<Rightarrow> bool" where "go_word w \<longleftrightarrow> w \<noteq> [] \<and> list_all word_byte w"

lemma lead_word:
  assumes "word_byte c"
  shows "lead space_seqs (c # s) = 0" "lead (map rev space_seqs) (c # s) = 0"
proof -
  have c: "c \<noteq> 0x09" "c \<noteq> 0x0a" "c \<noteq> 0x0b" "c \<noteq> 0x0c" "c \<noteq> 0x0d" "c \<noteq> 0x20" "c \<noteq> 0xc2" "c \<noteq> 0xe1" "c \<noteq> 0xe2" "c \<noteq> 0xe3"
    using assms by (auto simp: word_byte_def)
  then show "lead space_seqs (c # s) = 0" by (simp add: lead_def space_seqs_def starts_def)
  have "c \<noteq> 0x85" "c \<noteq> 0xa0" "c \<noteq> 0x80" "c \<noteq> 0x81" "c \<noteq> 0x82" "c \<noteq> 0x83" "c \<noteq> 0x84" "c \<noteq> 0x86" "c \<noteq> 0x87" "c \<noteq> 0x88" "c \<noteq> 0x89"
    "c \<noteq> 0x8a" "c \<noteq> 0xa8" "c \<noteq> 0xa9" "c \<noteq> 0xaf" "c \<noteq> 0x9f" using assms by (auto simp: word_byte_def)
  then show "lead (map rev space_seqs) (c # s) = 0" using c by (simp add: lead_def space_seqs_def starts_def)
qed

lemma Fields_word: "list_all word_byte w \<Longrightarrow> go_Fields cur (w @ s) = go_Fields (rev w @ cur) s"
proof (induction w arbitrary: cur)
  case (Cons c w)
  then show ?case using lead_word [of c "w @ s"] by (subst go_Fields.simps) simp
qed simp

lemma Fields_space: "cur \<noteq> [] \<Longrightarrow> go_Fields cur (0x20 # s) = rev cur # go_Fields [] s"
proof -
  have "lead space_seqs (0x20 # s) = 1" by (simp add: lead_def space_seqs_def starts_def)
  then show "cur \<noteq> [] \<Longrightarrow> ?thesis" by (subst go_Fields.simps) simp
qed

lemma Fields_join:
  assumes "ws \<noteq> []" "\<forall>w\<in>set ws. go_word w"
  shows "go_Fields [] (go_Join 0x20 ws) = ws"
proof -
  have "go_Fields (rev w) (concat (map (\<lambda>g. 0x20 # g) ws)) = w # ws" if "w \<noteq> []" "\<forall>w\<in>set ws. go_word w" for w :: bytes and ws
    using that
  proof (induction ws arbitrary: w)
    case Nil
    then show ?case by (subst go_Fields.simps) simp
  next
    case (Cons v ws)
    then show ?case using Fields_word [of v "[]" "concat (map (\<lambda>g. 0x20 # g) ws)"] by (simp add: Fields_space go_word_def)
  qed
  moreover obtain w us where ws: "ws = w # us" using assms(1) by (cases ws) auto
  ultimately show ?thesis using assms(2) Fields_word [of w "[]" "concat (map (\<lambda>g. 0x20 # g) us)"] by (simp add: go_Join_def go_word_def)
qed

lemma Join_ends:
  assumes "ws \<noteq> []" "\<forall>w\<in>set ws. go_word w"
  shows "go_Join 0x20 ws \<noteq> [] \<and> hd (go_Join 0x20 ws) = hd (hd ws) \<and> word_byte (last (go_Join 0x20 ws))"
  using assms
proof (induction ws rule: rev_induct)
  case (snoc w ws)
  have w: "w \<noteq> []" "word_byte (last w)" using snoc.prems by (auto simp: go_word_def list_all_iff)
  show ?case
  proof (cases ws)
    case Nil
    then show ?thesis using w by (simp add: go_Join_def)
  next
    case (Cons v vs)
    then show ?thesis using w snoc.prems by (simp add: go_Join_def go_word_def)
  qed
qed simp


definition record_text :: "bytes \<Rightarrow> bytes \<Rightarrow> bytes list \<Rightarrow> bytes" where
  "record_text key ty vals = go_Join 0x20 (go_str ''CONFIG'' # key # ty # vals)"

lemma config_word: "go_word (go_str ''CONFIG'')" "hd (go_str ''CONFIG'') = 0x43"
  by (simp_all add: go_word_def word_byte_def go_str_def)

lemma TrimSpace_words:
  assumes "s \<noteq> []" "word_byte (hd s)" "word_byte (last s)"
  shows "TrimSpace s = s"
proof -
  obtain c t where s: "s = c # t" using assms(1) by (cases s) auto
  obtain d u where r: "rev s = d # u" using assms(1) by (cases "rev s") auto
  then have "d = last s" using assms(1) by (metis hd_rev list.sel(1))
  then show ?thesis using TrimSpace_plain lead_word(1) [of c t] lead_word(2) [of d u] assms(2,3) s r by simp
qed

lemma record_line_print:
  assumes "go_word key" "ty \<in> {go_str ''STRING'', go_str ''INT'', go_str ''FLOAT''}" "vals \<noteq> []" "\<forall>v\<in>set vals. go_word v" "\<not> rc_Has key rc"
  shows "record_line (record_text key ty vals) rc = Inr (rc @ [(key, \<lparr>rv_Type = ty, rv_Value = go_Join 0x20 vals\<rparr>)])"
proof -
  let ?ws = "go_str ''CONFIG'' # key # ty # vals"
  have "go_word ty" using assms(2) by (auto simp: go_word_def word_byte_def go_str_def)
  then have ws: "\<forall>w\<in>set ?ws. go_word w" using assms(1,4) config_word(1) by simp
  have j: "go_Join 0x20 ?ws \<noteq> []" "hd (go_Join 0x20 ?ws) = 0x43" "word_byte (last (go_Join 0x20 ?ws))"
    using Join_ends [of ?ws] ws config_word(2) by simp_all
  then have t: "TrimSpace (go_Join 0x20 ?ws) = go_Join 0x20 ?ws" by (intro TrimSpace_words) (simp_all add: word_byte_def)
  have "\<not> starts [0x23] (go_Join 0x20 ?ws)" using j(1,2) by (cases "go_Join 0x20 ?ws") (auto simp: starts_def)
  then show ?thesis using j t Fields_join [of ?ws] ws assms by (auto simp: record_line_def record_text_def Let_def)
qed

text \<open>Records are read back as printed. A file of \<^verbatim>\<open>CONFIG\<close> lines with distinct keys, known types and values of printable
  words gives exactly those entries.\<close>

theorem records_roundtrip:
  assumes "\<forall>(key, ty, vals)\<in>set es. go_word key \<and> ty \<in> {go_str ''STRING'', go_str ''INT'', go_str ''FLOAT''} \<and> vals \<noteq> [] \<and> (\<forall>v\<in>set vals. go_word v)"
    "distinct (map fst es)"
  shows "LoadRecordsConfig (Inr (map (\<lambda>(key, ty, vals). record_text key ty vals) es, None)) =
    Inr (map (\<lambda>(key, ty, vals). (key, \<lparr>rv_Type = ty, rv_Value = go_Join 0x20 vals\<rparr>)) es)"
proof -
  have "record_lines (map (\<lambda>(key, ty, vals). record_text key ty vals) es) rc =
      Inr (rc @ map (\<lambda>(key, ty, vals). (key, \<lparr>rv_Type = ty, rv_Value = go_Join 0x20 vals\<rparr>)) es)"
    if "fst ` set rc \<inter> fst ` set es = {}" for rc
    using assms that
  proof (induction es arbitrary: rc)
    case (Cons e es)
    obtain k t v where e: "e = (k, t, v)" by (cases e)
    have "\<not> rc_Has k rc" using Cons.prems(3) e by (auto simp: rc_Has_def map_of_eq_None_iff)
    then have l: "record_line (record_text k t v) rc = Inr (rc @ [(k, \<lparr>rv_Type = t, rv_Value = go_Join 0x20 v\<rparr>)])"
      using Cons.prems(1) e by (intro record_line_print) auto
    have "fst ` set (rc @ [(k, \<lparr>rv_Type = t, rv_Value = go_Join 0x20 v\<rparr>)]) \<inter> fst ` set es = {}" using Cons.prems(2,3) e by auto
    then show ?case using Cons.IH [of "rc @ [(k, \<lparr>rv_Type = t, rv_Value = go_Join 0x20 v\<rparr>)]"] Cons.prems(1,2) e l by simp
  qed simp
  from this [of "[]"] show ?thesis by (simp add: LoadRecordsConfig_def)
qed

theorem records_roundtrip_witness:
  "LoadRecordsConfig (Inr ([record_text (go_str ''a.b'') (go_str ''INT'') [go_str ''7'']], None)) =
     Inr [(go_str ''a.b'', \<lparr>rv_Type = go_str ''INT'', rv_Value = go_str ''7''\<rparr>)]"
proof -
  have "go_word (go_str ''a.b'')" "go_word (go_str ''7'')" by (simp_all add: go_word_def word_byte_def go_str_def)
  then show ?thesis using records_roundtrip [of "[(go_str ''a.b'', go_str ''INT'', [go_str ''7''])]"] by (simp add: go_Join_def)
qed

end
