(* ===== verification/Proxy_Limits.thy ===== *)
theory Proxy_Limits
  imports Balancer
begin

text \<open>
  The work budgets (\<^verbatim>\<open>internal/budget/budget.go\<close>), the limits of the upstream proxy (\<^verbatim>\<open>proxy/limits.go\<close>) and its health checks
  (\<^verbatim>\<open>proxy/health.go\<close>). A Go channel used as a semaphore is its number of elements. \<^verbatim>\<open>Acquire\<close> blocks at one place, so it is
  two steps: the part up to the wait, and the part after it for each way the wait can end.
\<close>

section \<open>Limiter\<close>

record Limiter =
  l_active :: nat
  l_queue_cap :: nat
  l_slots :: nat
  l_queue :: nat
  l_rejected :: nat

definition NewLimiter :: "nat \<Rightarrow> nat \<Rightarrow> Limiter" where
  "NewLimiter active queued = \<lparr>l_active = active, l_queue_cap = queued, l_slots = 0, l_queue = 0, l_rejected = 0\<rparr>"

datatype acquire_result = Acquired | Refused go_err | Waiting

definition acquire_start :: "go_err option \<Rightarrow> Limiter \<Rightarrow> Limiter \<times> acquire_result" where
  "acquire_start ctx l =
     (case ctx of Some e \<Rightarrow> (l, Refused e) | None \<Rightarrow>
        if l_slots l < l_active l then (l\<lparr>l_slots := l_slots l + 1\<rparr>, Acquired)
        else if l_queue l < l_queue_cap l then (l\<lparr>l_queue := l_queue l + 1\<rparr>, Waiting)
        else (l\<lparr>l_rejected := l_rejected l + 1\<rparr>, Refused ErrOverloaded))"

datatype wake = SlotFree "go_err option" | CtxDone go_err | TimerFired

text \<open>The deferred receive from the queue happens on every way out; a slot can only be taken if one is free.\<close>

definition acquire_wake :: "wake \<Rightarrow> Limiter \<Rightarrow> (Limiter \<times> acquire_result) option" where
  "acquire_wake ev l =
     (let left = l\<lparr>l_queue := l_queue l - 1\<rparr> in
      case ev of
        SlotFree ctx \<Rightarrow>
          if l_slots l < l_active l
          then Some (case ctx of Some e \<Rightarrow> (left, Refused e) | None \<Rightarrow> (left\<lparr>l_slots := l_slots l + 1\<rparr>, Acquired))
          else None
      | CtxDone e \<Rightarrow> Some (left, Refused e)
      | TimerFired \<Rightarrow> Some (left\<lparr>l_rejected := l_rejected l + 1\<rparr>, Refused ErrOverloaded))"

definition limiter_release :: "Limiter \<Rightarrow> Limiter" where
  "limiter_release l = l\<lparr>l_slots := l_slots l - 1\<rparr>"

definition limiter_Stats :: "Limiter \<Rightarrow> nat \<times> nat \<times> nat" where
  "limiter_Stats l = (l_slots l, l_queue l, l_rejected l)"

definition TryAcquire :: "go_err option \<Rightarrow> Limiter \<Rightarrow> Limiter \<times> acquire_result" where
  "TryAcquire ctx l =
     (case ctx of Some e \<Rightarrow> (l, Refused e) | None \<Rightarrow>
        if l_slots l < l_active l then (l\<lparr>l_slots := l_slots l + 1\<rparr>, Acquired) else (l, Refused ErrOverloaded))"

text \<open>The interleavings of any number of clients: the state counts the clients that hold a slot and those that wait.\<close>

definition count_result :: "acquire_result \<Rightarrow> nat \<times> nat \<Rightarrow> nat \<times> nat" where
  "count_result r hw = (case r of Acquired \<Rightarrow> (fst hw + 1, snd hw) | Waiting \<Rightarrow> (fst hw, snd hw + 1) | Refused _ \<Rightarrow> hw)"

inductive budget_step :: "Limiter \<times> nat \<times> nat \<Rightarrow> Limiter \<times> nat \<times> nat \<Rightarrow> bool" where
  enter: "acquire_start ctx l = (l', r) \<Longrightarrow> budget_step (l, hw) (l', count_result r hw)"
| try_enter: "TryAcquire ctx l = (l', r) \<Longrightarrow> budget_step (l, hw) (l', count_result r hw)"
| wake: "acquire_wake ev l = Some (l', r) \<Longrightarrow> budget_step (l, h, Suc w) (l', count_result r (h, w))"
| leave: "budget_step (l, Suc h, w) (limiter_release l, h, w)"

inductive budget_reach :: "nat \<Rightarrow> nat \<Rightarrow> Limiter \<times> nat \<times> nat \<Rightarrow> bool" for active queued where
  new: "budget_reach active queued (NewLimiter active queued, 0, 0)"
| step: "budget_reach active queued s \<Longrightarrow> budget_step s t \<Longrightarrow> budget_reach active queued t"

definition budget_inv :: "nat \<Rightarrow> nat \<Rightarrow> Limiter \<times> nat \<times> nat \<Rightarrow> bool" where
  "budget_inv active queued s = (case s of (l, h, w) \<Rightarrow>
     l_active l = active \<and> l_queue_cap l = queued \<and> l_slots l = h \<and> l_queue l = w \<and> h \<le> active \<and> w \<le> queued)"

lemma budget_step_inv: "budget_step s t \<Longrightarrow> budget_inv active queued s \<Longrightarrow> budget_inv active queued t"
proof (induction rule: budget_step.induct)
  case (enter ctx l l' r hw)
  then show ?case by (cases hw) (auto simp: budget_inv_def acquire_start_def count_result_def split: option.splits if_splits)
next
  case (try_enter ctx l l' r hw)
  then show ?case by (cases hw) (auto simp: budget_inv_def TryAcquire_def count_result_def split: option.splits if_splits)
next
  case (wake ev l l' r h w)
  then show ?case by (auto simp: budget_inv_def acquire_wake_def count_result_def Let_def split: wake.splits option.splits if_splits)
next
  case (leave l h w)
  then show ?case by (auto simp: budget_inv_def limiter_release_def)
qed

lemma budget_reach_inv: "budget_reach active queued s \<Longrightarrow> budget_inv active queued s"
proof (induction rule: budget_reach.induct)
  case new
  show ?case by (simp add: budget_inv_def NewLimiter_def)
next
  case (step s t)
  then show ?case using budget_step_inv by blast
qed

text \<open>C13. The budget holds under every interleaving. The clients that hold a slot are exactly the slots in use and never more
  than the limit, the clients that wait are exactly the queued ones and never more than the queue allows; and a
  waiting client can take a slot as soon as one is released.\<close>

theorem budget_bounds:
  assumes "budget_reach active queued (l, h, w)"
  shows "limiter_Stats l = (h, w, l_rejected l) \<and> h \<le> active \<and> w \<le> queued \<and>
    (0 < w \<and> 0 < h \<longrightarrow> (\<exists>l'. acquire_wake (SlotFree None) (limiter_release l) = Some (l', Acquired)))"
proof -
  have i: "budget_inv active queued (l, h, w)" using budget_reach_inv [OF assms] .
  then have "acquire_wake (SlotFree None) (limiter_release l) =
      Some (limiter_release l\<lparr>l_queue := l_queue l - 1, l_slots := l_slots l\<rparr>, Acquired)" if "0 < h"
    using that by (auto simp: acquire_wake_def limiter_release_def budget_inv_def Let_def)
  then show ?thesis using i by (auto simp: budget_inv_def limiter_Stats_def)
qed

theorem budget_bounds_witness:
  "\<exists>l. budget_reach 1 1 (l, 1, 1) \<and> limiter_Stats l = (1, 1, 0)"
proof -
  let ?l1 = "fst (acquire_start None (NewLimiter 1 1))" and ?l2 = "fst (acquire_start None (fst (acquire_start None (NewLimiter 1 1))))"
  have "budget_step (NewLimiter 1 1, 0, 0) (?l1, count_result Acquired (0, 0))"
    by (rule budget_step.enter [where ctx = None]) (simp add: acquire_start_def NewLimiter_def)
  then have r1: "budget_reach 1 1 (?l1, 1, 0)" using budget_reach.step [OF budget_reach.new] by (simp add: count_result_def)
  have "budget_step (?l1, 1, 0) (?l2, count_result Waiting (1, 0))"
    by (rule budget_step.enter [where ctx = None]) (simp add: acquire_start_def NewLimiter_def)
  then have r2: "budget_reach 1 1 (?l2, 1, 1)" using budget_reach.step [OF r1] by (simp add: count_result_def)
  have "l_rejected ?l2 = 0" by (simp add: acquire_start_def NewLimiter_def)
  then show ?thesis using budget_bounds [OF r2] r2 by auto
qed

section \<open>Limits\<close>

record Limits =
  lm_Requests :: int
  lm_Queued :: int
  lm_Connections :: int
  lm_QueueTimeout :: int
  lm_DialTimeout :: int
  lm_TLSHandshakeTimeout :: int
  lm_ResponseHeaderTimeout :: int
  lm_BodyIdleTimeout :: int

definition seconds :: "int \<Rightarrow> int" where "seconds n = n * 1000000000"

definition DefaultLimits :: Limits where
  "DefaultLimits = \<lparr>lm_Requests = 64, lm_Queued = 32, lm_Connections = 64, lm_QueueTimeout = seconds 1, lm_DialTimeout = seconds 5,
     lm_TLSHandshakeTimeout = seconds 5, lm_ResponseHeaderTimeout = seconds 30, lm_BodyIdleTimeout = seconds 30\<rparr>"

definition or_default :: "int \<Rightarrow> int \<Rightarrow> int" where "or_default v d = (if v = 0 then d else v)"

definition limits_defaults :: "Limits \<Rightarrow> Limits" where
  "limits_defaults l =
     l\<lparr>lm_Requests := or_default (lm_Requests l) (lm_Requests DefaultLimits),
       lm_Connections := or_default (lm_Connections l) (lm_Connections DefaultLimits),
       lm_QueueTimeout := or_default (lm_QueueTimeout l) (lm_QueueTimeout DefaultLimits),
       lm_DialTimeout := or_default (lm_DialTimeout l) (lm_DialTimeout DefaultLimits),
       lm_TLSHandshakeTimeout := or_default (lm_TLSHandshakeTimeout l) (lm_TLSHandshakeTimeout DefaultLimits),
       lm_ResponseHeaderTimeout := or_default (lm_ResponseHeaderTimeout l) (lm_ResponseHeaderTimeout DefaultLimits),
       lm_BodyIdleTimeout := or_default (lm_BodyIdleTimeout l) (lm_BodyIdleTimeout DefaultLimits)\<rparr>"

text \<open>An upstream URL, with what \<^verbatim>\<open>net.SplitHostPort\<close> says of its authority.\<close>

record origin_url =
  ou_Scheme :: bytes
  ou_Host :: bytes
  ou_HasPort :: bool

definition GetHost :: "origin_url \<Rightarrow> bytes" where
  "GetHost u =
     (if ou_HasPort u then ou_Host u
      else if ou_Scheme u = go_str ''http'' then ou_Host u @ go_str '':80''
      else if ou_Scheme u = go_str ''https'' then ou_Host u @ go_str '':443''
      else ou_Host u)"

definition originKey :: "origin_url \<Rightarrow> bytes" where
  "originKey u = ToLower (ou_Scheme u) @ go_str ''://'' @ ToLower (GetHost u)"

record proxy_limits =
  pl_limits :: Limits
  pl_budgets :: "bytes \<rightharpoonup> Limiter"
  pl_customTransport :: bool
  pl_hasRoots :: bool
  pl_targets :: "(bytes \<times> origin_url) list"

definition add_budget :: "Limits \<Rightarrow> bytes \<times> origin_url \<Rightarrow> (bytes \<rightharpoonup> Limiter) \<Rightarrow> (bytes \<rightharpoonup> Limiter)" where
  "add_budget l t m = (let key = originKey (snd t) in
     if m key = None then m(key \<mapsto> NewLimiter (nat (lm_Requests l)) (nat (lm_Queued l))) else m)"

text \<open>The HTTP transport that the function builds for its own connections is not part of the state here.\<close>

definition ConfigureLimits :: "Limits \<Rightarrow> proxy_limits \<Rightarrow> proxy_limits result" where
  "ConfigureLimits l h =
     (let l = limits_defaults l in
      if lm_Requests l < 1 \<or> lm_Queued l < 0 \<or> lm_Connections l < 1 \<or> lm_QueueTimeout l < 0 \<or> lm_DialTimeout l < 0 \<or>
         lm_TLSHandshakeTimeout l < 0 \<or> lm_ResponseHeaderTimeout l < 0 \<or> lm_BodyIdleTimeout l < 0
      then Inl (Err ''invalid upstream resource limits'')
      else if pl_customTransport h \<and> pl_hasRoots h then Inl (Err ''upstream CA file cannot be combined with a custom transport'')
      else Inr (h\<lparr>pl_limits := l, pl_budgets := fold (add_budget l) (pl_targets h) Map.empty\<rparr>))"

lemma fold_budget: "fold (add_budget l) ts m k =
    (if m k \<noteq> None then m k else if \<exists>t\<in>set ts. originKey (snd t) = k then Some (NewLimiter (nat (lm_Requests l)) (nat (lm_Queued l))) else None)"
proof (induction ts arbitrary: m)
  case (Cons t ts)
  then show ?case by (cases "originKey (snd t) = k") (auto simp: add_budget_def Let_def)
qed simp

text \<open>Every target has a budget, shared by the targets of one origin: after the limits are configured, each target's
  origin has an empty limiter with positive capacity, so that looking one up for a request cannot fail.\<close>

theorem every_target_has_budget:
  assumes "ConfigureLimits l h = Inr h'" "t \<in> set (pl_targets h)"
  shows "\<exists>b. pl_budgets h' (originKey (snd t)) = Some b \<and> 0 < l_active b \<and> l_slots b = 0 \<and> l_queue b = 0 \<and>
    int (l_active b) = lm_Requests (pl_limits h') \<and> int (l_queue_cap b) = lm_Queued (pl_limits h')"
proof -
  have h': "h' = h\<lparr>pl_limits := limits_defaults l, pl_budgets := fold (add_budget (limits_defaults l)) (pl_targets h) Map.empty\<rparr>"
    "\<not> lm_Requests (limits_defaults l) < 1" "\<not> lm_Queued (limits_defaults l) < 0"
    using assms(1) by (auto simp: ConfigureLimits_def Let_def split: if_splits)
  have "pl_budgets h' (originKey (snd t)) = Some (NewLimiter (nat (lm_Requests (limits_defaults l))) (nat (lm_Queued (limits_defaults l))))"
    using assms(2) unfolding h'(1) by (auto simp: fold_budget)
  then show ?thesis using h'(2,3) unfolding h'(1) by (auto simp: NewLimiter_def)
qed

definition sample_target :: "bytes \<times> origin_url" where
  "sample_target = (go_str ''http://h'', \<lparr>ou_Scheme = go_str ''http'', ou_Host = go_str ''h'', ou_HasPort = False\<rparr>)"

definition sample_proxy :: proxy_limits where
  "sample_proxy = \<lparr>pl_limits = DefaultLimits, pl_budgets = Map.empty, pl_customTransport = False, pl_hasRoots = False, pl_targets = [sample_target]\<rparr>"

theorem every_target_has_budget_witness:
  "\<exists>h' b. ConfigureLimits DefaultLimits sample_proxy = Inr h' \<and> pl_budgets h' (originKey (snd sample_target)) = Some b \<and> 0 < l_active b"
proof -
  obtain h' where h: "ConfigureLimits DefaultLimits sample_proxy = Inr h'"
    by (simp add: ConfigureLimits_def limits_defaults_def DefaultLimits_def or_default_def sample_proxy_def seconds_def Let_def)
  have "sample_target \<in> set (pl_targets sample_proxy)" by (simp add: sample_proxy_def)
  then show ?thesis using every_target_has_budget [OF h] h by blast
qed


section \<open>Health checks\<close>

record HealthConfig =
  hc_Interval :: int
  hc_Timeout :: int
  hc_Failures :: int
  hc_Successes :: int
  hc_Path :: bytes

text \<open>\<open>request_path p\<close> says that \<^verbatim>\<open>url.ParseRequestURI\<close> accepts \<open>p\<close> as a relative reference without host and fragment.\<close>

definition health_Validate :: "(bytes \<Rightarrow> bool) \<Rightarrow> HealthConfig \<Rightarrow> go_err option" where
  "health_Validate request_path c =
     (if hc_Interval c < 0 \<or> hc_Interval c > seconds (24 * 3600) then Some (Err ''invalid health interval'')
      else if hc_Interval c = 0 then None
      else if hc_Timeout c \<le> 0 \<or> hc_Timeout c > seconds 60 \<or> hc_Failures c < 1 \<or> hc_Failures c > 1000 \<or> hc_Successes c < 1 \<or> hc_Successes c > 1000
        then Some (Err ''invalid health timeout or thresholds'')
      else if hc_Path c \<noteq> [] \<and> (\<not> request_path (hc_Path c) \<or> hd (hc_Path c) \<noteq> 0x2f)
        then Some (Err ''health path must be an absolute request path'')
      else None)"

record health_start =
  hs_stopped :: bool
  hs_started :: bool

text \<open>The configuration the checker goroutine runs with is returned; \<open>None\<close> if none is started.\<close>

definition StartHealthChecks :: "(bytes \<Rightarrow> bool) \<Rightarrow> HealthConfig \<Rightarrow> health_start \<Rightarrow> health_start \<times> HealthConfig option result" where
  "StartHealthChecks request_path c h =
     (case health_Validate request_path c of Some e \<Rightarrow> (h, Inl e) | None \<Rightarrow>
        if hc_Interval c = 0 then (h, Inr None)
        else let c = (if hc_Path c = [] then c\<lparr>hc_Path := [0x2f]\<rparr> else c) in
        if hs_stopped h then (h, Inl (Err ''health checks already stopped''))
        else if hs_started h then (h, Inl (Err ''health checks already started''))
        else (h\<lparr>hs_started := True\<rparr>, Inr (Some c)))"

definition HealthCheck :: "(bytes \<Rightarrow> bool) \<Rightarrow> int \<Rightarrow> health_start \<Rightarrow> health_start" where
  "HealthCheck request_path interval h =
     (if interval = 0 \<or> interval > 86400 then h
      else fst (StartHealthChecks request_path
        \<lparr>hc_Interval = seconds interval, hc_Timeout = seconds 3, hc_Failures = 2, hc_Successes = 2, hc_Path = []\<rparr> h))"

record 'c health =
  he_failures :: "bytes \<Rightarrow> int"
  he_successes :: "bytes \<Rightarrow> int"
  he_alive :: "bytes \<Rightarrow> bool"
  he_lb :: "'c balancer"

text \<open>What \<^verbatim>\<open>RoundTrip\<close> returned: an error or a status code.\<close>

definition probe_healthy :: "int result \<Rightarrow> bool" where
  "probe_healthy response = (case response of Inl e \<Rightarrow> False | Inr status \<Rightarrow> 200 \<le> status \<and> status < 400)"

definition checkHost :: "'c ring_ops \<Rightarrow> HealthConfig \<Rightarrow> bytes \<Rightarrow> int result \<Rightarrow> 'c health \<Rightarrow> 'c health" where
  "checkHost ops c host response h =
     (let healthy = probe_healthy response;
          f = (if healthy then 0 else min (he_failures h host + 1) (hc_Failures c));
          s = (if healthy then min (he_successes h host + 1) (hc_Successes c) else 0);
          h = h\<lparr>he_failures := (he_failures h)(host := f), he_successes := (he_successes h)(host := s)\<rparr>;
          alive = he_alive h host;
          h = (if alive \<and> f \<ge> hc_Failures c
               then h\<lparr>he_lb := lb_Remove ops host (he_lb h), he_alive := (he_alive h)(host := False)\<rparr> else h)
      in if \<not> alive \<and> s \<ge> hc_Successes c
         then h\<lparr>he_lb := lb_Add ops host (he_lb h), he_alive := (he_alive h)(host := True)\<rparr> else h)"

definition checkHealth :: "'c ring_ops \<Rightarrow> HealthConfig \<Rightarrow> (bytes \<times> int result) list \<Rightarrow> 'c health \<Rightarrow> 'c health" where
  "checkHealth ops c probes h = fold (\<lambda>(host, response). checkHost ops c host response) probes h"

text \<open>Invariant of the round-robin case: a host is in the rotation exactly while it is alive.\<close>

definition rotation_ok :: "'c health \<Rightarrow> bool" where
  "rotation_ok h = (case he_lb h of CH c \<Rightarrow> True | RR r \<Rightarrow> distinct (rr_hosts r) \<and> (\<forall>host. host \<in> set (rr_hosts r) \<longleftrightarrow> he_alive h host))"

lemma checkHost_fields:
  "he_failures (checkHost ops c host r h) = (he_failures h)(host := if probe_healthy r then 0 else min (he_failures h host + 1) (hc_Failures c))"
  "he_successes (checkHost ops c host r h) = (he_successes h)(host := if probe_healthy r then min (he_successes h host + 1) (hc_Successes c) else 0)"
  by (simp_all add: checkHost_def Let_def)

lemma checkHost_alive:
  "he_alive (checkHost ops c host r h) = (he_alive h)(host :=
     if he_alive h host then \<not> (hc_Failures c \<le> he_failures (checkHost ops c host r h) host)
     else hc_Successes c \<le> he_successes (checkHost ops c host r h) host)"
  by (auto simp: checkHost_def Let_def fun_eq_iff)

lemma checkHost_rotation:
  assumes "rotation_ok h"
  shows "rotation_ok (checkHost ops c host r h)"
proof (cases "he_lb h")
  case (RR rr)
  have d: "distinct (rr_hosts rr)" "\<forall>x. x \<in> set (rr_hosts rr) \<longleftrightarrow> he_alive h x" using assms RR by (simp_all add: rotation_ok_def)
  then show ?thesis using RR base_Remove_set [OF d(1), of host] base_Add_set [OF d(1), of host]
    by (auto simp: rotation_ok_def checkHost_def Let_def lb_Remove_def lb_Add_def)
qed (auto simp: rotation_ok_def checkHost_def Let_def lb_Remove_def lb_Add_def)

lemma checkHealth_Cons: "checkHealth ops c (p # ps) h = checkHealth ops c ps (checkHost ops c (fst p) (snd p) h)"
  by (simp add: checkHealth_def case_prod_unfold)

lemma checkHealth_snoc: "checkHealth ops c (ps @ [p]) h = checkHost ops c (fst p) (snd p) (checkHealth ops c ps h)"
  by (simp add: checkHealth_def case_prod_unfold)

text \<open>The probes of one host, latest first, and the length of the run of equal answers at the end.\<close>

definition streak :: "bool \<Rightarrow> bytes \<Rightarrow> (bytes \<times> int result) list \<Rightarrow> int" where
  "streak b host ps = int (length (takeWhile (\<lambda>(_, r). probe_healthy r = b) (filter (\<lambda>(x, _). x = host) (rev ps))))"

lemma streak_snoc: "streak b host (ps @ [(x, r)]) = (if x \<noteq> host then streak b host ps else if probe_healthy r = b then streak b host ps + 1 else 0)"
  by (simp add: streak_def)

lemma counts_are_streaks:
  assumes "\<And>x. he_failures h x = 0" "\<And>x. he_successes h x = 0" "1 \<le> hc_Failures c" "1 \<le> hc_Successes c"
  shows "he_failures (checkHealth ops c ps h) host = min (streak False host ps) (hc_Failures c) \<and>
    he_successes (checkHealth ops c ps h) host = min (streak True host ps) (hc_Successes c)"
proof (induction ps rule: rev_induct)
  case Nil
  then show ?case using assms by (simp add: checkHealth_def streak_def)
next
  case (snoc p ps)
  obtain x r where "p = (x, r)" by (cases p)
  then show ?case using snoc assms(3,4) by (auto simp: checkHealth_snoc checkHost_fields streak_snoc)
qed

text \<open>C21. A host leaves and rejoins the rotation only after a full run of equal answers. After each probe of a host, a live
  host is dead exactly if its last probes, as many as the failure threshold, all failed, and a dead host is alive
  exactly if as many as the success threshold all succeeded; the round-robin rotation holds exactly the live hosts.\<close>

theorem health_hysteresis:
  assumes "\<forall>x. he_failures h x = 0 \<and> he_successes h x = 0" "1 \<le> hc_Failures c" "1 \<le> hc_Successes c" "rotation_ok h"
  shows "he_alive (checkHealth ops c (ps @ [(host, r)]) h) host =
      (if he_alive (checkHealth ops c ps h) host then streak False host (ps @ [(host, r)]) < hc_Failures c
       else hc_Successes c \<le> streak True host (ps @ [(host, r)])) \<and>
    rotation_ok (checkHealth ops c (ps @ [(host, r)]) h)"
proof -
  have k: "he_failures (checkHealth ops c qs h) host = min (streak False host qs) (hc_Failures c)"
    "he_successes (checkHealth ops c qs h) host = min (streak True host qs) (hc_Successes c)" for qs
    using counts_are_streaks [of h c ops qs host] assms(1-3) by auto
  have "he_alive (checkHealth ops c (ps @ [(host, r)]) h) host =
      (if he_alive (checkHealth ops c ps h) host then \<not> hc_Failures c \<le> he_failures (checkHealth ops c (ps @ [(host, r)]) h) host
       else hc_Successes c \<le> he_successes (checkHealth ops c (ps @ [(host, r)]) h) host)"
    using checkHost_alive [of ops c host r "checkHealth ops c ps h"] by (simp add: checkHealth_snoc)
  moreover have "rotation_ok (checkHealth ops c qs h)" for qs
    by (induction qs rule: rev_induct) (simp_all add: checkHealth_snoc checkHost_rotation assms(4), simp add: checkHealth_def assms(4))
  ultimately show ?thesis unfolding k by auto
qed

definition sample_health :: "unit health" where
  "sample_health = \<lparr>he_failures = (\<lambda>_. 0), he_successes = (\<lambda>_. 0), he_alive = (\<lambda>x. x = [1] \<or> x = [2]), he_lb = RR (NewRoundRobin [[1], [2]])\<rparr>"

definition sample_hc :: HealthConfig where
  "sample_hc = \<lparr>hc_Interval = seconds 1, hc_Timeout = seconds 1, hc_Failures = 2, hc_Successes = 2, hc_Path = [0x2f]\<rparr>"

theorem health_hysteresis_witness:
  "\<not> he_alive (checkHealth \<lparr>ring_New = (), ring_Add = (\<lambda>_ _. ()), ring_Remove = (\<lambda>_ _. ()), ring_Hosts = (\<lambda>_. []), ring_Get = (\<lambda>_ _. Inl ErrEOF)\<rparr>
     sample_hc ([([1], Inl ErrEOF)] @ [([1], Inr 500)]) sample_health) [1]"
proof -
  have "rotation_ok sample_health" by (auto simp: rotation_ok_def sample_health_def NewRoundRobin_def)
  moreover have "he_alive (checkHealth ops sample_hc [([1], Inl ErrEOF)] sample_health) [1]" for ops
    by (simp add: checkHealth_def checkHost_def sample_hc_def sample_health_def probe_healthy_def)
  moreover have "streak False [1] ([([1], Inl ErrEOF)] @ [([1], Inr 500)]) = 2" by (simp add: streak_def probe_healthy_def)
  ultimately show ?thesis
    using health_hysteresis [of sample_health sample_hc _ "[([1], Inl ErrEOF)]" "[1]" "Inr 500"] by (simp add: sample_health_def sample_hc_def)
qed

end
