(* ===== verification/Http_Policy.thy ===== *)
theory Http_Policy
  imports Http_Info
begin

text \<open>
  Which requests and responses the cache may use, and for how long
  (\<^verbatim>\<open>server/cache_policy.go\<close>). Times and durations are nanoseconds; \<^verbatim>\<open>time.Time.Sub\<close> saturates at the ends of 64 bits.
  \<^verbatim>\<open>http.ParseTime\<close> is the parameter \<open>parse_time\<close>, and no property relies on what it accepts. A function that returns a
  value and a false flag, which its callers then discard, returns \<open>None\<close> here.
\<close>

section \<open>Requests and header access\<close>

record http_request =
  rq_Method :: bytes
  rq_Header :: header
  rq_ContentLength :: int
  rq_TransferEncoding :: "bytes list"
  rq_HasBody :: bool

definition header_Values :: "header \<Rightarrow> bytes \<Rightarrow> bytes list" where
  "header_Values h name = (case map_of h (canonical_key name) of None \<Rightarrow> [] | Some vs \<Rightarrow> vs)"

definition header_Get :: "header \<Rightarrow> bytes \<Rightarrow> bytes" where
  "header_Get h name = (case header_Values h name of [] \<Rightarrow> [] | v # vs \<Rightarrow> v)"

definition hasHeader :: "header \<Rightarrow> bytes \<Rightarrow> bool" where
  "hasHeader h name = list_ex (\<lambda>(key, vs). EqualFold key name) h"

definition connectionNominates :: "header \<Rightarrow> bytes list \<Rightarrow> bool" where
  "connectionNominates h names =
     list_ex (\<lambda>line. list_ex (\<lambda>field. list_ex (\<lambda>name. EqualFold (TrimSpace field) name) names) (go_Split 0x2c line))
       (header_Values h (go_str ''Connection''))"

definition second :: int where "second = 1000000000"

definition time_Sub :: "int \<Rightarrow> int \<Rightarrow> int" where
  "time_Sub t u = max (- (2 ^ 63)) (min (2 ^ 63 - 1) (t - u))"

section \<open>Cache-Control\<close>

definition deltaSeconds :: "bytes \<Rightarrow> int option" where
  "deltaSeconds val =
     (if val = [] then None
      else if \<not> list_all is_digit val then None
      else case ParseUint 63 val of
             Inl e \<Rightarrow> None
           | Inr seconds \<Rightarrow> if int seconds > (2 ^ 63 - 1) div second then None else Some (int seconds * second))"

definition is_numeric :: "bool \<Rightarrow> bytes \<Rightarrow> bool" where
  "is_numeric request name \<longleftrightarrow> name = go_str ''max-age'' \<or> \<not> request \<and> name = go_str ''s-maxage'' \<or> request \<and> name = go_str ''min-fresh''"

definition is_flag :: "bool \<Rightarrow> bytes \<Rightarrow> bool" where
  "is_flag request name \<longleftrightarrow> name = go_str ''no-cache'' \<or>
     \<not> request \<and> name \<in> {go_str ''public'', go_str ''must-revalidate'', go_str ''proxy-revalidate'', go_str ''immutable'', go_str ''no-transform''}"

definition unquote :: "bytes \<Rightarrow> bytes" where
  "unquote val = (if length val \<ge> 2 \<and> hd val = 0x22 \<and> last val = 0x22 then butlast (tl val) else val)"

definition directive :: "bool \<Rightarrow> bytes \<Rightarrow> (bytes \<times> bytes) list \<Rightarrow> (bytes \<times> bytes) list option" where
  "directive request raw directives =
     (case go_Cut 0x3d (TrimSpace raw) of (name, val, valued) \<Rightarrow>
        let name = ToLower (TrimSpace name); val = TrimSpace val in
        if map_of directives name \<noteq> None then None
        else if is_numeric request name then
          (if \<not> valued then None
           else let val = unquote val in
                case deltaSeconds val of None \<Rightarrow> None | Some _ \<Rightarrow> Some ((name, val) # directives))
        else if \<not> is_flag request name \<or> valued then None
        else Some ((name, val) # directives))"

primrec directives_loop :: "bool \<Rightarrow> bytes list \<Rightarrow> (bytes \<times> bytes) list \<Rightarrow> (bytes \<times> bytes) list option" where
  "directives_loop request [] ds = Some ds"
| "directives_loop request (raw # rs) ds =
     (case directive request raw ds of None \<Rightarrow> None | Some ds \<Rightarrow> directives_loop request rs ds)"

definition cacheDirectives :: "header \<Rightarrow> bool \<Rightarrow> (bytes \<times> bytes) list option" where
  "cacheDirectives h request =
     directives_loop request (concat (map (go_Split 0x2c) (header_Values h (go_str ''Cache-Control'')))) []"

section \<open>Requests\<close>

definition requestCacheable :: "http_request \<Rightarrow> bool" where
  "requestCacheable r =
     (if (rq_Method r \<noteq> go_str ''GET'' \<and> rq_Method r \<noteq> go_str ''HEAD'') \<or> rq_ContentLength r \<noteq> 0 \<or>
         rq_TransferEncoding r \<noteq> [] \<or> rq_HasBody r then False
      else if list_ex (\<lambda>name. hasHeader (rq_Header r) name)
           [go_str ''Authorization'', go_str ''Proxy-Authorization'', go_str ''Cookie'', go_str ''Range'', go_str ''If-Range'',
            go_str ''If-Match'', go_str ''If-Unmodified-Since''] then False
      else if connectionNominates (rq_Header r)
           [go_str ''Cache-Control'', go_str ''Pragma'', go_str ''If-None-Match'', go_str ''If-Modified-Since'',
            go_str ''Accept-Encoding'', go_str ''Accept-Language''] then False
      else if hasHeader (rq_Header r) (go_str ''Pragma'') \<and>
           \<not> EqualFold (header_Get (rq_Header r) (go_str ''Pragma'')) (go_str ''no-cache'') then False
      else cacheDirectives (rq_Header r) True \<noteq> None)"

section \<open>Vary\<close>

primrec vary_loop :: "bytes list \<Rightarrow> bytes list \<Rightarrow> bytes list option" where
  "vary_loop [] fs = Some fs"
| "vary_loop (raw # rs) fs =
     (let field = canonical_key (TrimSpace raw) in
      if field \<noteq> go_str ''Accept-Encoding'' \<and> field \<noteq> go_str ''Accept-Language'' then None
      else if field \<in> set fs then vary_loop rs fs
      else vary_loop rs (fs @ [field]))"

text \<open>The list has at most the two names below, so sorting it amounts to ordering them.\<close>

definition sort_vary :: "bytes list \<Rightarrow> bytes list" where
  "sort_vary fs = filter (\<lambda>f. f \<in> set fs) [go_str ''Accept-Encoding'', go_str ''Accept-Language'']"

definition varyFields :: "header \<Rightarrow> bytes list option" where
  "varyFields h = map_option sort_vary (vary_loop (concat (map (go_Split 0x2c) (header_Values h (go_str ''Vary'')))) [])"

definition sameVary :: "header \<Rightarrow> header \<Rightarrow> bool" where
  "sameVary a b =
     (case varyFields a of None \<Rightarrow> False | Some first \<Rightarrow>
      case varyFields b of None \<Rightarrow> False | Some second' \<Rightarrow> go_Join 0x2c first = go_Join 0x2c second')"

section \<open>Freshness of a stored response\<close>

record freshness =
  fr_age :: int
  fr_lifetime :: int
  fr_validate :: bool
  fr_evaluated :: int

definition addAge :: "int \<Rightarrow> int \<Rightarrow> int" where
  "addAge a b = (if a > i64 (2 ^ 63 - 1 - b) then 2 ^ 63 - 1 else i64 (a + b))"

definition age_header :: "header \<Rightarrow> int option" where
  "age_header h = (case header_Values h (go_str ''Age'') of [] \<Rightarrow> Some 0 | [v] \<Rightarrow> deltaSeconds v | _ \<Rightarrow> None)"

definition apparent_age :: "(bytes \<Rightarrow> int option) \<Rightarrow> CacheHTTPInfo \<Rightarrow> int \<Rightarrow> int option" where
  "apparent_age parse_time info age =
     (case header_Values (ResponseHeaders info) (go_str ''Date'') of
        [] \<Rightarrow> Some age
      | [v] \<Rightarrow> (case parse_time v of None \<Rightarrow> None | Some date \<Rightarrow> Some (max age (time_Sub (ResponseTime info) date)))
      | _ \<Rightarrow> None)"

definition responsePolicy :: "(bytes \<Rightarrow> int option) \<Rightarrow> CacheHTTPInfo option \<Rightarrow> int \<Rightarrow> freshness option" where
  "responsePolicy parse_time info now =
     (case info of None \<Rightarrow> None | Some info \<Rightarrow>
        let h = ResponseHeaders info in
        if Status info \<noteq> 200 \<or> RequestMethod info \<noteq> go_str ''GET'' then None
        else if varyFields h = None then None
        else if connectionNominates h
             [go_str ''Cache-Control'', go_str ''Age'', go_str ''Date'', go_str ''Set-Cookie'', go_str ''Vary'', go_str ''Content-Range'',
              go_str ''Trailer'', go_str ''ETag'', go_str ''Last-Modified''] then None
        else if list_ex (hasHeader h) [go_str ''Set-Cookie'', go_str ''Content-Range'', go_str ''Trailer''] then None
        else do {
          directives \<leftarrow> cacheDirectives h False;
          let shared = map_of directives (go_str ''s-maxage'');
          if map_of directives (go_str ''public'') = None \<and> shared = None then None
          else do {
            lifetime \<leftarrow> deltaSeconds (case shared of Some v \<Rightarrow> v
                          | None \<Rightarrow> (case map_of directives (go_str ''max-age'') of Some v \<Rightarrow> v | None \<Rightarrow> []));
            age \<leftarrow> age_header h;
            let delay = time_Sub (ResponseTime info) (RequestTime info);
            let resident = time_Sub now (ResponseTime info);
            if delay < 0 \<or> resident < 0 then None
            else do {
              age \<leftarrow> apparent_age parse_time info (addAge age delay);
              Some \<lparr>fr_age = addAge age resident, fr_lifetime = lifetime,
                    fr_validate = (map_of directives (go_str ''no-cache'') \<noteq> None), fr_evaluated = now\<rparr>
            }
          }
        })"

definition currentAge :: "freshness \<Rightarrow> int \<Rightarrow> int option" where
  "currentAge p now = (let elapsed = time_Sub now (fr_evaluated p) in if elapsed < 0 then None else Some (addAge (fr_age p) elapsed))"

text \<open>The constraints of the request, for a response of the given lifetime and age.\<close>

definition duration_of :: "bytes \<Rightarrow> int" where
  "duration_of v = (case deltaSeconds v of None \<Rightarrow> 0 | Some a \<Rightarrow> a)"

definition request_admits :: "http_request \<Rightarrow> int \<Rightarrow> bool \<Rightarrow> int \<Rightarrow> bool" where
  "request_admits r lifetime validate age =
     (if validate \<or> age \<ge> lifetime \<or> hasHeader (rq_Header r) (go_str ''Pragma'') then False
      else case cacheDirectives (rq_Header r) True of None \<Rightarrow> False | Some directives \<Rightarrow>
        if map_of directives (go_str ''no-cache'') \<noteq> None then False
        else if (case map_of directives (go_str ''max-age'') of None \<Rightarrow> False | Some v \<Rightarrow> age > duration_of v) then False
        else if (case map_of directives (go_str ''min-fresh'') of None \<Rightarrow> False | Some v \<Rightarrow> duration_of v \<ge> i64 (lifetime - age)) then False
        else True)"

definition requestPolicyFresh :: "http_request \<Rightarrow> freshness \<Rightarrow> int \<Rightarrow> bool" where
  "requestPolicyFresh r p now =
     (case currentAge p now of None \<Rightarrow> False | Some age \<Rightarrow> request_admits r (fr_lifetime p) (fr_validate p) age)"

definition requestFresh :: "(bytes \<Rightarrow> int option) \<Rightarrow> http_request \<Rightarrow> CacheHTTPInfo option \<Rightarrow> int \<Rightarrow> bool" where
  "requestFresh parse_time r info now =
     (case responsePolicy parse_time info now of None \<Rightarrow> False | Some p \<Rightarrow> requestPolicyFresh r p now)"


section \<open>Age arithmetic\<close>

abbreviation max_dur :: int where "max_dur \<equiv> 2 ^ 63 - 1"

lemma addAge_eq: "0 \<le> a \<Longrightarrow> a \<le> max_dur \<Longrightarrow> 0 \<le> b \<Longrightarrow> b \<le> max_dur \<Longrightarrow> addAge a b = min max_dur (a + b)"
  by (auto simp: addAge_def min_def)

lemma time_Sub_bounds: "time_Sub t u \<le> max_dur"
  by (simp add: time_Sub_def)

lemma time_Sub_eq: "u \<le> t \<Longrightarrow> time_Sub t u = min max_dur (t - u)"
  by (simp add: time_Sub_def)

lemma time_Sub_neg: "time_Sub t u < 0 \<longleftrightarrow> t < u"
  by (auto simp: time_Sub_def)

lemma deltaSeconds_bounds: "deltaSeconds v = Some d \<Longrightarrow> 0 \<le> d \<and> d \<le> max_dur"
  by (auto simp: deltaSeconds_def second_def split: if_splits sum.splits)

lemma age_header_bounds: "age_header h = Some d \<Longrightarrow> 0 \<le> d \<and> d \<le> max_dur"
  using deltaSeconds_bounds by (auto simp: age_header_def split: list.splits)

lemma apparent_age_bounds: "apparent_age pt info a = Some d \<Longrightarrow> 0 \<le> a \<Longrightarrow> a \<le> max_dur \<Longrightarrow> 0 \<le> d \<and> d \<le> max_dur"
  using time_Sub_bounds [of "ResponseTime info"] by (auto simp: apparent_age_def le_max_iff_disj split: list.splits option.splits)

lemma addAge_bounds: "0 \<le> a \<Longrightarrow> a \<le> max_dur \<Longrightarrow> 0 \<le> b \<Longrightarrow> b \<le> max_dur \<Longrightarrow> 0 \<le> addAge a b \<and> addAge a b \<le> max_dur"
  by (simp add: addAge_eq)

text \<open>The part of the policy that does not depend on the time of the lookup.\<close>

definition policy_lifetime :: "(bytes \<times> bytes) list \<Rightarrow> bytes" where
  "policy_lifetime ds = (case map_of ds (go_str ''s-maxage'') of Some v \<Rightarrow> v
     | None \<Rightarrow> (case map_of ds (go_str ''max-age'') of Some v \<Rightarrow> v | None \<Rightarrow> []))"

lemma responsePolicy_Some:
  assumes "responsePolicy pt (Some info) t0 = Some p"
  shows "\<exists>ds a. Status info = 200 \<and> RequestMethod info = go_str ''GET'' \<and> \<not> hasHeader (ResponseHeaders info) (go_str ''Set-Cookie'') \<and>
    cacheDirectives (ResponseHeaders info) False = Some ds \<and>
    (map_of ds (go_str ''public'') \<noteq> None \<or> map_of ds (go_str ''s-maxage'') \<noteq> None) \<and>
    deltaSeconds (policy_lifetime ds) = Some (fr_lifetime p) \<and> fr_validate p = (map_of ds (go_str ''no-cache'') \<noteq> None) \<and>
    0 \<le> a \<and> a \<le> max_dur \<and> ResponseTime info \<le> t0 \<and> fr_evaluated p = t0 \<and> fr_age p = addAge a (time_Sub t0 (ResponseTime info)) \<and>
    (\<forall>now. ResponseTime info \<le> now \<longrightarrow>
       responsePolicy pt (Some info) now = Some (p\<lparr>fr_age := addAge a (time_Sub now (ResponseTime info)), fr_evaluated := now\<rparr>))"
proof -
  let ?h = "ResponseHeaders info"
  obtain ds where ds: "cacheDirectives ?h False = Some ds" using assms by (auto simp: responsePolicy_def Let_def split: if_splits bind_splits)
  obtain l where l: "deltaSeconds (policy_lifetime ds) = Some l"
    using assms ds by (auto simp: responsePolicy_def Let_def policy_lifetime_def split: if_splits bind_splits)
  obtain g where g: "age_header ?h = Some g"
    using assms ds l by (auto simp: responsePolicy_def Let_def policy_lifetime_def split: if_splits bind_splits)
  let ?d = "time_Sub (ResponseTime info) (RequestTime info)"
  obtain a where a: "apparent_age pt info (addAge g ?d) = Some a"
    using assms ds l g by (auto simp: responsePolicy_def Let_def policy_lifetime_def split: if_splits bind_splits)
  note k = ds g a l [unfolded policy_lifetime_def]
  have c: "Status info = 200" "RequestMethod info = go_str ''GET''" "varyFields ?h \<noteq> None"
    "\<not> connectionNominates ?h
             [go_str ''Cache-Control'', go_str ''Age'', go_str ''Date'', go_str ''Set-Cookie'', go_str ''Vary'', go_str ''Content-Range'',
              go_str ''Trailer'', go_str ''ETag'', go_str ''Last-Modified'']"
    "\<not> list_ex (hasHeader ?h) [go_str ''Set-Cookie'', go_str ''Content-Range'', go_str ''Trailer'']"
    "map_of ds (go_str ''public'') \<noteq> None \<or> map_of ds (go_str ''s-maxage'') \<noteq> None" "0 \<le> ?d" "0 \<le> time_Sub t0 (ResponseTime info)"
    using assms by (auto simp: responsePolicy_def Let_def k split: if_splits)
  have r: "responsePolicy pt (Some info) now = Some \<lparr>fr_age = addAge a (time_Sub now (ResponseTime info)), fr_lifetime = l,
      fr_validate = (map_of ds (go_str ''no-cache'') \<noteq> None), fr_evaluated = now\<rparr>" if "0 \<le> time_Sub now (ResponseTime info)" for now
    using c that by (simp add: responsePolicy_def Let_def k)
  have p: "p = \<lparr>fr_age = addAge a (time_Sub t0 (ResponseTime info)), fr_lifetime = l,
      fr_validate = (map_of ds (go_str ''no-cache'') \<noteq> None), fr_evaluated = t0\<rparr>" using r [OF c(8)] assms by simp
  have "0 \<le> a \<and> a \<le> max_dur"
    using apparent_age_bounds [OF a] addAge_bounds age_header_bounds [OF g] c(7) time_Sub_bounds by simp
  moreover have "0 \<le> time_Sub now (ResponseTime info)" if "ResponseTime info \<le> now" for now
    using that time_Sub_neg [of now "ResponseTime info"] by linarith
  moreover have "ResponseTime info \<le> t0" using c(8) time_Sub_neg [of t0 "ResponseTime info"] by linarith
  ultimately show ?thesis using c ds l r by (intro exI [of _ ds] exI [of _ a]) (simp add: p)
qed

lemma addAge_steps:
  assumes "0 \<le> a" "a \<le> max_dur" "R \<le> t0" "t0 \<le> now"
  shows "addAge (addAge a (time_Sub t0 R)) (time_Sub now t0) = addAge a (time_Sub now R)"
  using assms by (simp add: time_Sub_eq addAge_eq)

text \<open>C7. A parsed policy can be kept. Evaluating a stored response once and advancing its age at each later use gives
  the same answer to a request as evaluating the response again at that time.\<close>

theorem policy_reuse:
  assumes "responsePolicy pt info t0 = Some p" "t0 \<le> now"
  shows "requestPolicyFresh r p now = requestFresh pt r info now"
proof -
  obtain i where i: "info = Some i" using assms(1) by (cases info) (auto simp: responsePolicy_def)
  obtain a where a: "0 \<le> a" "a \<le> max_dur" "ResponseTime i \<le> t0" "fr_evaluated p = t0" "fr_age p = addAge a (time_Sub t0 (ResponseTime i))"
    and n: "responsePolicy pt (Some i) now = Some (p\<lparr>fr_age := addAge a (time_Sub now (ResponseTime i)), fr_evaluated := now\<rparr>)"
    using responsePolicy_Some [OF assms(1) [unfolded i]] assms(2) by force
  have "currentAge p now = Some (addAge a (time_Sub now (ResponseTime i)))"
    using addAge_steps [OF a(1-3) assms(2)] time_Sub_neg [of now t0] assms(2) a(4,5) by (simp add: currentAge_def)
  moreover have "currentAge (p\<lparr>fr_age := addAge a (time_Sub now (ResponseTime i)), fr_evaluated := now\<rparr>) now =
      Some (addAge a (time_Sub now (ResponseTime i)))"
    using addAge_steps [of a "ResponseTime i" now now] a(1-3) assms(2) by (simp add: currentAge_def time_Sub_def)
  ultimately show ?thesis unfolding requestFresh_def i n by (simp add: requestPolicyFresh_def)
qed

text \<open>C6. Only fresh public responses are served. When a stored response is found fresh for a request, it answers a GET
  with status 200, sets no cookie, is marked public or has a shared lifetime, is not marked no-cache, and has
  been in the cache for less than its lifetime; and the request neither carries Pragma nor forbids stored answers.\<close>

theorem fresh_is_safe:
  assumes "requestFresh pt r (Some info) now"
  shows "Status info = 200 \<and> RequestMethod info = go_str ''GET'' \<and> \<not> hasHeader (ResponseHeaders info) (go_str ''Set-Cookie'') \<and>
    \<not> hasHeader (rq_Header r) (go_str ''Pragma'') \<and>
    (\<exists>ds l. cacheDirectives (ResponseHeaders info) False = Some ds \<and>
       (map_of ds (go_str ''public'') \<noteq> None \<or> map_of ds (go_str ''s-maxage'') \<noteq> None) \<and> map_of ds (go_str ''no-cache'') = None \<and>
       deltaSeconds (policy_lifetime ds) = Some l \<and> ResponseTime info \<le> now \<and> now - ResponseTime info < l) \<and>
    (\<exists>ds. cacheDirectives (rq_Header r) True = Some ds \<and> map_of ds (go_str ''no-cache'') = None \<and>
       (\<forall>v. map_of ds (go_str ''max-age'') = Some v \<longrightarrow> now - ResponseTime info \<le> duration_of v))"
proof -
  obtain p where p: "responsePolicy pt (Some info) now = Some p" "requestPolicyFresh r p now"
    using assms by (auto simp: requestFresh_def split: option.splits)
  obtain ds a where s: "Status info = 200" "RequestMethod info = go_str ''GET''" "\<not> hasHeader (ResponseHeaders info) (go_str ''Set-Cookie'')"
    "cacheDirectives (ResponseHeaders info) False = Some ds" "map_of ds (go_str ''public'') \<noteq> None \<or> map_of ds (go_str ''s-maxage'') \<noteq> None"
    "deltaSeconds (policy_lifetime ds) = Some (fr_lifetime p)" "fr_validate p = (map_of ds (go_str ''no-cache'') \<noteq> None)"
    "0 \<le> a" "a \<le> max_dur" "ResponseTime info \<le> now" "fr_evaluated p = now" "fr_age p = addAge a (time_Sub now (ResponseTime info))"
    using responsePolicy_Some [OF p(1)] by auto
  let ?g = "addAge a (time_Sub now (ResponseTime info))"
  have g: "currentAge p now = Some ?g"
    using addAge_steps [of a "ResponseTime info" now now] s by (simp add: currentAge_def time_Sub_def)
  then have ad: "request_admits r (fr_lifetime p) (fr_validate p) ?g" using p(2) by (simp add: requestPolicyFresh_def)
  then have f: "\<not> fr_validate p" "?g < fr_lifetime p" "\<not> hasHeader (rq_Header r) (go_str ''Pragma'')"
    by (auto simp: request_admits_def split: if_splits)
  obtain qs where q: "cacheDirectives (rq_Header r) True = Some qs" "map_of qs (go_str ''no-cache'') = None"
    "\<And>v. map_of qs (go_str ''max-age'') = Some v \<Longrightarrow> ?g \<le> duration_of v"
    using ad unfolding request_admits_def by (auto split: if_splits option.splits)
  have l: "fr_lifetime p \<le> max_dur" using deltaSeconds_bounds [OF s(6)] by simp
  have age: "now - ResponseTime info \<le> ?g" using s(8-10) f(2) l by (simp add: time_Sub_eq addAge_eq min_def split: if_splits)
  then have "now - ResponseTime info < fr_lifetime p" using f(2) by linarith
  then have "cacheDirectives (ResponseHeaders info) False = Some ds \<and>
       (map_of ds (go_str ''public'') \<noteq> None \<or> map_of ds (go_str ''s-maxage'') \<noteq> None) \<and> map_of ds (go_str ''no-cache'') = None \<and>
       deltaSeconds (policy_lifetime ds) = Some (fr_lifetime p) \<and> ResponseTime info \<le> now \<and> now - ResponseTime info < fr_lifetime p"
    using s f by simp
  moreover have "\<exists>ds. cacheDirectives (rq_Header r) True = Some ds \<and> map_of ds (go_str ''no-cache'') = None \<and>
       (\<forall>v. map_of ds (go_str ''max-age'') = Some v \<longrightarrow> now - ResponseTime info \<le> duration_of v)"
    using q age order_trans by blast
  ultimately show ?thesis using s f by (intro conjI) blast+
qed


lemmas canon_defs = canonical_key_def validHeaderFieldByte_def is_upper_def is_lower_def is_digit_def Let_def

definition sample_response :: CacheHTTPInfo where
  "sample_response = \<lparr>RequestTime = 0, ResponseTime = 5, RequestMethod = go_str ''GET'', RequestURL = go_str ''/'', Status = 200,
     ResponseHeaders = [(go_str ''Cache-Control'', [go_str ''s-maxage=60''])]\<rparr>"

definition sample_get :: http_request where
  "sample_get = \<lparr>rq_Method = go_str ''GET'', rq_Header = [], rq_ContentLength = 0, rq_TransferEncoding = [], rq_HasBody = False\<rparr>"

lemma sample_values: "header_Values (ResponseHeaders sample_response) name =
    (if canonical_key name = go_str ''Cache-Control'' then [go_str ''s-maxage=60''] else [])"
  by (simp add: sample_response_def header_Values_def)

lemma sample_trim: "TrimSpace (go_str ''s-maxage=60'') = go_str ''s-maxage=60''" "TrimSpace (go_str ''s-maxage'') = go_str ''s-maxage''"
   "TrimSpace (go_str ''60'') = go_str ''60''"
  by (rule TrimSpace_plain; simp add: lead_def space_seqs_def starts_def go_str_def)+

lemma sample_parts:
  "go_Split 0x2c (go_str ''s-maxage=60'') = [go_str ''s-maxage=60'']"
  "go_Cut 0x3d (go_str ''s-maxage=60'') = (go_str ''s-maxage'', go_str ''60'', True)"
  "ToLower (go_str ''s-maxage'') = go_str ''s-maxage''" "unquote (go_str ''60'') = go_str ''60''"
  "deltaSeconds (go_str ''60'') = Some 60000000000"
  by (simp_all add: go_str_def go_Cut_def unquote_def deltaSeconds_def ParseUint_def dec_val_def is_digit_def second_def lower1_def is_upper_def)


lemma sample_names:
  "header_Values (ResponseHeaders sample_response) (go_str ''Cache-Control'') = [go_str ''s-maxage=60'']"
  "header_Values (ResponseHeaders sample_response) (go_str ''Age'') = []" "header_Values (ResponseHeaders sample_response) (go_str ''Date'') = []"
  "header_Values (ResponseHeaders sample_response) (go_str ''Vary'') = []" "header_Values (ResponseHeaders sample_response) (go_str ''Connection'') = []"
  by (simp_all add: sample_values canon_defs go_str_def)

lemma sample_directives: "cacheDirectives (ResponseHeaders sample_response) False = Some [(go_str ''s-maxage'', go_str ''60'')]"
proof -
  have "is_numeric False (go_str ''s-maxage'')" by (simp add: is_numeric_def)
  then have "directive False (go_str ''s-maxage=60'') [] = Some [(go_str ''s-maxage'', go_str ''60'')]"
    by (simp add: directive_def sample_trim sample_parts)
  then show ?thesis by (simp add: cacheDirectives_def sample_names sample_parts)
qed

lemma sample_no_cookie:
  "\<not> list_ex (hasHeader (ResponseHeaders sample_response)) [go_str ''Set-Cookie'', go_str ''Content-Range'', go_str ''Trailer'']"
  by (simp add: hasHeader_def sample_response_def EqualFold_def go_str_def lower1_def is_upper_def)

lemma sample_policy: "responsePolicy pt (Some sample_response) 7 =
    Some \<lparr>fr_age = 7, fr_lifetime = 60000000000, fr_validate = False, fr_evaluated = 7\<rparr>"
proof -
  have v: "varyFields (ResponseHeaders sample_response) = Some []" by (simp add: varyFields_def sample_names sort_vary_def)
  have c: "\<not> connectionNominates (ResponseHeaders sample_response) ns" for ns by (simp add: connectionNominates_def sample_names)
  have i: "Status sample_response = 200" "RequestMethod sample_response = go_str ''GET''" "ResponseTime sample_response = 5" "RequestTime sample_response = 0"
    by (simp_all add: sample_response_def)
  have n: "map_of [(go_str ''s-maxage'', go_str ''60'')] (go_str ''no-cache'') = None" by (simp add: go_str_def)
  have a: "age_header (ResponseHeaders sample_response) = Some 0" by (simp add: age_header_def sample_names)
  have d: "apparent_age pt sample_response x = Some x" for x by (simp add: apparent_age_def sample_names)
  show ?thesis using v c sample_no_cookie n
    by (simp add: responsePolicy_def Let_def i sample_directives a d sample_parts addAge_def time_Sub_def)
qed

lemma sample_fresh: "requestFresh pt sample_get (Some sample_response) 7"
proof -
  have "cacheDirectives (rq_Header sample_get) True = Some []"
    by (simp add: cacheDirectives_def header_Values_def sample_get_def)
  moreover have "\<not> hasHeader (rq_Header sample_get) name" for name by (simp add: hasHeader_def sample_get_def)
  ultimately show ?thesis
    by (simp add: requestFresh_def sample_policy requestPolicyFresh_def currentAge_def request_admits_def addAge_def time_Sub_def)
qed

theorem policy_reuse_witness:
  "requestPolicyFresh sample_get \<lparr>fr_age = 7, fr_lifetime = 60000000000, fr_validate = False, fr_evaluated = 7\<rparr> 7"
  using policy_reuse [OF sample_policy [of "\<lambda>_. None"], of 7 sample_get] sample_fresh by simp

theorem fresh_is_safe_witness: "Status sample_response = 200 \<and> \<not> hasHeader (ResponseHeaders sample_response) (go_str ''Set-Cookie'')"
  using fresh_is_safe [OF sample_fresh [of "\<lambda>_. None"]] by simp

end
