(* ===== verification/Http_Validation.thy ===== *)
theory Http_Validation
  imports Http_Policy Hashes "HOL-Library.AList" "HOL-Library.List_Lexorder" "HOL-Library.Multiset"
begin

text \<open>
  Conditional requests, validation of stored responses (\<^verbatim>\<open>server/cache_validation.go\<close>), and the names under which
  representations are stored (\<^verbatim>\<open>server/cache_variant.go\<close>, \<^verbatim>\<open>proxy/cache_key.go\<close>). A nil slice of header values is \<open>None\<close>
  where the JSON text tells it from an empty one.
\<close>

section \<open>Entity tags\<close>

definition weak_prefix :: bytes where "weak_prefix = [0x57, 0x2f]"

definition validETag :: "bytes \<Rightarrow> bool" where
  "validETag tag =
     (let tag = TrimPrefix tag weak_prefix in
      if length tag < 2 \<or> hd tag \<noteq> 0x22 \<or> last tag \<noteq> 0x22 then False
      else list_all (\<lambda>c. \<not> (c = 0x22 \<or> c < 0x21 \<or> c = 0x7f)) (butlast (tl tag)))"

definition IndexByte :: "u8 \<Rightarrow> bytes \<Rightarrow> nat option" where
  "IndexByte d s = (let n = length (takeWhile (\<lambda>c. c \<noteq> d) s) in if n < length s then Some n else None)"

lemma length_trim_lead: "length (trim_lead qs s) \<le> length s"
proof (induction qs s rule: trim_lead.induct)
  case (1 qs s)
  then show ?case by (subst trim_lead.simps) (auto intro: le_trans)
qed

lemma length_TrimSpace: "length (TrimSpace s) \<le> length s"
  using length_trim_lead [of "map rev space_seqs" "rev (trim_lead space_seqs s)"] length_trim_lead [of space_seqs s]
  by (simp add: TrimSpace_def)

function tag_list :: "bytes \<Rightarrow> bytes \<Rightarrow> bool \<Rightarrow> bool" where
  "tag_list stored val matched =
     (if val = [] then matched
      else let start = (if starts weak_prefix val then 2 else 0) in
      if length val \<le> start \<or> val ! start \<noteq> 0x22 then False
      else case IndexByte 0x22 (drop (start + 1) val) of None \<Rightarrow> False | Some n \<Rightarrow>
        let stop = n + start + 2; tag = take stop val in
        if \<not> validETag tag then False
        else let matched = (matched \<or> TrimPrefix tag weak_prefix = TrimPrefix stored weak_prefix); val = TrimSpace (drop stop val) in
        if val = [] then matched
        else if hd val \<noteq> 0x2c then False
        else let val = TrimSpace (tl val) in
        if val = [] then False else tag_list stored val matched)"
  by auto
termination
proof (relation "measure (length \<circ> fst \<circ> snd)")
  fix stored val val' val'' tag :: bytes and matched matched' :: bool and n start stop :: nat
  assume "val \<noteq> []" "stop = n + start + 2" "val' = TrimSpace (drop stop val)" "val'' = TrimSpace (tl val')"
  then have "length val'' \<le> length (tl val')" "length val' \<le> length (drop stop val)"
    using length_TrimSpace [of "tl val'"] length_TrimSpace [of "drop stop val"] by simp_all
  then have "length val'' < length val" using \<open>val \<noteq> []\<close> \<open>stop = n + start + 2\<close> by (cases val) auto
  then show "((stored, val'', matched'), stored, val, matched) \<in> measure (length \<circ> fst \<circ> snd)" by simp
qed simp

declare tag_list.simps [simp del]

definition clientNotModified :: "(bytes \<Rightarrow> int option) \<Rightarrow> http_request \<Rightarrow> header \<Rightarrow> bool" where
  "clientNotModified parse_time r h =
     (if hasHeader (rq_Header r) (go_str ''If-None-Match'') then
        let val = TrimSpace (go_Join 0x2c (header_Values (rq_Header r) (go_str ''If-None-Match''))) in
        if val = [0x2a] then True
        else let stored = header_Get h (go_str ''ETag'') in
             if \<not> validETag stored then False else tag_list stored val False
      else case parse_time (header_Get h (go_str ''Last-Modified'')) of None \<Rightarrow> False | Some modified \<Rightarrow>
           case parse_time (header_Get (rq_Header r) (go_str ''If-Modified-Since'')) of None \<Rightarrow> False | Some since \<Rightarrow> \<not> modified > since)"

section \<open>Validation\<close>

definition header_Del :: "bytes \<Rightarrow> header \<Rightarrow> header" where
  "header_Del name h = AList.delete (canonical_key name) h"

definition merge_one :: "bytes \<times> bytes list \<Rightarrow> header \<Rightarrow> header" where
  "merge_one nv merged =
     (if canonical_key (fst nv) \<in> {go_str ''Content-Length'', go_str ''Content-Range'', go_str ''Transfer-Encoding'', go_str ''Trailer''}
      then merged else AList.update (fst nv) (snd nv) merged)"

definition mergeResponseHeaders :: "header \<Rightarrow> header \<Rightarrow> header" where
  "mergeResponseHeaders old updated =
     (let merged = fold merge_one updated old in
      if \<not> hasHeader updated (go_str ''Age'') then header_Del (go_str ''Age'') merged else merged)"

definition etag_agrees :: "header \<Rightarrow> bytes \<Rightarrow> bool" where
  "etag_agrees vh storedTag =
     (let received = header_Get vh (go_str ''ETag'') in
      if received = [] then True
      else if length (header_Values vh (go_str ''ETag'')) \<noteq> 1 \<or> \<not> validETag received \<or> \<not> validETag storedTag then False
      else if starts weak_prefix received then TrimPrefix received weak_prefix = TrimPrefix storedTag weak_prefix
      else received = storedTag)"

definition condition_agrees :: "(bytes \<Rightarrow> int option) \<Rightarrow> header \<Rightarrow> header \<Rightarrow> http_request \<Rightarrow> bytes \<Rightarrow> bool" where
  "condition_agrees parse_time ph vh request storedTag =
     (let tag = header_Get (rq_Header request) (go_str ''If-None-Match'') in
      if tag \<noteq> [] then validETag tag \<and> tag = storedTag
      else case parse_time (header_Get (rq_Header request) (go_str ''If-Modified-Since'')) of None \<Rightarrow> False | Some sent \<Rightarrow>
           case parse_time (header_Get ph (go_str ''Last-Modified'')) of None \<Rightarrow> False | Some stored \<Rightarrow>
             if sent \<noteq> stored then False
             else let received = header_Get vh (go_str ''Last-Modified'') in
                  if received = [] then True
                  else (case parse_time received of None \<Rightarrow> False | Some modified \<Rightarrow> modified = stored))"

definition mergeValidation :: "(bytes \<Rightarrow> int option) \<Rightarrow> CacheHTTPInfo \<Rightarrow> CacheHTTPInfo \<Rightarrow> http_request \<Rightarrow> CacheHTTPInfo option" where
  "mergeValidation parse_time previous validation request =
     (let vh = ResponseHeaders validation; ph = ResponseHeaders previous in
      if hasHeader vh (go_str ''Content-Range'') \<or> hasHeader vh (go_str ''Trailer'') then None
      else if hasHeader vh (go_str ''Content-Encoding'') \<and>
           go_Join 0x2c (header_Values vh (go_str ''Content-Encoding'')) \<noteq> go_Join 0x2c (header_Values ph (go_str ''Content-Encoding'')) then None
      else let storedTag = header_Get ph (go_str ''ETag'') in
      if \<not> etag_agrees vh storedTag then None
      else if \<not> condition_agrees parse_time ph vh request storedTag then None
      else let merged = previous\<lparr>RequestTime := RequestTime validation, ResponseTime := ResponseTime validation,
                                 ResponseHeaders := mergeResponseHeaders ph vh\<rparr> in
           if responsePolicy parse_time (Some merged) (ResponseTime merged) = None then None else Some merged)"

section \<open>Keys of representations\<close>

definition in_range :: "u8 \<Rightarrow> u8 \<Rightarrow> bytes \<Rightarrow> nat \<Rightarrow> bool" where
  "in_range lo hi s i \<longleftrightarrow> i < length s \<and> lo \<le> s ! i \<and> s ! i \<le> hi"

text \<open>The length of the UTF-8 encoding that starts the string, 0 if there is none.\<close>

definition rune_len :: "bytes \<Rightarrow> nat" where
  "rune_len s =
     (if s = [] then 0
      else let b = hd s; cont = in_range 0x80 0xbf s in
      if b < 0x80 then 1
      else if 0xc2 \<le> b \<and> b \<le> 0xdf \<and> cont 1 then 2
      else if b = 0xe0 \<and> in_range 0xa0 0xbf s 1 \<and> cont 2 then 3
      else if b = 0xed \<and> in_range 0x80 0x9f s 1 \<and> cont 2 then 3
      else if 0xe1 \<le> b \<and> b \<le> 0xef \<and> b \<noteq> 0xed \<and> cont 1 \<and> cont 2 then 3
      else if b = 0xf0 \<and> in_range 0x90 0xbf s 1 \<and> cont 2 \<and> cont 3 then 4
      else if 0xf1 \<le> b \<and> b \<le> 0xf3 \<and> cont 1 \<and> cont 2 \<and> cont 3 then 4
      else if b = 0xf4 \<and> in_range 0x80 0x8f s 1 \<and> cont 2 \<and> cont 3 then 4
      else 0)"

definition hex_digit :: "nat \<Rightarrow> u8" where "hex_digit n = (if n < 10 then of_nat (0x30 + n) else of_nat (0x57 + n))"

definition hex :: "bytes \<Rightarrow> bytes" where
  "hex s = concat (map (\<lambda>b. [hex_digit (unat b div 16), hex_digit (unat b mod 16)]) s)"

text \<open>\<^verbatim>\<open>json.Marshal\<close> of a string, with its HTML escapes; bytes that are no UTF-8 become the replacement character.\<close>

definition json_ascii :: "u8 \<Rightarrow> bytes" where
  "json_ascii c =
     (if c = 0x22 \<or> c = 0x5c then [0x5c, c]
      else if c = 0x08 then [0x5c, 0x62] else if c = 0x0c then [0x5c, 0x66] else if c = 0x0a then [0x5c, 0x6e]
      else if c = 0x0d then [0x5c, 0x72] else if c = 0x09 then [0x5c, 0x74]
      else if c < 0x20 \<or> c = 0x3c \<or> c = 0x3e \<or> c = 0x26 then [0x5c, 0x75, 0x30, 0x30] @ hex [c]
      else [c])"

function json_body :: "bytes \<Rightarrow> bytes" where
  "json_body s =
     (if s = [] then []
      else let n = rune_len s in
      if n = 0 then [0x5c, 0x75, 0x66, 0x66, 0x66, 0x64] @ json_body (tl s)
      else if n = 1 then json_ascii (hd s) @ json_body (tl s)
      else (if take n s = [0xe2, 0x80, 0xa8] then [0x5c, 0x75, 0x32, 0x30, 0x32, 0x38]
            else if take n s = [0xe2, 0x80, 0xa9] then [0x5c, 0x75, 0x32, 0x30, 0x32, 0x39] else take n s) @ json_body (drop n s))"
  by auto
termination
proof (relation "measure length")
  fix s :: bytes and n :: nat assume "s \<noteq> []" "n \<noteq> 0" "n \<noteq> 1"
  then show "(drop n s, s) \<in> measure length" by (cases s) auto
qed auto

declare json_body.simps [simp del]

definition json_string :: "bytes \<Rightarrow> bytes" where "json_string s = 0x22 # json_body s @ [0x22]"

definition json_list :: "bytes list \<Rightarrow> bytes" where "json_list xs = 0x5b # go_Join 0x2c xs @ [0x5d]"

definition json_strings :: "bytes list option \<Rightarrow> bytes" where
  "json_strings vs = (case vs of None \<Rightarrow> [0x6e, 0x75, 0x6c, 0x6c] | Some vs \<Rightarrow> json_list (map json_string vs))"

definition representationKey :: "bytes \<Rightarrow> header \<Rightarrow> bytes list \<Rightarrow> bytes" where
  "representationKey selector h fields' =
     (if fields' = [] then selector
      else let vals = map (\<lambda>field. map_of h (canonical_key field)) fields';
               schema = json_strings (Some fields');
               variant = json_list (map json_strings vals)
           in selector @ 0x0a # go_str ''variant:'' @ hex (sha256 schema) @ 0x3a # hex (sha256 variant))"

definition maxHTTPVariants :: nat where "maxHTTPVariants = 16"

definition schema_prefix :: "bytes \<Rightarrow> bytes \<Rightarrow> bytes" where
  "schema_prefix selector key =
     (if key = selector then selector
      else if 0x3a \<in> set key then rev (tl (dropWhile (\<lambda>c. c \<noteq> 0x3a) (rev key))) else key)"

definition sameRepresentationSchema :: "bytes \<Rightarrow> bytes \<Rightarrow> bytes \<Rightarrow> bool" where
  "sameRepresentationSchema selector a b \<longleftrightarrow> schema_prefix selector a = schema_prefix selector b"

record request_url =
  ru_Scheme :: bytes
  ru_TLS :: bool
  ru_ReqHost :: bytes
  ru_Host :: bytes
  ru_EscapedPath :: bytes
  ru_RawQuery :: bytes
  ru_ForceQuery :: bool

definition GetCacheKey :: "request_url \<Rightarrow> bytes" where
  "GetCacheKey r =
     (let scheme = (if ru_Scheme r = [] then (if ru_TLS r then go_str ''https'' else go_str ''http'') else ru_Scheme r);
          authority = (if ru_ReqHost r = [] then ru_Host r else ru_ReqHost r);
          path = (if ru_EscapedPath r = [] then [0x2f] else ru_EscapedPath r);
          key = go_str ''http-v3:'' @ scheme @ go_str ''://'' @ authority @ path
      in if ru_RawQuery r \<noteq> [] \<or> ru_ForceQuery r
         then key @ 0x3f # go_Join 0x26 (sort (go_Split 0x26 (ru_RawQuery r))) else key)"


section \<open>Lists of entity tags\<close>

text \<open>The weak comparison of entity tags, and a list of them as a client writes it.\<close>

definition weak_eq :: "bytes \<Rightarrow> bytes \<Rightarrow> bool" where
  "weak_eq a b \<longleftrightarrow> TrimPrefix a weak_prefix = TrimPrefix b weak_prefix"

fun tags_text :: "bytes list \<Rightarrow> bytes" where
  "tags_text [] = []"
| "tags_text [t] = t"
| "tags_text (t # ts) = t @ [0x2c, 0x20] @ tags_text ts"

lemma validETag_cases:
  assumes "validETag t"
  obtains pre body where "pre = [] \<or> pre = weak_prefix" "t = pre @ 0x22 # body @ [0x22]" "0x22 \<notin> set body"
proof -
  let ?q = "TrimPrefix t weak_prefix"
  have q: "2 \<le> length ?q" "hd ?q = 0x22" "last ?q = 0x22" "0x22 \<notin> set (butlast (tl ?q))"
    using assms by (auto simp: validETag_def Let_def list_all_iff split: if_splits)
  obtain c b where cb: "?q = c # b" using q(1) by (cases ?q) auto
  then have "b \<noteq> []" using q(1) by auto
  moreover have "last b = 0x22" using calculation q(3) cb by simp
  ultimately have "b = butlast b @ [0x22]" by (metis append_butlast_last_id)
  then have "?q = 0x22 # butlast (tl ?q) @ [0x22]" using q(2) cb by simp
  moreover have "\<exists>pre. (pre = [] \<or> pre = weak_prefix) \<and> t = pre @ ?q"
  proof (cases "starts weak_prefix t")
    case True
    then have "t = weak_prefix @ drop (length weak_prefix) t" unfolding starts_def by (metis append_take_drop_id)
    then show ?thesis using True by (auto simp: TrimPrefix_def)
  qed (simp add: TrimPrefix_def)
  ultimately show ?thesis using that q(4) by metis
qed

lemma takeWhile_stop: "d \<notin> set body \<Longrightarrow> takeWhile (\<lambda>c. c \<noteq> d) (body @ d # r) = body"
  by (induction body) auto

lemma tag_list_step:
  assumes "validETag t"
  shows "tag_list stored (t @ rest) m =
    (let m' = (m \<or> weak_eq t stored); v = TrimSpace rest in
     if v = [] then m' else if hd v \<noteq> 0x2c then False
     else let v' = TrimSpace (tl v) in if v' = [] then False else tag_list stored v' m')"
proof -
  obtain pre body where t: "pre = [] \<or> pre = weak_prefix" "t = pre @ 0x22 # body @ [0x22]" "0x22 \<notin> set body"
    using validETag_cases [OF assms] .
  have st: "(if starts weak_prefix (t @ rest) then 2 else 0) = length pre" using t(1,2) by (auto simp: starts_def weak_prefix_def)
  have "drop (length pre + 1) (t @ rest) = body @ 0x22 # rest" using t(2) by simp
  then have ix: "IndexByte 0x22 (drop (length pre + 1) (t @ rest)) = Some (length body)"
    using takeWhile_stop [OF t(3)] by (simp add: IndexByte_def)
  have stop: "length body + length pre + 2 = length t" using t(2) by simp
  have c: "\<not> (length (t @ rest) \<le> length pre \<or> (t @ rest) ! length pre \<noteq> 0x22)" "t @ rest \<noteq> []" using t(2) by (auto simp: nth_append)
  have td: "take (length t) (t @ rest) = t" "drop (length t) (t @ rest) = rest" by simp_all
  show ?thesis by (subst tag_list.simps)
    (simp only: st ix stop td c Let_def assms option.case if_False if_True not_True_eq_False weak_eq_def simp_thms)
qed

lemma tags_text_shape:
  assumes "ts \<noteq> []" "\<forall>t\<in>set ts. validETag t"
  shows "tags_text ts \<noteq> [] \<and> (hd (tags_text ts) = 0x57 \<or> hd (tags_text ts) = 0x22) \<and> last (tags_text ts) = 0x22"
  using assms
proof (induction ts rule: tags_text.induct)
  case (2 t)
  then show ?case by (auto elim!: validETag_cases simp: weak_prefix_def)
next
  case (3 t u us)
  have "t \<noteq> [] \<and> (hd t = 0x57 \<or> hd t = 0x22)" using "3.prems" by (auto elim!: validETag_cases simp: weak_prefix_def)
  then show ?case using 3 by auto
qed simp

lemma lead_comma: "lead space_seqs (0x2c # s) = 0" "lead (map rev space_seqs) (0x22 # s) = 0" "lead space_seqs (0x57 # s) = 0"
    "lead space_seqs (0x22 # s) = 0" "lead space_seqs (0x20 # s) = 1"
  by (simp_all add: lead_def space_seqs_def starts_def)

lemma TrimSpace_ends:
  assumes "s \<noteq> []" "lead space_seqs s = 0" "last s = 0x22"
  shows "TrimSpace s = s"
proof -
  have "s = butlast s @ [0x22]" using assms(1,3) by (metis append_butlast_last_id)
  from arg_cong [OF this, of rev] have "rev s = 0x22 # rev (butlast s)" by simp
  then have "lead (map rev space_seqs) (rev s) = 0" by (simp only: lead_comma)
  then show ?thesis by (rule TrimSpace_plain [OF assms(2)])
qed

lemma tag_list_text:
  assumes "ts \<noteq> []" "\<forall>t\<in>set ts. validETag t"
  shows "tag_list stored (tags_text ts) m = (m \<or> (\<exists>t\<in>set ts. weak_eq t stored))"
  using assms
proof (induction ts arbitrary: m rule: tags_text.induct)
  case (2 t)
  have "TrimSpace [] = []" by (rule TrimSpace_plain) simp_all
  then show ?case using 2 tag_list_step [of t stored "[]" m] by simp
next
  case (3 t u us)
  let ?x = "tags_text (u # us)"
  have sh: "?x \<noteq> []" "hd ?x = 0x57 \<or> hd ?x = 0x22" "last ?x = 0x22" using tags_text_shape [of "u # us"] "3.prems" by auto
  then obtain c y where x: "?x = c # y" "c = 0x57 \<or> c = 0x22" by (cases ?x) auto
  have lx: "lead space_seqs ?x = 0" using x lead_comma by auto
  have 1: "TrimSpace (0x2c # 0x20 # ?x) = 0x2c # 0x20 # ?x" using sh lead_comma by (intro TrimSpace_ends) auto
  have "trim_lead space_seqs (0x20 # ?x) = trim_lead space_seqs ?x" by (subst trim_lead.simps) (simp add: lead_comma)
  then have 2: "TrimSpace (0x20 # ?x) = ?x" using TrimSpace_ends [OF sh(1) lx sh(3)] by (simp add: TrimSpace_def)
  have "tag_list stored (tags_text (t # u # us)) m = tag_list stored ?x (m \<or> weak_eq t stored)"
    using tag_list_step [of t stored "0x2c # 0x20 # ?x" m] "3.prems" 1 2 sh(1) by (simp add: Let_def)
  then show ?case using "3.IH" [of "m \<or> weak_eq t stored"] "3.prems" by auto
qed simp


text \<open>C19. A conditional request is answered by the weak comparison. For an If-None-Match header that lists valid entity
  tags, separated by a comma and a space, the scanner answers not modified exactly if one of them equals the
  stored tag up to the weakness mark.\<close>

theorem not_modified_tags:
  assumes "ts \<noteq> []" "\<forall>t\<in>set ts. validETag t" "validETag (header_Get h (go_str ''ETag''))"
    "hasHeader (rq_Header r) (go_str ''If-None-Match'')" "header_Values (rq_Header r) (go_str ''If-None-Match'') = [tags_text ts]"
  shows "clientNotModified pt r h = (\<exists>t\<in>set ts. weak_eq t (header_Get h (go_str ''ETag'')))"
proof -
  have sh: "tags_text ts \<noteq> []" "hd (tags_text ts) = 0x57 \<or> hd (tags_text ts) = 0x22" "last (tags_text ts) = 0x22"
    using tags_text_shape [OF assms(1,2)] by auto
  then obtain c y where x: "tags_text ts = c # y" "c = 0x57 \<or> c = 0x22" by (cases "tags_text ts") auto
  then have "lead space_seqs (tags_text ts) = 0" using lead_comma by auto
  then have t: "TrimSpace (tags_text ts) = tags_text ts" using TrimSpace_ends sh by blast
  have n: "tags_text ts \<noteq> [0x2a]" using x by auto
  show ?thesis using assms(3-5) t n tag_list_text [OF assms(1,2)] by (simp add: clientNotModified_def go_Join_def)
qed

definition tag_a :: bytes where "tag_a = [0x22, 0x61, 0x22]"
definition tag_wa :: bytes where "tag_wa = [0x57, 0x2f, 0x22, 0x61, 0x22]"

theorem not_modified_tags_witness:
  "clientNotModified (\<lambda>_. None) (sample_get\<lparr>rq_Header := [(go_str ''If-None-Match'', [tags_text [[0x22, 0x22], tag_wa]])]\<rparr>)
     [(go_str ''Etag'', [tag_a])]"
proof -
  let ?r = "sample_get\<lparr>rq_Header := [(go_str ''If-None-Match'', [tags_text [[0x22, 0x22], tag_wa]])]\<rparr>"
  let ?h = "[(go_str ''Etag'', [tag_a])]"
  have e: "header_Get ?h (go_str ''ETag'') = tag_a" by (simp add: header_Get_def header_Values_def canon_defs go_str_def)
  have v: "validETag tag_a" "\<forall>t\<in>set [[0x22, 0x22], tag_wa]. validETag t"
    by (simp_all add: validETag_def TrimPrefix_def starts_def weak_prefix_def tag_a_def tag_wa_def Let_def)
  have h: "hasHeader (rq_Header ?r) (go_str ''If-None-Match'')" by (simp add: hasHeader_def EqualFold_def)
  have i: "header_Values (rq_Header ?r) (go_str ''If-None-Match'') = [tags_text [[0x22, 0x22], tag_wa]]"
    by (simp add: header_Values_def canon_defs go_str_def)
  have "weak_eq tag_wa tag_a" by (simp add: weak_eq_def TrimPrefix_def starts_def weak_prefix_def tag_a_def tag_wa_def)
  then show ?thesis using not_modified_tags [of "[[0x22, 0x22], tag_wa]" ?h ?r "\<lambda>_. None"] e v h i by simp
qed

section \<open>Validation keeps the stored body\<close>

lemma merge_keeps:
  assumes "canonical_key n = n" "n \<in> {go_str ''Content-Length'', go_str ''Content-Range'', go_str ''Transfer-Encoding'', go_str ''Trailer''}"
  shows "map_of (fold merge_one us old) n = map_of old n"
proof (induction us arbitrary: old)
  case (Cons u us)
  have "map_of (merge_one u old) n = map_of old n" using assms by (auto simp: merge_one_def AList.update_conv')
  then show ?case using Cons by simp
qed simp

lemma framing_names: "canonical_key (go_str ''Content-Length'') = go_str ''Content-Length''"
  "canonical_key (go_str ''Transfer-Encoding'') = go_str ''Transfer-Encoding''" "canonical_key (go_str ''Age'') = go_str ''Age''"
  "go_str ''Content-Length'' \<noteq> go_str ''Age''" "go_str ''Transfer-Encoding'' \<noteq> go_str ''Age''"
  by (simp_all add: canon_defs go_str_def)

lemma merged_framing:
  "map_of (mergeResponseHeaders old us) (go_str ''Content-Length'') = map_of old (go_str ''Content-Length'')"
  "map_of (mergeResponseHeaders old us) (go_str ''Transfer-Encoding'') = map_of old (go_str ''Transfer-Encoding'')"
  "\<not> hasHeader us (go_str ''Age'') \<Longrightarrow> map_of (mergeResponseHeaders old us) (go_str ''Age'') = None"
  using merge_keeps [OF framing_names(1), of us old] merge_keeps [OF framing_names(2), of us old] framing_names
  by (auto simp: mergeResponseHeaders_def Let_def header_Del_def AList.delete_conv')

text \<open>C20. A successful validation refreshes the metadata of the same body. The merged response keeps status, method, URL and
  the framing headers of the stored one, takes the times of the validation, carries no old Age, passes the response
  policy, and an entity tag that the origin sent agrees with the stored tag.\<close>

theorem validation_keeps_body:
  assumes "mergeValidation pt previous validation request = Some m"
  shows "Status m = Status previous \<and> RequestMethod m = RequestMethod previous \<and> RequestURL m = RequestURL previous \<and>
    RequestTime m = RequestTime validation \<and> ResponseTime m = ResponseTime validation \<and>
    map_of (ResponseHeaders m) (go_str ''Content-Length'') = map_of (ResponseHeaders previous) (go_str ''Content-Length'') \<and>
    map_of (ResponseHeaders m) (go_str ''Transfer-Encoding'') = map_of (ResponseHeaders previous) (go_str ''Transfer-Encoding'') \<and>
    (\<not> hasHeader (ResponseHeaders validation) (go_str ''Age'') \<longrightarrow> map_of (ResponseHeaders m) (go_str ''Age'') = None) \<and>
    responsePolicy pt (Some m) (ResponseTime m) \<noteq> None \<and>
    (header_Get (ResponseHeaders validation) (go_str ''ETag'') \<noteq> [] \<longrightarrow>
       weak_eq (header_Get (ResponseHeaders validation) (go_str ''ETag'')) (header_Get (ResponseHeaders previous) (go_str ''ETag'')))"
proof -
  let ?ph = "ResponseHeaders previous" and ?vh = "ResponseHeaders validation"
  let ?m = "previous\<lparr>RequestTime := RequestTime validation, ResponseTime := ResponseTime validation,
    ResponseHeaders := mergeResponseHeaders ?ph ?vh\<rparr>"
  have m: "m = ?m" "responsePolicy pt (Some ?m) (ResponseTime ?m) \<noteq> None" "etag_agrees ?vh (header_Get ?ph (go_str ''ETag''))"
    using assms by (auto simp: mergeValidation_def Let_def split: if_splits)
  have "weak_eq (header_Get ?vh (go_str ''ETag'')) (header_Get ?ph (go_str ''ETag''))" if "header_Get ?vh (go_str ''ETag'') \<noteq> []"
    using m(3) that by (auto simp: etag_agrees_def weak_eq_def Let_def split: if_splits)
  then show ?thesis using m(2) merged_framing(1,2) [of ?ph ?vh] merged_framing(3) [of ?vh ?ph] unfolding m(1) by simp
qed

lemma sample_merge: "mergeValidation (\<lambda>_. Some 0) sample_response sample_response sample_get = Some sample_response"
proof -
  have h: "\<not> hasHeader (ResponseHeaders sample_response) (go_str n)" if "n \<in> {''Content-Range'', ''Trailer'', ''Content-Encoding'', ''Age''}" for n
    using that by (auto simp: hasHeader_def sample_response_def EqualFold_def go_str_def lower1_def is_upper_def)
  have g: "header_Get (ResponseHeaders sample_response) (go_str n) = []" if "n \<in> {''ETag'', ''Last-Modified''}" for n
    using that by (auto simp: header_Get_def sample_values canon_defs go_str_def)
  have r: "header_Get (rq_Header sample_get) n = []" for n by (simp add: header_Get_def header_Values_def sample_get_def)
  have mm: "mergeResponseHeaders (ResponseHeaders sample_response) (ResponseHeaders sample_response) = ResponseHeaders sample_response"
    using h [of "''Age''"] by (simp add: mergeResponseHeaders_def Let_def) (simp add: sample_response_def merge_one_def header_Del_def canon_defs go_str_def)
  have t: "sample_response\<lparr>ResponseHeaders := ResponseHeaders sample_response\<rparr> = sample_response" by (simp add: sample_response_def)
  have "responsePolicy (\<lambda>_. Some 0) (Some sample_response) (ResponseTime sample_response) \<noteq> None"
    using responsePolicy_Some [OF sample_policy, of "\<lambda>_. Some 0"] by auto
  then show ?thesis using h g r mm t
    by (simp add: mergeValidation_def etag_agrees_def condition_agrees_def Let_def)
qed

theorem validation_keeps_body_witness: "Status sample_response = 200 \<and> responsePolicy (\<lambda>_. Some 0) (Some sample_response) 5 \<noteq> None"
  using validation_keeps_body [OF sample_merge] by (simp add: sample_response_def)

section \<open>Keys\<close>

text \<open>The order of query items does not matter: two requests that differ only in the order of the items between the
  ampersands have the same cache key.\<close>

theorem cache_key_query_order:
  assumes "mset (go_Split 0x26 q) = mset (go_Split 0x26 (ru_RawQuery r))" "q \<noteq> [] \<longleftrightarrow> ru_RawQuery r \<noteq> []"
  shows "GetCacheKey (r\<lparr>ru_RawQuery := q\<rparr>) = GetCacheKey r"
proof -
  have "sort (go_Split 0x26 q) = sort (go_Split 0x26 (ru_RawQuery r))" using assms(1) by (simp add: properties_for_sort)
  then show ?thesis using assms(2) by (simp add: GetCacheKey_def Let_def)
qed

definition sample_url :: request_url where
  "sample_url = \<lparr>ru_Scheme = [], ru_TLS = False, ru_ReqHost = [0x68], ru_Host = [], ru_EscapedPath = [], ru_RawQuery = [0x61, 0x26, 0x62], ru_ForceQuery = False\<rparr>"

theorem cache_key_query_order_witness: "GetCacheKey (sample_url\<lparr>ru_RawQuery := [0x62, 0x26, 0x61]\<rparr>) = GetCacheKey sample_url"
  using cache_key_query_order [of "[0x62, 0x26, 0x61]" sample_url] by (simp add: sample_url_def)

text \<open>Header values that are no UTF-8 share a variant. Two requests whose Accept-Language values are different single bytes
  outside UTF-8 get the same representation key, because the key hashes JSON text.\<close>

theorem variant_key_collision:
  "representationKey selector [(go_str ''Accept-Language'', [[0xff]])] [go_str ''Accept-Language''] =
   representationKey selector [(go_str ''Accept-Language'', [[0xfe]])] [go_str ''Accept-Language'']"
proof -
  have "json_body [0xff] = json_body [0xfe]" by (simp add: json_body.simps rune_len_def Let_def)
  then have "json_string [0xff] = json_string [0xfe]" by (simp add: json_string_def)
  moreover have "canonical_key (go_str ''Accept-Language'') = go_str ''Accept-Language''" by (simp add: canon_defs go_str_def)
  ultimately show ?thesis by (simp add: representationKey_def json_strings_def)
qed

end
