(* ===== verification/Proxy_Forward.thy ===== *)
theory Proxy_Forward
  imports Http_Validation
begin

text \<open>
  What the proxy tells the origin about the client (\<^verbatim>\<open>proxy/proxy.go\<close>, \<^verbatim>\<open>proxy/public_request.go\<close>): hop-by-hop headers are
  removed, and forwarded identities are believed only from trusted peers. Addresses and networks of \<^verbatim>\<open>net/netip\<close> are the
  parameter \<open>ip_ops\<close>; \<open>fq_PeerIP\<close> is what \<^verbatim>\<open>GetIP\<close> makes of the remote address.
\<close>

record ('ip, 'net) ip_ops =
  ParseAddr :: "bytes \<Rightarrow> 'ip option"
  ip_Unmap :: "'ip \<Rightarrow> 'ip"
  ip_String :: "'ip \<Rightarrow> bytes"
  net_Contains :: "'net \<Rightarrow> 'ip \<Rightarrow> bool"

record fwd_request =
  fq_PeerIP :: bytes
  fq_TLS :: bool
  fq_Host :: bytes
  fq_Header :: header
  fq_PublicScheme :: "bytes option"

definition hop_names :: "bytes list" where
  "hop_names = map go_str [''Connection'', ''Proxy-Connection'', ''Keep-Alive'', ''Proxy-Authenticate'', ''Proxy-Authorization'', ''Te'', ''Trailer'',
     ''Transfer-Encoding'', ''Upgrade'']"

definition nominated :: "header \<Rightarrow> bytes list" where
  "nominated h = map TrimSpace (concat (map (go_Split 0x2c) (header_Values h (go_str ''Connection''))))"

definition stripHopHeaders :: "header \<Rightarrow> header" where
  "stripHopHeaders h = fold header_Del hop_names (fold header_Del (nominated h) h)"

definition header_Set :: "bytes \<Rightarrow> bytes \<Rightarrow> header \<Rightarrow> header" where
  "header_Set name val h = AList.update (canonical_key name) [val] h"

definition trusted :: "('ip, 'net) ip_ops \<Rightarrow> 'net list \<Rightarrow> 'ip \<Rightarrow> bool" where
  "trusted ops nets ip = list_ex (\<lambda>prefix. net_Contains ops prefix (ip_Unmap ops ip)) nets"

text \<open>The walk from the peer toward the client, over the reversed list of forwarded addresses.\<close>

primrec forward_walk :: "('ip, 'net) ip_ops \<Rightarrow> 'net list \<Rightarrow> bytes list \<Rightarrow> bytes \<Rightarrow> bytes \<Rightarrow> bytes \<times> bytes" where
  "forward_walk ops nets [] chain clientIP = (chain, clientIP)"
| "forward_walk ops nets (v # vs) chain clientIP =
     (case ParseAddr ops (TrimSpace v) of None \<Rightarrow> (chain, clientIP)
      | Some ip \<Rightarrow>
          let clientIP = ip_String ops (ip_Unmap ops ip); chain = clientIP @ go_str '', '' @ chain in
          if \<not> trusted ops nets ip then (chain, clientIP) else forward_walk ops nets vs chain clientIP)"

definition forwarding :: "('ip, 'net) ip_ops \<Rightarrow> 'net list \<Rightarrow> fwd_request \<Rightarrow> bytes \<times> bytes \<times> bytes" where
  "forwarding ops nets r =
     (case fq_PublicScheme r of Some publicScheme \<Rightarrow> ([], [], publicScheme) | None \<Rightarrow>
        let clientIP = fq_PeerIP r; chain = clientIP; scheme = (if fq_TLS r then go_str ''https'' else go_str ''http'') in
        case ParseAddr ops clientIP of None \<Rightarrow> (chain, clientIP, scheme)
        | Some peer \<Rightarrow>
            if \<not> trusted ops nets peer then (chain, clientIP, scheme)
            else let headers = stripHopHeaders (fq_Header r);
                     proto = header_Get headers (go_str ''X-Forwarded-Proto'');
                     scheme = (if proto = go_str ''http'' \<or> proto = go_str ''https'' then proto else scheme);
                     vals = go_Split 0x2c (go_Join 0x2c (header_Values headers (go_str ''X-Forwarded-For'')))
                 in case forward_walk ops nets (rev vals) chain clientIP of (chain, clientIP) \<Rightarrow> (chain, clientIP, scheme))"

definition forwarded_names :: "bytes list" where
  "forwarded_names = map go_str [''Forwarded'', ''X-Forwarded-For'', ''X-Forwarded-Host'', ''X-Forwarded-Proto'', ''X-Real-IP'']"

text \<open>The headers of the rewritten request; the URL, which \<^verbatim>\<open>SetURL\<close> joins with the target, is not modelled.\<close>

definition rewrite_headers :: "('ip, 'net) ip_ops \<Rightarrow> 'net list \<Rightarrow> fwd_request \<Rightarrow> header \<Rightarrow> header" where
  "rewrite_headers ops nets inr out =
     (let out = stripHopHeaders out; out = fold header_Del forwarded_names out in
      case forwarding ops nets inr of (chain, ip, scheme) \<Rightarrow>
        let out = (if ip \<noteq> [] then header_Set (go_str ''X-Real-IP'') ip (header_Set (go_str ''X-Forwarded-For'') chain out) else out);
            out = header_Set (go_str ''X-Proxy'') (go_str ''Balancer-Reverse-Proxy'') out;
            out = header_Set (go_str ''X-Forwarded-Host'') (fq_Host inr) out
        in header_Set (go_str ''X-Forwarded-Proto'') scheme out)"

definition CacheKey :: "('ip, 'net) ip_ops \<Rightarrow> 'net list \<Rightarrow> fwd_request \<Rightarrow> request_url \<Rightarrow> bytes" where
  "CacheKey ops nets r u = (case forwarding ops nets r of (_, _, scheme) \<Rightarrow> GetCacheKey (u\<lparr>ru_Scheme := scheme\<rparr>))"

definition public_dropped :: "bytes list" where
  "public_dropped = map go_str [''Forwarded'', ''X-Forwarded-For'', ''X-Real-IP'', ''Traceparent'', ''Tracestate'', ''Baggage'', ''X-Request-Id'', ''X-Correlation-Id'']"

definition NormalizePublicRequest :: "('ip, 'net) ip_ops \<Rightarrow> 'net list \<Rightarrow> fwd_request \<Rightarrow> fwd_request" where
  "NormalizePublicRequest ops nets r =
     (case forwarding ops nets r of (_, _, scheme) \<Rightarrow>
        let h = fold header_Del public_dropped (stripHopHeaders (fq_Header r));
            h = header_Set (go_str ''User-Agent'') (go_str ''Razor'') h;
            h = header_Set (go_str ''X-Forwarded-Host'') (fq_Host r) h;
            h = header_Set (go_str ''X-Forwarded-Proto'') scheme h
        in r\<lparr>fq_PublicScheme := Some scheme, fq_Header := h, fq_PeerIP := [], fq_TLS := False\<rparr>)"

section \<open>Trust\<close>

lemma map_of_Del: "map_of (header_Del name h) k = (if k = canonical_key name then None else map_of h k)"
  by (simp add: header_Del_def AList.delete_conv')

lemma map_of_fold_Del: "map_of (fold header_Del names h) k = (if k \<in> canonical_key ` set names then None else map_of h k)"
  by (induction names arbitrary: h) (auto simp: map_of_Del)

lemma map_of_Set: "map_of (header_Set name v h) k = (if k = canonical_key name then Some [v] else map_of h k)"
  by (simp add: header_Set_def AList.update_conv')


lemma forward_walk_ok:
  "\<exists>n ips. n \<le> length vs \<and> map (\<lambda>v. ParseAddr ops (TrimSpace v)) (take n vs) = map Some ips \<and>
     list_all (trusted ops nets) (butlast ips) \<and>
     snd (forward_walk ops nets vs chain cip) = (if ips = [] then cip else ip_String ops (ip_Unmap ops (last ips))) \<and>
     (n = length vs \<or> ParseAddr ops (TrimSpace (vs ! n)) = None \<or> ips \<noteq> [] \<and> \<not> trusted ops nets (last ips))"
proof (induction vs arbitrary: chain cip)
  case Nil
  then show ?case by auto
next
  case (Cons v vs)
  show ?case
  proof (cases "ParseAddr ops (TrimSpace v)")
    case None
    then show ?thesis by (intro exI [of _ 0] exI [of _ "[]"]) simp
  next
    case (Some ip)
    let ?c = "ip_String ops (ip_Unmap ops ip)"
    show ?thesis
    proof (cases "trusted ops nets ip")
      case False
      then show ?thesis using Some by (intro exI [of _ 1] exI [of _ "[ip]"]) (simp add: Let_def)
    next
      case True
      obtain n ips where k: "n \<le> length vs" "map (\<lambda>v. ParseAddr ops (TrimSpace v)) (take n vs) = map Some ips"
        "list_all (trusted ops nets) (butlast ips)"
        "snd (forward_walk ops nets vs (?c @ go_str '', '' @ chain) ?c) = (if ips = [] then ?c else ip_String ops (ip_Unmap ops (last ips)))"
        "n = length vs \<or> ParseAddr ops (TrimSpace (vs ! n)) = None \<or> ips \<noteq> [] \<and> \<not> trusted ops nets (last ips)"
        using Cons.IH [of "?c @ go_str '', '' @ chain" ?c] by blast
      show ?thesis using Some True k by (intro exI [of _ "Suc n"] exI [of _ "ip # ips"]) (auto simp: Let_def)
    qed
  qed
qed

text \<open>C25. An untrusted peer cannot choose its identity. If the peer's address is not in a trusted network, the client address,
  chain and scheme that the origin sees depend only on the connection, whatever headers the request carries.\<close>

theorem untrusted_peer_ignored:
  assumes "fq_PublicScheme r = None" "\<forall>peer. ParseAddr ops (fq_PeerIP r) = Some peer \<longrightarrow> \<not> trusted ops nets peer"
  shows "forwarding ops nets (r\<lparr>fq_Header := h\<rparr>) = (fq_PeerIP r, fq_PeerIP r, if fq_TLS r then go_str ''https'' else go_str ''http'')"
  using assms by (auto simp: forwarding_def Let_def split: option.splits)

definition sample_ip_ops :: "(nat, nat) ip_ops" where
  "sample_ip_ops = \<lparr>ParseAddr = (\<lambda>s. if length s = 1 then Some (unat (hd s)) else None), ip_Unmap = (\<lambda>n. n), ip_String = (\<lambda>n. [of_nat n]), net_Contains = (=)\<rparr>"

definition sample_fwd :: fwd_request where
  "sample_fwd = \<lparr>fq_PeerIP = [5], fq_TLS = True, fq_Host = [0x68], fq_Header = [], fq_PublicScheme = None\<rparr>"

theorem untrusted_peer_ignored_witness:
  "forwarding sample_ip_ops [6] (sample_fwd\<lparr>fq_Header := [(go_str ''X-Forwarded-For'', [[9]])]\<rparr>) = ([5], [5], go_str ''https'')"
  using untrusted_peer_ignored [of sample_fwd sample_ip_ops "[6]"] by (simp add: sample_fwd_def sample_ip_ops_def trusted_def)

text \<open>C27. A trusted chain is followed no further than trust reaches. For a trusted peer the reported client is the last of some
  run of forwarded addresses, read from the right, in which every address before it is trusted; the run ends at the
  start of the list, at an address that does not parse, or at the first address that is not trusted.\<close>

theorem trusted_chain:
  assumes "fq_PublicScheme r = None" "ParseAddr ops (fq_PeerIP r) = Some peer" "trusted ops nets peer"
    "vs = rev (go_Split 0x2c (go_Join 0x2c (header_Values (stripHopHeaders (fq_Header r)) (go_str ''X-Forwarded-For''))))"
  shows "\<exists>n ips. n \<le> length vs \<and> map (\<lambda>v. ParseAddr ops (TrimSpace v)) (take n vs) = map Some ips \<and>
     list_all (trusted ops nets) (butlast ips) \<and>
     fst (snd (forwarding ops nets r)) = (if ips = [] then fq_PeerIP r else ip_String ops (ip_Unmap ops (last ips))) \<and>
     (n = length vs \<or> ParseAddr ops (TrimSpace (vs ! n)) = None \<or> ips \<noteq> [] \<and> \<not> trusted ops nets (last ips))"
proof -
  have "fst (snd (forwarding ops nets r)) = snd (forward_walk ops nets vs (fq_PeerIP r) (fq_PeerIP r))"
    using assms by (simp add: forwarding_def Let_def split: prod.splits)
  then show ?thesis using forward_walk_ok [of vs ops nets "fq_PeerIP r" "fq_PeerIP r"] by simp
qed

theorem trusted_chain_witness:
  "\<exists>n ips. n \<le> length (rev (go_Split 0x2c (go_Join 0x2c (header_Values (stripHopHeaders (fq_Header sample_fwd)) (go_str ''X-Forwarded-For''))))) \<and>
     list_all (trusted sample_ip_ops [5]) (butlast ips) \<and>
     fst (snd (forwarding sample_ip_ops [5] sample_fwd)) = (if ips = [] then [5] else ip_String sample_ip_ops (ip_Unmap sample_ip_ops (last ips)))"
proof -
  have 1: "fq_PublicScheme sample_fwd = None" "ParseAddr sample_ip_ops (fq_PeerIP sample_fwd) = Some 5" "trusted sample_ip_ops [5] 5" "fq_PeerIP sample_fwd = [5]"
    by (simp_all add: sample_fwd_def sample_ip_ops_def trusted_def)
  show ?thesis using trusted_chain [OF 1(1-3) refl] 1(4) by metis
qed

lemma own_names: "canonical_key (go_str ''X-Real-IP'') = go_str ''X-Real-Ip''" "canonical_key (go_str ''X-Forwarded-For'') = go_str ''X-Forwarded-For''"
  "canonical_key (go_str ''X-Proxy'') = go_str ''X-Proxy''" "canonical_key (go_str ''X-Forwarded-Host'') = go_str ''X-Forwarded-Host''"
  "canonical_key (go_str ''X-Forwarded-Proto'') = go_str ''X-Forwarded-Proto''" "canonical_key (go_str ''Forwarded'') = go_str ''Forwarded''"
  by (simp_all add: canon_defs go_str_def)

text \<open>C26. The origin sees only identities the proxy vouches for: in the rewritten request the forwarding headers are the ones
  computed from the incoming request, or absent, whatever the outgoing headers held before.\<close>

theorem rewrite_owns_forwarding:
  assumes "forwarding ops nets inr = (chain, ip, scheme)"
  shows "let h = rewrite_headers ops nets inr out in
    map_of h (go_str ''X-Forwarded-Proto'') = Some [scheme] \<and> map_of h (go_str ''X-Forwarded-Host'') = Some [fq_Host inr] \<and>
    map_of h (go_str ''Forwarded'') = None \<and>
    map_of h (go_str ''X-Forwarded-For'') = (if ip = [] then None else Some [chain]) \<and>
    map_of h (go_str ''X-Real-Ip'') = (if ip = [] then None else Some [ip])"
proof -
  have ne: "go_str ''X-Forwarded-For'' \<noteq> go_str ''X-Real-Ip''" "go_str ''X-Forwarded-For'' \<noteq> go_str ''X-Proxy''"
    "go_str ''X-Forwarded-For'' \<noteq> go_str ''X-Forwarded-Host''" "go_str ''X-Forwarded-For'' \<noteq> go_str ''X-Forwarded-Proto''"
    "go_str ''X-Real-Ip'' \<noteq> go_str ''X-Proxy''" "go_str ''X-Real-Ip'' \<noteq> go_str ''X-Forwarded-Host''" "go_str ''X-Real-Ip'' \<noteq> go_str ''X-Forwarded-Proto''"
    "go_str ''X-Forwarded-Host'' \<noteq> go_str ''X-Forwarded-Proto''" "go_str ''Forwarded'' \<noteq> go_str ''X-Forwarded-For''"
    "go_str ''Forwarded'' \<noteq> go_str ''X-Real-Ip''" "go_str ''Forwarded'' \<noteq> go_str ''X-Proxy''" "go_str ''Forwarded'' \<noteq> go_str ''X-Forwarded-Host''"
    "go_str ''Forwarded'' \<noteq> go_str ''X-Forwarded-Proto''"
    by (simp_all add: go_str_def)
  have f: "canonical_key ` set forwarded_names =
      {go_str ''Forwarded'', go_str ''X-Forwarded-For'', go_str ''X-Forwarded-Host'', go_str ''X-Forwarded-Proto'', go_str ''X-Real-Ip''}"
    by (simp add: forwarded_names_def own_names)
  show ?thesis using ne ne [symmetric]
    by (simp add: rewrite_headers_def assms Let_def map_of_Set map_of_fold_Del f own_names)
qed

theorem rewrite_owns_forwarding_witness:
  "map_of (rewrite_headers sample_ip_ops [6] sample_fwd [(go_str ''X-Real-Ip'', [[9]])]) (go_str ''X-Real-Ip'') = Some [[5]]"
proof -
  have "forwarding sample_ip_ops [6] sample_fwd = ([5], [5], go_str ''https'')"
    by (simp add: forwarding_def sample_fwd_def sample_ip_ops_def trusted_def Let_def)
  then show ?thesis using rewrite_owns_forwarding [of sample_ip_ops "[6]" sample_fwd] by (simp add: Let_def)
qed

end
