(* ===== verification/Fill_Group.thy ===== *)
theory Fill_Group
  imports Razor_Prelude "HOL-Library.Multiset"
begin

text \<open>
  The table of shared cache fills (\<^verbatim>\<open>server/fill_group.go\<close>): requests for the same object join the task of the first one, whose
  producer fetches it once. A task is an object in a heap (a list, its index the pointer), because a table entry may be replaced
  while clients still hold the old task. The validity of a fill token (\<^verbatim>\<open>Cache.CheckFill\<close>), the state of the group's context and the
  two limits of the request's configuration are arguments of a call. A channel that is only closed is a flag, and closing it twice
  panics, as does a \<^verbatim>\<open>WaitGroup\<close> counter below zero.
\<close>

section \<open>The table and its tasks\<close>

datatype fill_err = ErrUnshareable | ErrCanceled | FillErr string | WrapErr string fill_err

fun errors_Is :: "fill_err \<Rightarrow> fill_err \<Rightarrow> bool" where
  "errors_Is (WrapErr s e) x \<longleftrightarrow> WrapErr s e = x \<or> errors_Is e x"
| "errors_Is e x \<longleftrightarrow> e = x"

record 'k fillTask =
  tk_id :: bytes
  tk_token :: 'k
  tk_cancelled :: bool
  tk_refs :: int
  tk_done :: bool
  tk_creatorGone :: bool
  tk_exited :: bool
  tk_err :: "fill_err option"

record 'k fillGroup =
  fg_tasks :: "bytes \<rightharpoonup> nat"
  fg_heap :: "'k fillTask list"
  fg_producers :: int
  fg_active :: int
  fg_waiters :: int
  fg_joined :: nat
  fg_completed :: nat
  fg_unshareable :: nat
  fg_failed :: nat
  fg_cancelled :: nat

definition new_fillGroup :: "'k fillGroup" where
  "new_fillGroup = \<lparr>fg_tasks = Map.empty, fg_heap = [], fg_producers = 0, fg_active = 0, fg_waiters = 0, fg_joined = 0, fg_completed = 0,
     fg_unshareable = 0, fg_failed = 0, fg_cancelled = 0\<rparr>"

definition set_task :: "nat \<Rightarrow> 'k fillTask \<Rightarrow> 'k fillGroup \<Rightarrow> 'k fillGroup" where
  "set_task n t g = g\<lparr>fg_heap := (fg_heap g)[n := t]\<rparr>"

definition start_fill :: "('k \<Rightarrow> go_err option) \<Rightarrow> int \<Rightarrow> bytes \<Rightarrow> 'k \<Rightarrow> 'k fillGroup \<Rightarrow> 'k fillGroup \<times> (nat \<times> bool) result" where
  "start_fill check max_tasks i token g =
     (if fg_active g \<ge> max_tasks then (g, Inl ErrOverloaded)
      else case check token of Some e \<Rightarrow> (g, Inl e)
      | None \<Rightarrow>
          let n = length (fg_heap g);
              t = \<lparr>tk_id = i, tk_token = token, tk_cancelled = False, tk_refs = 1, tk_done = False, tk_creatorGone = False,
                   tk_exited = False, tk_err = None\<rparr>
          in (g\<lparr>fg_tasks := (fg_tasks g)(i \<mapsto> n), fg_heap := fg_heap g @ [t], fg_producers := fg_producers g + 1,
                fg_active := fg_active g + 1, fg_waiters := fg_waiters g + 1\<rparr>, Inr (n, True)))"

definition fill_join :: "go_err option \<Rightarrow> ('k \<Rightarrow> go_err option) \<Rightarrow> int \<Rightarrow> int \<Rightarrow> bytes \<Rightarrow> 'k \<Rightarrow> 'k fillGroup \<Rightarrow> 'k fillGroup \<times> (nat \<times> bool) result" where
  "fill_join ctx_err check max_waiters max_tasks i token g =
     (case ctx_err of Some e \<Rightarrow> (g, Inl e) | None \<Rightarrow>
      case fg_tasks g i of
        None \<Rightarrow> start_fill check max_tasks i token g
      | Some n \<Rightarrow>
          let t = fg_heap g ! n in
          if check (tk_token t) = None \<and> \<not> tk_cancelled t
          then if tk_refs t \<ge> max_waiters then (g, Inl ErrOverloaded)
               else ((set_task n (t\<lparr>tk_refs := tk_refs t + 1\<rparr>) g)\<lparr>fg_waiters := fg_waiters g + 1, fg_joined := fg_joined g + 1\<rparr>, Inr (n, False))
          else start_fill check max_tasks i token (g\<lparr>fg_tasks := (fg_tasks g)(i := None)\<rparr>))"

definition fill_leave :: "nat \<Rightarrow> bool \<Rightarrow> 'k fillGroup \<Rightarrow> 'k fillGroup option" where
  "fill_leave n creator g =
     (let t = fg_heap g ! n in
      if creator \<and> tk_creatorGone t then None
      else let t = (if creator then t\<lparr>tk_creatorGone := True\<rparr> else t);
               t = t\<lparr>tk_refs := tk_refs t - 1\<rparr>;
               t = (if tk_refs t = 0 then t\<lparr>tk_cancelled := True\<rparr> else t)
           in Some ((set_task n t g)\<lparr>fg_waiters := fg_waiters g - 1\<rparr>))"

definition count_result :: "fill_err option \<Rightarrow> 'k fillGroup \<Rightarrow> 'k fillGroup" where
  "count_result r g = (case r of None \<Rightarrow> g\<lparr>fg_completed := fg_completed g + 1\<rparr>
     | Some e \<Rightarrow> if errors_Is e ErrUnshareable then g\<lparr>fg_unshareable := fg_unshareable g + 1\<rparr>
                 else if errors_Is e ErrCanceled then g\<lparr>fg_cancelled := fg_cancelled g + 1\<rparr>
                 else g\<lparr>fg_failed := fg_failed g + 1\<rparr>)"

definition fill_finish :: "nat \<Rightarrow> 'k fillGroup \<Rightarrow> 'k fillGroup option" where
  "fill_finish n g =
     (let t = fg_heap g ! n;
          g = (if fg_tasks g (tk_id t) = Some n then g\<lparr>fg_tasks := (fg_tasks g)(tk_id t := None)\<rparr> else g);
          g = count_result (tk_err t) (g\<lparr>fg_active := fg_active g - 1\<rparr>)
      in if tk_exited t \<or> fg_producers g - 1 < 0 then None
         else Some ((set_task n (t\<lparr>tk_cancelled := True, tk_exited := True\<rparr>) g)\<lparr>fg_producers := fg_producers g - 1\<rparr>))"

definition fill_publish :: "nat \<Rightarrow> fill_err option \<Rightarrow> 'k fillGroup \<Rightarrow> 'k fillGroup option" where
  "fill_publish n r g =
     (let t = fg_heap g ! n in if tk_done t then None else Some (set_task n (t\<lparr>tk_err := r, tk_done := True\<rparr>) g))"

section \<open>Every interleaving\<close>

text \<open>
  A state of a run is the group, the requests that have joined and not left (each with its task and whether it created it) and the
  producers that have not finished. A request leaves with what \<^const>\<open>fill_join\<close> gave it (the deferred call), a producer is started
  by the creator and finishes its own task, and the context of a task may end at any time. The limits are those of the
  configuration that the request captured, at most \<open>w\<close> and \<open>m\<close>.
\<close>

inductive fill_reach :: "int \<Rightarrow> int \<Rightarrow> 'k fillGroup \<Rightarrow> (nat \<times> bool) multiset \<Rightarrow> nat set \<Rightarrow> bool" for w m where
  start: "fill_reach w m new_fillGroup {#} {}"
| joined: "fill_reach w m g H P \<Longrightarrow> w' \<le> w \<Longrightarrow> m' \<le> m \<Longrightarrow> fill_join ctx_err check w' m' i token g = (g', Inr (n, c)) \<Longrightarrow>
    fill_reach w m g' (add_mset (n, c) H) (if c then insert n P else P)"
| refused: "fill_reach w m g H P \<Longrightarrow> w' \<le> w \<Longrightarrow> m' \<le> m \<Longrightarrow> fill_join ctx_err check w' m' i token g = (g', Inl e) \<Longrightarrow> fill_reach w m g' H P"
| leave: "fill_reach w m g H P \<Longrightarrow> (n, c) \<in># H \<Longrightarrow> fill_leave n c g = Some g' \<Longrightarrow> fill_reach w m g' (H - {#(n, c)#}) P"
| finish: "fill_reach w m g H P \<Longrightarrow> n \<in> P \<Longrightarrow> fill_finish n g = Some g' \<Longrightarrow> fill_reach w m g' H (P - {n})"
| publish: "fill_reach w m g H P \<Longrightarrow> n \<in> P \<Longrightarrow> fill_publish n r g = Some g' \<Longrightarrow> fill_reach w m g' H P"
| context_done: "fill_reach w m g H P \<Longrightarrow> n < length (fg_heap g) \<Longrightarrow>
    fill_reach w m (set_task n ((fg_heap g ! n)\<lparr>tk_cancelled := True\<rparr>) g) H P"

definition holders :: "nat \<Rightarrow> (nat \<times> bool) multiset \<Rightarrow> int" where
  "holders n H = int (size (filter_mset (\<lambda>h. fst h = n) H))"

definition task_ok :: "int \<Rightarrow> (nat \<times> bool) multiset \<Rightarrow> nat set \<Rightarrow> nat \<Rightarrow> 'k fillTask \<Rightarrow> bool" where
  "task_ok w H P n t \<longleftrightarrow> tk_refs t = holders n H \<and> tk_refs t \<le> w \<and> count H (n, True) = (if tk_creatorGone t then 0 else 1) \<and>
     (tk_refs t = 0 \<or> tk_exited t \<longrightarrow> tk_cancelled t) \<and> (n \<in> P \<longleftrightarrow> \<not> tk_exited t)"

definition fill_inv :: "int \<Rightarrow> int \<Rightarrow> 'k fillGroup \<Rightarrow> (nat \<times> bool) multiset \<Rightarrow> nat set \<Rightarrow> bool" where
  "fill_inv w m g H P \<longleftrightarrow> finite P \<and> (\<forall>n\<in>P. n < length (fg_heap g)) \<and> (\<forall>h\<in>#H. fst h < length (fg_heap g)) \<and>
     fg_active g = int (card P) \<and> fg_producers g = int (card P) \<and> fg_waiters g = int (size H) \<and> fg_active g \<le> m \<and>
     (\<forall>n < length (fg_heap g). task_ok w H P n (fg_heap g ! n)) \<and>
     (\<forall>i n. fg_tasks g i = Some n \<longrightarrow> n \<in> P \<and> tk_id (fg_heap g ! n) = i)"

lemma holders_simps [simp]:
  "holders n {#} = 0" "holders n (add_mset h H) = holders n H + (if fst h = n then 1 else 0)" "0 \<le> holders n H"
  by (simp_all add: holders_def)

lemma holders_remove: "h \<in># H \<Longrightarrow> holders n (H - {#h#}) = holders n H - (if fst h = n then 1 else 0)"
  by (metis add_diff_cancel_right' holders_simps(2) insert_DiffM)

lemma holders_fresh:
  assumes "\<forall>h\<in>#H. fst h < n"
  shows "holders n H = 0 \<and> count H (n, c) = 0"
proof -
  have "filter_mset (\<lambda>h. fst h = n) H = {#}" using assms by (auto simp: multiset_eq_iff not_in_iff [symmetric])
  moreover have "(n, c) \<notin># H" using assms by force
  ultimately show ?thesis by (simp add: holders_def not_in_iff)
qed

lemma fill_inv_drop: "fill_inv w m g H P \<Longrightarrow> fill_inv w m (g\<lparr>fg_tasks := (fg_tasks g)(i := None)\<rparr>) H P"
  by (auto simp: fill_inv_def split: if_splits)

lemma start_fill_refused_inv:
  "fill_inv w m g H P \<Longrightarrow> start_fill check m' i token g = (g', Inl e) \<Longrightarrow> fill_inv w m g' H P"
  by (auto simp: start_fill_def Let_def split: if_splits option.splits)

lemma start_fill_inv:
  assumes inv: "fill_inv w m g H P" and w: "1 \<le> w" and m: "m' \<le> m" and r: "start_fill check m' i token g = (g', Inr (n, c))"
  shows "fill_inv w m g' (add_mset (n, c) H) (insert n P) \<and> c"
proof -
  let ?l = "length (fg_heap g)"
  have r: "n = ?l" "c" "fg_active g < m" "fg_heap g' = fg_heap g @ [\<lparr>tk_id = i, tk_token = token, tk_cancelled = False, tk_refs = 1, tk_done = False,
      tk_creatorGone = False, tk_exited = False, tk_err = None\<rparr>]" "fg_tasks g' = (fg_tasks g)(i \<mapsto> ?l)" "fg_active g' = fg_active g + 1"
      "fg_producers g' = fg_producers g + 1" "fg_waiters g' = fg_waiters g + 1"
    using r m by (auto simp: start_fill_def Let_def split: if_splits option.splits)
  have fresh: "?l \<notin> P" "holders ?l H = 0" "count H (?l, True) = 0" using inv holders_fresh [of H ?l] by (auto simp: fill_inv_def)
  have "task_ok w (add_mset (n, c) H) (insert n P) k (fg_heap g' ! k)" if "k < length (fg_heap g')" for k
  proof (cases "k = ?l")
    case False
    then have "task_ok w H P k (fg_heap g ! k)" "k < ?l" using that inv by (auto simp: r fill_inv_def)
    then show ?thesis using False by (auto simp: r task_ok_def nth_append)
  qed (use w fresh in \<open>auto simp: r task_ok_def nth_append\<close>)
  moreover have "k \<in> insert n P \<and> tk_id (fg_heap g' ! k) = j" if "fg_tasks g' j = Some k" for j k
    using that inv by (auto simp: r fill_inv_def nth_append split: if_splits)
  ultimately show ?thesis using inv fresh r(1-3) by (auto simp: fill_inv_def r(4-) card_insert_if less_Suc_eq)
qed

text \<open>One task replaced, with the bookkeeping around it.\<close>

lemma fill_inv_task:
  assumes inv: "fill_inv w m g H P" and n: "n < length (fg_heap g)"
    and heap: "fg_heap g' = (fg_heap g)[n := t]" and i: "tk_id t = tk_id (fg_heap g ! n)" and t: "task_ok w H' P' n t"
    and others: "\<And>k. k \<noteq> n \<Longrightarrow> holders k H' = holders k H \<and> count H' (k, True) = count H (k, True) \<and> (k \<in> P' \<longleftrightarrow> k \<in> P)"
    and sub: "P' \<subseteq> P" "set_mset H' \<subseteq> insert (n, False) (set_mset H)"
    and table: "\<And>j k. fg_tasks g' j = Some k \<Longrightarrow> fg_tasks g j = Some k \<and> k \<in> P'"
    and nums: "fg_active g' = int (card P')" "fg_producers g' = int (card P')" "fg_waiters g' = int (size H')"
  shows "fill_inv w m g' H' P'"
proof -
  have fin: "finite P" using inv by (simp add: fill_inv_def)
  have "task_ok w H' P' k (fg_heap g' ! k)" if "k < length (fg_heap g)" for k
    using that inv t others [of k] n by (cases "k = n") (auto simp: heap fill_inv_def task_ok_def)
  moreover have "k \<in> P' \<and> tk_id (fg_heap g' ! k) = j" if "fg_tasks g' j = Some k" for j k
    using table [OF that] inv i n by (cases "k = n") (auto simp: heap fill_inv_def)
  moreover have "int (card P') \<le> m" using card_mono [OF fin sub(1)] inv by (simp add: fill_inv_def)
  moreover have "\<forall>h\<in>#H'. fst h < length (fg_heap g)" using sub(2) inv n by (fastforce simp: fill_inv_def)
  ultimately show ?thesis using inv sub(1) nums finite_subset [OF sub(1) fin] by (auto simp: fill_inv_def heap)
qed

lemma fill_inv_held:
  assumes "fill_inv w m g H P" "(n, c) \<in># H"
  shows "n < length (fg_heap g) \<and> task_ok w H P n (fg_heap g ! n) \<and> 0 < tk_refs (fg_heap g ! n)"
proof -
  have n: "n < length (fg_heap g)" and t: "task_ok w H P n (fg_heap g ! n)" using assms by (force simp: fill_inv_def)+
  have "holders n (H - {#(n, c)#}) = holders n H - 1" using holders_remove [OF assms(2)] by simp
  then have "0 < holders n H" using holders_simps(3) [of n "H - {#(n, c)#}"] by linarith
  then show ?thesis using n t by (simp add: task_ok_def)
qed

lemma fill_inv_producer: "fill_inv w m g H P \<Longrightarrow> n \<in> P \<Longrightarrow> n < length (fg_heap g) \<and> task_ok w H P n (fg_heap g ! n)"
  by (auto simp: fill_inv_def)

lemma fill_joined_inv:
  assumes inv: "fill_inv w m g H P" and w: "1 \<le> w" "w' \<le> w" "m' \<le> m" and r: "fill_join ctx_err check w' m' i token g = (g', Inr (n, c))"
  shows "fill_inv w m g' (add_mset (n, c) H) (if c then insert n P else P)"
proof (cases "\<exists>k. fg_tasks g i = Some k \<and> check (tk_token (fg_heap g ! k)) = None \<and> \<not> tk_cancelled (fg_heap g ! k)")
  case True
  then have r: "fg_tasks g i = Some n" "\<not> c" "tk_refs (fg_heap g ! n) < w'" "\<not> tk_cancelled (fg_heap g ! n)"
      "g' = (set_task n ((fg_heap g ! n)\<lparr>tk_refs := tk_refs (fg_heap g ! n) + 1\<rparr>) g)\<lparr>fg_waiters := fg_waiters g + 1, fg_joined := fg_joined g + 1\<rparr>"
    using r by (auto simp: fill_join_def Let_def split: option.splits if_splits)
  then have n: "n \<in> P" using inv by (auto simp: fill_inv_def)
  note t = fill_inv_producer [OF inv n]
  have h: "holders n H + 1 \<noteq> 0" using holders_simps(3) [of n H] by linarith
  have "fill_inv w m g' (add_mset (n, c) H) P"
  proof (rule fill_inv_task [OF inv, of n _ "(fg_heap g ! n)\<lparr>tk_refs := tk_refs (fg_heap g ! n) + 1\<rparr>"])
    show "task_ok w (add_mset (n, c) H) P n ((fg_heap g ! n)\<lparr>tk_refs := tk_refs (fg_heap g ! n) + 1\<rparr>)"
      using t r(2-4) w(2) h by (auto simp: task_ok_def)
  qed (use t inv r in \<open>auto simp: set_task_def fill_inv_def\<close>)
  then show ?thesis using r(2) by simp
next
  case False
  then have "start_fill check m' i token g = (g', Inr (n, c)) \<or> start_fill check m' i token (g\<lparr>fg_tasks := (fg_tasks g)(i := None)\<rparr>) = (g', Inr (n, c))"
    using r by (auto simp: fill_join_def Let_def split: option.splits if_splits)
  then have "fill_inv w m g' (add_mset (n, c) H) (insert n P) \<and> c"
    by (elim disjE) (erule start_fill_inv [OF inv w(1,3)], erule start_fill_inv [OF fill_inv_drop [OF inv] w(1,3)])
  then show ?thesis by (cases c) simp_all
qed

lemma fill_refused_inv:
  assumes inv: "fill_inv w m g H P" and r: "fill_join ctx_err check w' m' i token g = (g', Inl e)"
  shows "fill_inv w m g' H P"
proof -
  have "g' = g \<or> start_fill check m' i token g = (g', Inl e) \<or> start_fill check m' i token (g\<lparr>fg_tasks := (fg_tasks g)(i := None)\<rparr>) = (g', Inl e)"
    using r by (auto simp: fill_join_def Let_def split: option.splits if_splits)
  then show ?thesis
    by (elim disjE) (simp add: inv, erule start_fill_refused_inv [OF inv], erule start_fill_refused_inv [OF fill_inv_drop [OF inv]])
qed

lemma fill_leave_inv:
  assumes inv: "fill_inv w m g H P" and h: "(n, c) \<in># H" and r: "fill_leave n c g = Some g'"
  shows "fill_inv w m g' (H - {#(n, c)#}) P"
proof -
  let ?o = "fg_heap g ! n"
  let ?t = "(if c then ?o\<lparr>tk_creatorGone := True\<rparr> else ?o)\<lparr>tk_refs := tk_refs ?o - 1, tk_cancelled := (tk_cancelled ?o \<or> tk_refs ?o = 1)\<rparr>"
  note t = fill_inv_held [OF inv h]
  have g': "g' = (set_task n ?t g)\<lparr>fg_waiters := fg_waiters g - 1\<rparr>"
    using r by (cases ?o) (auto simp: fill_leave_def Let_def split: if_splits)
  show ?thesis
  proof (rule fill_inv_task [OF inv, of n _ ?t])
    have c: "c \<Longrightarrow> \<not> tk_creatorGone ?o \<and> count H (n, True) = 1" using t h by (auto simp: task_ok_def count_eq_zero_iff split: if_splits)
    have "holders n (H - {#(n, c)#}) = holders n H - 1" using holders_remove [OF h] by simp
    then show "task_ok w (H - {#(n, c)#}) P n ?t" using t c by (cases c) (auto simp: task_ok_def)
    have "Suc (size (H - {#(n, c)#})) = size H" using h by (metis insert_DiffM size_add_mset)
    then show "fg_waiters g' = int (size (H - {#(n, c)#}))" using inv unfolding fill_inv_def g' by simp
  qed (use t inv h in \<open>auto simp: g' set_task_def fill_inv_def holders_remove dest: in_diffD\<close>)
qed

lemma count_result_simps [simp]:
  "fg_heap (count_result r g) = fg_heap g" "fg_tasks (count_result r g) = fg_tasks g" "fg_active (count_result r g) = fg_active g"
  "fg_producers (count_result r g) = fg_producers g" "fg_waiters (count_result r g) = fg_waiters g"
  by (auto simp: count_result_def split: option.splits)

lemma fill_finish_inv:
  assumes inv: "fill_inv w m g H P" and n: "n \<in> P" and r: "fill_finish n g = Some g'"
  shows "fill_inv w m g' H (P - {n})"
proof -
  let ?t = "(fg_heap g ! n)\<lparr>tk_cancelled := True, tk_exited := True\<rparr>"
  note t = fill_inv_producer [OF inv n]
  have g': "fg_heap g' = (fg_heap g)[n := ?t]" "fg_active g' = fg_active g - 1" "fg_producers g' = fg_producers g - 1" "fg_waiters g' = fg_waiters g"
      "fg_tasks g' = (if fg_tasks g (tk_id (fg_heap g ! n)) = Some n then (fg_tasks g)(tk_id (fg_heap g ! n) := None) else fg_tasks g)"
    using r by (auto simp: fill_finish_def Let_def set_task_def split: if_splits)
  have fin: "finite P" using inv by (simp add: fill_inv_def)
  have "Suc (card (P - {n})) = card P" by (rule card_Suc_Diff1 [OF fin n])
  then have card: "int (card (P - {n})) = int (card P) - 1" by linarith
  show ?thesis
  proof (rule fill_inv_task [OF inv _ g'(1)])
    fix j k assume j: "fg_tasks g' j = Some k"
    then have "fg_tasks g j = Some k" by (auto simp: g' split: if_splits)
    moreover from this have "k \<in> P" "tk_id (fg_heap g ! k) = j" using inv by (auto simp: fill_inv_def)
    ultimately show "fg_tasks g j = Some k \<and> k \<in> P - {n}" using j by (auto simp: g' split: if_splits)
  qed (use t inv card in \<open>auto simp: g' fill_inv_def task_ok_def\<close>)
qed

lemma fill_same_inv:
  assumes inv: "fill_inv w m g H P" and n: "n < length (fg_heap g)" and t: "task_ok w H P n t" "tk_id t = tk_id (fg_heap g ! n)"
  shows "fill_inv w m (set_task n t g) H P"
  by (rule fill_inv_task [OF inv n _ t(2,1)]) (use inv in \<open>auto simp: set_task_def fill_inv_def\<close>)

lemma fill_reach_inv: "fill_reach w m g H P \<Longrightarrow> 1 \<le> w \<Longrightarrow> 0 \<le> m \<Longrightarrow> fill_inv w m g H P"
proof (induction rule: fill_reach.induct)
  case start
  then show ?case by (simp add: fill_inv_def new_fillGroup_def)
next
  case (publish g H P n r g')
  then have inv: "fill_inv w m g H P" by simp
  have "g' = set_task n ((fg_heap g ! n)\<lparr>tk_err := r, tk_done := True\<rparr>) g" using publish.hyps(3) by (auto simp: fill_publish_def Let_def split: if_splits)
  then show ?case using fill_inv_producer [OF inv publish.hyps(2)] by (auto intro!: fill_same_inv [OF inv] simp: task_ok_def)
next
  case (context_done g H P n)
  then have inv: "fill_inv w m g H P" by simp
  then have "task_ok w H P n (fg_heap g ! n)" using context_done.hyps(2) by (simp add: fill_inv_def)
  then show ?case using context_done.hyps(2) by (auto intro!: fill_same_inv [OF inv] simp: task_ok_def)
next
  case (joined g H P w' m' ctx_err check i token g' n c)
  then show ?case by (intro fill_joined_inv) auto
qed (auto intro: fill_refused_inv fill_leave_inv fill_finish_inv)

text \<open>Two requests for one object: the first starts the task, the second joins it.\<close>

definition shared_pair :: "unit fillGroup" where
  "shared_pair = \<lparr>fg_tasks = [[1] \<mapsto> 0],
     fg_heap = [\<lparr>tk_id = [1], tk_token = (), tk_cancelled = False, tk_refs = 2, tk_done = False, tk_creatorGone = False, tk_exited = False, tk_err = None\<rparr>],
     fg_producers = 1, fg_active = 1, fg_waiters = 2, fg_joined = 1, fg_completed = 0, fg_unshareable = 0, fg_failed = 0, fg_cancelled = 0\<rparr>"

lemma shared_pair_reach: "fill_reach 2 1 shared_pair {#(0, False), (0, True)#} {0}"
proof -
  let ?join = "fill_join None (\<lambda>_. None) 2 1 [1] ()"
  have first: "?join new_fillGroup = (fst (?join new_fillGroup), Inr (0, True))"
    by (simp add: fill_join_def start_fill_def new_fillGroup_def Let_def)
  have second: "?join (fst (?join new_fillGroup)) = (shared_pair, Inr (0, False))"
    by (simp add: fill_join_def start_fill_def new_fillGroup_def shared_pair_def set_task_def Let_def)
  show ?thesis using fill_reach.joined [OF fill_reach.joined [OF fill_reach.start _ _ first] _ _ second] by simp
qed

section \<open>Properties\<close>

text \<open>C14. In every reachable state of the shared fills, whatever the interleaving of requests, producers and timeouts: the counters are
  exact (\<^verbatim>\<open>active\<close> is the number of running producers and \<^verbatim>\<open>waiters\<close> that of the requests that joined and have not left), at most
  \<open>m\<close> producers run, each task counts exactly the requests that hold it, at most \<open>w\<close>, a task that nobody waits for is cancelled, and
  the table only leads to tasks of that identity whose producer still runs.\<close>

theorem fill_group_exact:
  assumes "fill_reach w m g H P" "1 \<le> w" "0 \<le> m"
  shows "fg_active g = int (card P) \<and> card P \<le> nat m \<and> fg_waiters g = int (size H) \<and>
    (\<forall>n < length (fg_heap g). tk_refs (fg_heap g ! n) = holders n H \<and> holders n H \<le> w \<and> (holders n H = 0 \<longrightarrow> tk_cancelled (fg_heap g ! n))) \<and>
    (\<forall>i n. fg_tasks g i = Some n \<longrightarrow> n \<in> P \<and> n < length (fg_heap g) \<and> tk_id (fg_heap g ! n) = i \<and> \<not> tk_exited (fg_heap g ! n))"
proof -
  note inv = fill_reach_inv [OF assms]
  have "n \<in> P \<and> n < length (fg_heap g) \<and> tk_id (fg_heap g ! n) = i \<and> \<not> tk_exited (fg_heap g ! n)" if "fg_tasks g i = Some n" for i n
  proof -
    have n: "n \<in> P" "tk_id (fg_heap g ! n) = i" using inv that by (auto simp: fill_inv_def)
    then show ?thesis using fill_inv_producer [OF inv n(1)] by (simp add: task_ok_def)
  qed
  then show ?thesis using inv by (auto simp: fill_inv_def task_ok_def le_nat_iff)
qed

theorem fill_group_exact_witness:
  "fill_reach 2 1 shared_pair {#(0, False), (0, True)#} {0} \<and> fg_waiters shared_pair = 2 \<and> fg_active shared_pair = 1"
  using fill_group_exact [OF shared_pair_reach] shared_pair_reach by simp

text \<open>C15. The calls that close channels and decrement the wait group never panic: in every reachable state a request that joined can
  leave, and a running producer can finish its task, which takes it out of the table, so that the next request starts anew.\<close>

theorem fill_group_no_panic:
  assumes "fill_reach w m g H P" "1 \<le> w" "0 \<le> m"
  shows "((n, c) \<in># H \<longrightarrow> (\<exists>g'. fill_leave n c g = Some g')) \<and>
    (n \<in> P \<longrightarrow> (\<exists>g'. fill_finish n g = Some g' \<and> fg_tasks g' (tk_id (fg_heap g ! n)) \<noteq> Some n))"
proof (intro conjI impI)
  note inv = fill_reach_inv [OF assms]
  assume h: "(n, c) \<in># H"
  have "\<not> (c \<and> tk_creatorGone (fg_heap g ! n))" using fill_inv_held [OF inv h] h by (auto simp: task_ok_def count_eq_zero_iff)
  then show "\<exists>g'. fill_leave n c g = Some g'" by (simp only: fill_leave_def Let_def if_False) blast
next
  note inv = fill_reach_inv [OF assms]
  assume n: "n \<in> P"
  then have "0 < card P" using inv by (auto simp: fill_inv_def card_gt_0_iff)
  moreover have "fg_producers g = int (card P)" using inv by (simp add: fill_inv_def)
  ultimately have "\<not> (tk_exited (fg_heap g ! n) \<or> fg_producers g - 1 < 0)" using fill_inv_producer [OF inv n] n by (simp add: task_ok_def)
  then show "\<exists>g'. fill_finish n g = Some g' \<and> fg_tasks g' (tk_id (fg_heap g ! n)) \<noteq> Some n"
    by (simp add: fill_finish_def Let_def set_task_def)
qed

theorem fill_group_no_panic_witness:
  "fill_reach 2 1 shared_pair {#(0, False), (0, True)#} {0} \<and> (\<exists>g'. fill_leave 0 True shared_pair = Some g') \<and> (\<exists>g'. fill_finish 0 shared_pair = Some g')"
  using fill_group_no_panic [OF shared_pair_reach, of 0 True] shared_pair_reach by auto

end
