(* ===== verification/Spec2Isabelle.thy ===== *)
theory Spec2Isabelle
  imports Dir_Diag Store Stripe_Owner Fill_Tokens Proxy_Config Proxy_Limits Proxy_Forward Fill_Group
begin

text \<open>
  Razor is an HTTP caching proxy written in Go. Its disk cache follows Apache Traffic Server: a file is divided into stripes,
  a stripe is a circular log of fragments with a directory in memory that maps key digests to log positions, new fragments
  pass through an aggregation buffer, and a RAM cache holds recent ones. In front of it stand an HTTP policy layer, which
  decides what may be stored and served, and an upstream proxy with load balancing, limits and health checks.

  \<^bold>\<open>Conventions\<close> (\<open>Razor_Prelude\<close>, \<open>Go_Strings\<close>). Byte strings are lists of 8-bit words; fixed-width fields are words; Go's
  signed integers are \<open>int\<close>, with \<open>i64\<close> where a result may wrap and \<open>go_div\<close> for its division. A Go pair of value and
  error is a sum (\<open>Inl\<close> is the error). A computation that may panic or not return has an \<open>option\<close> type, and the loops
  whose end is not obvious are partial functions that are proved to return. A mutex makes an operation one step; an operation that
  releases its lock, or waits, is divided there. \<open>Go_Strings\<close> has the parts of \<^verbatim>\<open>strings\<close> and \<^verbatim>\<open>strconv\<close> that the program uses.

  \<^bold>\<open>Directory\<close> (\<^verbatim>\<open>cache/dir.go\<close>, \<^verbatim>\<open>cache/dir_manager.go\<close>, \<^verbatim>\<open>cache/identity.go\<close>).
  \<^item> \<open>Dir_Entry\<close> is the packed entry with all its accessors: round trips, size bounds, and two setters that do not clear.
  \<^item> \<open>Dir_Segment\<close>, \<open>Dir_Chain\<close>, \<open>Dir_Rebuild\<close>, \<open>Dir_Ops\<close>, \<open>Dir_Check\<close>, \<open>Dir_Init\<close> model one segment: linked chains through array
    indices, free chain, probe, insert, delete, purge and rebuild. The invariant says that bucket chains and the free chain divide the
    slots of the segment; every operation keeps it, and the walks along chains return because of it.
  \<^item> \<open>Dir_Contract\<close> states what a segment promises about lookups. \<open>Lossy_Map\<close> has the locales \<open>forgetful_map\<close> and \<open>lossy_map\<close>: a map that
    may forget but never answers with an old value. \<open>Dir_Manager\<close> interprets \<open>lossy_map\<close> on the whole directory, with hashing
    (\<open>Hashes\<close>: MD5, SHA-256 and CRC-32 as bit operations) and identities; \<open>Dir_Calls\<close> carries the result to the Go calls \<^verbatim>\<open>Set\<close>, \<^verbatim>\<open>Delete\<close> and \<^verbatim>\<open>Get\<close>.
    The random choices of the purge are a parameter, so the results hold for all of them.
  \<^item> \<open>Dir_Diag\<close> (\<^verbatim>\<open>cache/dir_manager_diag.go\<close>) has the diagnostic walks, which accept every directory that satisfies the invariant.
  \<^item> \<open>Dir_Trie\<close> is the index of identities (\<^verbatim>\<open>cache/dir_trie.go\<close>) with its bounds, consistency and snapshot round trip.

  \<^bold>\<open>Records and memory\<close>.
  \<^item> \<open>Doc_Format\<close> (\<^verbatim>\<open>cache/doc.go\<close>, \<^verbatim>\<open>cache/stripe_header.go\<close>) and \<open>Http_Info\<close> (\<^verbatim>\<open>cache/http_info.go\<close>, \<^verbatim>\<open>cache/ram_metadata.go\<close>) are the stored
    formats: round trips, refusal of truncated or over-long fields, detection of a changed byte by the checksum.
  \<^item> \<open>Ram_Fifo\<close> and \<open>Ram_Cache\<close> (\<^verbatim>\<open>cache/ram_s3fifo.go\<close>, \<^verbatim>\<open>cache/ram_cache.go\<close>) are the RAM cache: its loops return, it stays within its capacity,
    and as an interpretation of \<open>forgetful_map\<close> it never serves an old value. The alternative policy is third-party code and a parameter.
  \<^item> \<open>Open_Dir\<close> (\<^verbatim>\<open>cache/open_dir.go\<close>) registers the writer of a document; entries are objects in a heap, so that a detached entry
    keeps its references.

  \<^bold>\<open>The log\<close>.
  \<^item> \<open>Store\<close> (\<^verbatim>\<open>cache/store.go\<close>) reads the storage configuration and tiles the spans with stripes; \<open>Stripe_Owner\<close>
    (\<^verbatim>\<open>cache/stripe_owner.go\<close>) keeps the open stripes of a file disjoint.
  \<^item> \<open>Agg_Buffer\<close> (\<^verbatim>\<open>cache/aggregate_write_buffer.go\<close>) is the double buffer with its cursor, generations and flush queue: a record is placed inside
    the bounds and can be read back, additions and flushes return or wait for the worker, errors are final.
  \<^item> \<open>Evacuation\<close> (\<^verbatim>\<open>cache/evacuation.go\<close>) is the table of fragments to be copied before they are overwritten.
  \<^item> \<open>Stripe\<close> (\<^verbatim>\<open>cache/stripe.go\<close>) writes the buffers to disk. Its step relation has the states during a write: a valid allocation still holds
    its record on disk, and a write in progress does not touch it.

  \<^bold>\<open>Purging\<close>. \<open>Fill_Tokens\<close> (\<^verbatim>\<open>cache/invalidation.go\<close>, \<^verbatim>\<open>cache/http_update.go\<close>, \<^verbatim>\<open>cache/cache.go\<close>) composes the directory, the index, the open
  directory, the RAM cache and the log into stripes of a cache: purge, removal and invalidation over all stripes, and the tokens that
  fence unfinished fills. A purge removes every key of its selector, and a token taken before it is refused for ever after. The theory at hand
  joins this with the table of shared fills: the sharing of a fetch never crosses a purge.

  \<^bold>\<open>HTTP\<close>.
  \<^item> \<open>Http_Policy\<close> (\<^verbatim>\<open>server/cache_policy.go\<close>): which requests and responses are cacheable and how long a response is fresh.
  \<^item> \<open>Http_Validation\<close> (\<^verbatim>\<open>server/cache_validation.go\<close>, \<^verbatim>\<open>server/cache_variant.go\<close>, \<^verbatim>\<open>proxy/cache_key.go\<close>): conditional requests, merging a
    validation, keys of representations.
  \<^item> \<open>Fill_Group\<close> (\<^verbatim>\<open>server/fill_group.go\<close>): requests for one object that share its fetch. Under every interleaving of requests, producers and
    timeouts the counters are exact, the limits hold, no call panics, and a fetch that nobody waits for is cancelled.
  \<^item> \<open>Proxy_Forward\<close> (\<^verbatim>\<open>proxy/proxy.go\<close>, \<^verbatim>\<open>proxy/public_request.go\<close>): hop-by-hop headers and trust in forwarded identities.

  \<^bold>\<open>Operation\<close>.
  \<^item> \<open>Balancer\<close> (\<^verbatim>\<open>balancer\<close>) and \<open>Proxy_Limits\<close> (\<^verbatim>\<open>internal/budget\<close>, \<^verbatim>\<open>proxy/limits.go\<close>, \<^verbatim>\<open>proxy/health.go\<close>): the rotation of hosts, the budgets under every
    interleaving of their clients, and the counting of health probes.
  \<^item> \<open>Proxy_Config\<close> (\<^verbatim>\<open>config\<close>): reading, defaulting and validating the configuration.

  \<^bold>\<open>Parameters\<close>. Outside the model, as arguments of the definitions: system calls and file contents, what \<^verbatim>\<open>http.ParseTime\<close> and the parsers of
  \<^verbatim>\<open>net/url\<close> and \<^verbatim>\<open>net/netip\<close> accept, random numbers, the otter cache and the consistent-hash ring. No result depends on what they
  answer, except where a hypothesis says so.

  \<^bold>\<open>Bounds\<close>. There is no fuel: recursion is structural or has a measure, and the loops over linked chains, over the eviction queues and
  over the stripe counts are partial functions whose return is a theorem. Counters that the code keeps in 64 bits and only increments
  (generations, sequence numbers) are natural numbers.

  \<^bold>\<open>Not modelled\<close>. The readers and writers of whole objects (\<^verbatim>\<open>cache/cache_read.go\<close>, \<^verbatim>\<open>cache/cache_write.go\<close>, \<^verbatim>\<open>cache/cache_vc.go\<close>,
  \<^verbatim>\<open>cache/cache.go\<close>), and with them recovery (\<^verbatim>\<open>cache/checkpoint.go\<close>) and the publication of a fill (\<^verbatim>\<open>OpenWriteFillKeyReplacing\<close>, \<^verbatim>\<open>UpdateHTTPInfo\<close>):
  they stream
  through goroutines that read what another is still writing, on top of the layers above. The HTTP server, the producers of shared fills and the range cache
  (\<^verbatim>\<open>server\<close>) are network I/O around the policy functions. Logging, TLS set-up, the background timers and the
  program entry have no state of their own to speak about.
\<close>

section \<open>Purging and shared fills together\<close>

abbreviation check_in :: "'o cache \<Rightarrow> FillToken \<Rightarrow> go_err option" where
  "check_in c t \<equiv> CheckFill c (Some t)"

text \<open>C4. A purge ends sharing. Let the table of shared fills lead to a task whose token was taken before a purge. A request that comes after the
  purge, and is served through the table with the token check of the current cache, does not join this task: if it is admitted, it is the
  creator of a new task, which replaces the old one in the table and
  whose token is valid. So the sharing of a fetch never crosses a purge.\<close>

theorem purge_ends_sharing:
  assumes "BeginFill key sel c0 = Inr tok" "cache_steps ops c0 c1" "PurgeSelector ops purged p c1 = Some (c2, Inr r)" "cache_steps ops c2 c3"
    and g: "fill_reach w m g H P" "1 \<le> w" "0 \<le> m" "fg_tasks g i = Some n" "tk_token (fg_heap g ! n) = tok"
    and join: "fill_join ctx_err (check_in c3) w' m' i token g = (g', Inr (k, creator))"
  shows "k \<noteq> n \<and> creator \<and> fg_tasks g' i = Some k \<and> tk_token (fg_heap g' ! k) = token \<and> check_in c3 token = None"
proof -
  have "check_in c3 tok \<noteq> None" using fence_refuses [OF assms(1,2) disjI1 [OF assms(3)] assms(4)] by (simp add: CheckFill_def)
  then have s: "start_fill (check_in c3) m' i token (g\<lparr>fg_tasks := (fg_tasks g)(i := None)\<rparr>) = (g', Inr (k, creator))"
    using join g(4,5) by (auto simp: fill_join_def Let_def split: option.splits)
  have "n < length (fg_heap g)" using fill_reach_inv [OF g(1-3)] g(4) by (auto simp: fill_inv_def)
  then show ?thesis using s by (auto simp: start_fill_def Let_def split: if_splits option.splits)
qed

lemma sample_purged:
  "PurgeSelector no_otter [2] False sample_cache = Some (map advance_generation sample_cache, Inr ([], []))"
  "\<exists>tok. BeginFill [1] [1] (map advance_generation sample_cache) = Inr tok"
  by (simp_all add: PurgeSelector_def BeginFill_def validateIdentity_def MaxIndexKeyBytes_def KeyToStripe_def fillSnapshotLocked_def
      rangeSnapshotLocked_def MaxFillVariants_def sample_cache_def sample_stripe_def advance_generation_def purge_keys_def
      KeysForSelector_def dt_Get_def KeysForSelectorLimit_def KeysForPrefixLimit_def members_def NewDirTrie_def MaxIndexEntries_def Let_def)

theorem purge_ends_sharing_witness:
  "\<exists>tok token g g' k. BeginFill [1] [1] sample_cache = Inr tok \<and> fill_join None (check_in sample_cache) 2 2 [9] tok new_fillGroup = (g, Inr (0, True)) \<and>
     fill_join None (check_in (map advance_generation sample_cache)) 2 2 [9] token g = (g', Inr (k, True)) \<and> k \<noteq> 0"
proof -
  let ?c = "map advance_generation sample_cache"
  obtain tok where b: "BeginFill [1] [1] sample_cache = Inr tok" using sample_begin by blast
  obtain token where b': "BeginFill [1] [1] ?c = Inr token" using sample_purged(2) by blast
  have ok: "check_in sample_cache tok = None" "check_in ?c token = None"
    using BeginFill_check [OF b] BeginFill_check [OF b'] by (simp_all add: CheckFill_def)
  have bad: "check_in ?c tok \<noteq> None"
    using fence_refuses [OF b cache_steps.stop disjI1 [OF sample_purged(1)] cache_steps.stop] by (simp add: CheckFill_def)
  obtain g where g: "fill_join None (check_in sample_cache) 2 2 [9] tok new_fillGroup = (g, Inr (0, True))" "fg_tasks g [9] = Some 0" "tk_token (fg_heap g ! 0) = tok"
      "fg_active g = 1"
    using ok(1) by (simp add: fill_join_def start_fill_def new_fillGroup_def Let_def)
  have r: "fill_reach 2 2 g {#(0, True)#} {0}" using fill_reach.joined [OF fill_reach.start _ _ g(1)] by simp
  obtain g' k where j: "fill_join None (check_in ?c) 2 2 [9] token g = (g', Inr (k, True))"
    using g ok(2) bad by (auto simp: fill_join_def start_fill_def Let_def)
  show ?thesis using purge_ends_sharing [OF b cache_steps.stop sample_purged(1) cache_steps.stop r _ _ g(2,3) j] b g(1) j by auto
qed

end
